(* ===== verification/Prelude.thy ===== *)
theory Prelude
  imports Main "HOL-Library.Word"
begin

text \<open>
  Shared vocabulary of the development: machine integers, the faults a C++ run can end in,
  bounds-checked reads and writes of a memory block (what memcpy and indexing do),
  little-endian byte images of integers, and the lemmas the components share about them.

  The platform is the one the sources are built for: x86-64 Linux with gcc, so integers are
  little-endian, pointers and \<^verbatim>\<open>size_t\<close> have 64 bits, and \<^verbatim>\<open>unsigned int\<close> has 32 bits.
\<close>

section \<open>Machine integers and faults\<close>

type_synonym u8 = "8 word"
type_synonym u16 = "16 word"
type_synonym u32 = "32 word"
type_synonym u64 = "64 word"

text \<open>
  What can go wrong in a run. Undefined behaviour of C++ is a fault of its own kind, so a theorem that
  a call returns \<open>Inr\<close> is a memory-safety statement as well.
\<close>

datatype fault =
    OutOfBounds     \<comment> \<open>a read or write outside the object it addresses\<close>
  | DivByZero       \<comment> \<open>\<^verbatim>\<open>%\<close> with a zero divisor\<close>
  | NullDeref       \<comment> \<open>a null or dangling pointer handed to code that follows it\<close>
  | BadVarArg       \<comment> \<open>\<^verbatim>\<open>va_arg\<close> or printf reads an argument of another kind, or none is left\<close>
  | AssertFailed    \<comment> \<open>\<^verbatim>\<open>assert\<close> aborts the process\<close>
  | Thrown          \<comment> \<open>a C++ exception leaves the call\<close>

type_synonym 'a result = "fault + 'a"

definition bindE :: "'a result \<Rightarrow> ('a \<Rightarrow> 'b result) \<Rightarrow> 'b result" where
  "bindE r f = (case r of Inl e \<Rightarrow> Inl e | Inr x \<Rightarrow> f x)"

lemma bindE_simps [simp]:
  "bindE (Inr x) f = f x"
  "bindE (Inl e) f = Inl e"
  by (simp_all add: bindE_def)

lemma bindE_cong [fundef_cong]:
  "r = r' \<Longrightarrow> (\<And>x. r' = Inr x \<Longrightarrow> f x = f' x) \<Longrightarrow> bindE r f = bindE r' f'"
  by (cases r') auto

lemma bindE_eq_Inr_iff: "bindE r f = Inr y \<longleftrightarrow> (\<exists>x. r = Inr x \<and> f x = Inr y)"
  by (cases r) auto

lemma bindE_eq_InrE:
  assumes "bindE r f = Inr y"
  obtains x where "r = Inr x" and "f x = Inr y"
  using assms by (cases r) auto

text \<open>\<open>ensure\<close> is the shape of \<^verbatim>\<open>assert(b)\<close> and of the bounds checks written out below.\<close>

definition ensure :: "bool \<Rightarrow> fault \<Rightarrow> unit result" where
  "ensure b e = (if b then Inr () else Inl e)"

lemma ensure_simps [simp]:
  "ensure True e = Inr ()"
  "ensure False e = Inl e"
  "ensure b e = Inr u \<longleftrightarrow> b"
  by (simp_all add: ensure_def)

section \<open>Memory blocks\<close>

text \<open>
  A block is the list of its cells. \<open>mem_read\<close> and \<open>mem_write\<close> are memcpy from and to a block at a
  constant offset: they fault when the range leaves the block, even by one cell.
\<close>

definition mem_read :: "'a list \<Rightarrow> nat \<Rightarrow> nat \<Rightarrow> 'a list result" where
  "mem_read b off n = (if off + n \<le> length b then Inr (take n (drop off b)) else Inl OutOfBounds)"

definition mem_write :: "'a list \<Rightarrow> nat \<Rightarrow> 'a list \<Rightarrow> 'a list result" where
  "mem_write b off xs =
     (if off + length xs \<le> length b
      then Inr (take off b @ xs @ drop (off + length xs) b)
      else Inl OutOfBounds)"

definition mem_get :: "'a list \<Rightarrow> nat \<Rightarrow> 'a result" where
  "mem_get b i = (if i < length b then Inr (b ! i) else Inl OutOfBounds)"

lemma mem_read_eq_Inr_iff:
  "mem_read b off n = Inr xs \<longleftrightarrow> off + n \<le> length b \<and> xs = take n (drop off b)"
  by (auto simp: mem_read_def)

lemma mem_read_length: "mem_read b off n = Inr xs \<Longrightarrow> length xs = n"
  by (auto simp: mem_read_eq_Inr_iff)

lemma mem_read_in [simp]: "off + n \<le> length b \<Longrightarrow> mem_read b off n = Inr (take n (drop off b))"
  by (simp add: mem_read_def)

lemma mem_write_in [simp]:
  "off + length xs \<le> length b \<Longrightarrow>
   mem_write b off xs = Inr (take off b @ xs @ drop (off + length xs) b)"
  by (simp add: mem_write_def)

lemma mem_write_eq_Inr_iff:
  "mem_write b off xs = Inr b' \<longleftrightarrow>
   off + length xs \<le> length b \<and> b' = take off b @ xs @ drop (off + length xs) b"
  by (auto simp: mem_write_def)

lemma mem_write_length: "mem_write b off xs = Inr b' \<Longrightarrow> length b' = length b"
  by (auto simp: mem_write_eq_Inr_iff)

lemma mem_write_out: "length b < off + length xs \<Longrightarrow> mem_write b off xs = Inl OutOfBounds"
  by (simp add: mem_write_def)

lemma mem_read_write_same:
  assumes "mem_write b off xs = Inr b'"
  shows "mem_read b' off (length xs) = Inr xs"
  using assms by (auto simp: mem_write_eq_Inr_iff mem_read_def)

lemma mem_write_nth:
  assumes "mem_write b off xs = Inr b'" and "i < length b"
  shows "b' ! i = (if off \<le> i \<and> i < off + length xs then xs ! (i - off) else b ! i)"
  using assms by (auto simp: mem_write_eq_Inr_iff nth_append min_def)

lemma mem_read_cong:
  assumes "length b' = length b"
    and "\<And>i. off \<le> i \<Longrightarrow> i < off + n \<Longrightarrow> i < length b \<Longrightarrow> b' ! i = b ! i"
  shows "mem_read b' off n = mem_read b off n"
proof -
  have "take n (drop off b') = take n (drop off b)" if "off + n \<le> length b"
    using that assms by (intro nth_equalityI) auto
  then show ?thesis using assms(1) by (auto simp: mem_read_def)
qed

lemma mem_read_write_disjoint:
  assumes "mem_write b off xs = Inr b'" and "off' + n \<le> off \<or> off + length xs \<le> off'"
  shows "mem_read b' off' n = mem_read b off' n"
proof (rule mem_read_cong)
  show "length b' = length b" using assms(1) by (rule mem_write_length)
next
  fix i assume "off' \<le> i" and "i < off' + n" and "i < length b"
  with assms(2) show "b' ! i = b ! i" by (auto simp: mem_write_nth [OF assms(1)])
qed

lemma mem_read_append:
  assumes "mem_read b off n = Inr xs" and "mem_read b (off + n) m = Inr ys"
  shows "mem_read b off (n + m) = Inr (xs @ ys)"
proof -
  have "take (n + m) (drop off b) = take n (drop off b) @ take m (drop (off + n) b)"
    by (simp only: take_add drop_drop add.commute [of n off])
  with assms show ?thesis by (auto simp: mem_read_eq_Inr_iff)
qed

text \<open>A block that holds the bytes \<open>xs\<close> from \<open>i\<close> on.\<close>

definition held :: "'a list \<Rightarrow> nat \<Rightarrow> 'a list \<Rightarrow> bool" where
  "held b i xs \<longleftrightarrow> i + length xs \<le> length b \<and> take (length xs) (drop i b) = xs"

lemma held_Nil [simp]: "held b i [] \<longleftrightarrow> i \<le> length b"
  by (simp add: held_def)

lemma held_append: "held b i (xs @ ys) \<longleftrightarrow> held b i xs \<and> held b (i + length xs) ys"
proof -
  have "take (length xs + length ys) (drop i b) =
      take (length xs) (drop i b) @ take (length ys) (drop (i + length xs) b)"
    by (simp only: take_add drop_drop add.commute [of i])
  moreover have "length (take (length xs) (drop i b)) = length xs" if "i + length xs \<le> length b"
    using that by simp
  ultimately show ?thesis
    by (auto simp: held_def append_eq_append_conv)
qed

lemma held_Cons: "held b i (x # xs) \<longleftrightarrow> i < length b \<and> b ! i = x \<and> held b (Suc i) xs"
proof -
  have "held b i [x] \<longleftrightarrow> i < length b \<and> b ! i = x"
    by (auto simp: held_def take_Suc_conv_app_nth hd_drop_conv_nth take_Suc)
  then show ?thesis using held_append [of b i "[x]" xs] by simp
qed

lemma held_read [simp]: "held b i xs \<Longrightarrow> mem_read b i (length xs) = Inr xs"
  by (simp add: held_def)

lemma held_read_n: "held b i xs \<Longrightarrow> n = length xs \<Longrightarrow> mem_read b i n = Inr xs"
  by simp

lemma held_get: "held b i (x # xs) \<Longrightarrow> mem_get b i = Inr x"
  by (simp add: held_Cons mem_get_def)

lemma held_write: "mem_write b i xs = Inr b' \<Longrightarrow> held b' i xs"
  using mem_read_write_same [of b i xs b'] by (simp add: held_def mem_read_eq_Inr_iff)

lemma held_prefix: "held b i xs \<Longrightarrow> held (b @ c) i xs"
  by (simp add: held_def)

text \<open>What printing \<open>xs\<close> at \<open>pos\<close> does to the output block; the cell behind them may hold a terminator.\<close>

definition wrote :: "'a list \<Rightarrow> nat \<Rightarrow> 'a list \<Rightarrow> 'a list \<Rightarrow> bool" where
  "wrote b pos xs b' \<longleftrightarrow>
     length b' = length b \<and> pos + length xs < length b \<and>
     take (pos + length xs) b' = take pos b @ xs \<and>
     drop (Suc (pos + length xs)) b' = drop (Suc (pos + length xs)) b"

lemma wrote_Nil: "pos < length b \<Longrightarrow> wrote b pos [] b"
  by (simp add: wrote_def)

lemma wrote_trans:
  assumes "wrote b pos xs b1" and "wrote b1 (pos + length xs) ys b2"
  shows "wrote b pos (xs @ ys) b2"
proof -
  have "drop (Suc (pos + length xs + length ys)) b1 = drop (Suc (pos + length xs + length ys)) b"
    using assms(1) unfolding wrote_def
    by (metis add.commute add_Suc_right drop_drop)
  then show ?thesis using assms by (simp add: wrote_def add.assoc)
qed

lemma wrote_emit:
  "pos + length xs < length b \<Longrightarrow> mem_write b pos (xs @ [x]) = Inr b' \<Longrightarrow> wrote b pos xs b'"
  by (auto simp: wrote_def mem_write_eq_Inr_iff)

lemma wrote_literal: "pos + 1 < length b \<Longrightarrow> mem_write b pos [x] = Inr b' \<Longrightarrow> wrote b pos [x] b'"
  by (auto simp: wrote_def mem_write_eq_Inr_iff)

lemma wrote_terminate:
  "wrote b pos xs b' \<Longrightarrow> mem_write b' (pos + length xs) [x] = mem_write b pos (xs @ [x])"
  by (simp add: wrote_def)

section \<open>Words as natural numbers\<close>

lemma unat_bound: "unat (w :: 'a::len word) < 2 ^ LENGTH('a)"
  by (rule unsigned_less)

lemma unat_u8_bound: "unat (w :: u8) < 256"
  using unat_bound [of w] by simp

lemma unat_u16_bound: "unat (w :: u16) < 65536"
  using unat_bound [of w] by simp

lemma unat_u32_bound: "unat (w :: u32) < 4294967296"
  using unat_bound [of w] by simp

lemma unat_u64_bound: "unat (w :: u64) < 18446744073709551616"
  using unat_bound [of w] by simp

lemma unat_add_nowrap: "unat (a :: 'a::len word) + unat b < 2 ^ LENGTH('a) \<Longrightarrow> unat (a + b) = unat a + unat b"
  by (simp add: unat_word_ariths)

lemma unat_add_u32: "unat ((a :: u32) + b) = (unat a + unat b) mod 4294967296"
  by (simp add: unat_word_ariths)

lemma unat_ucast_u32_u64 [simp]: "unat (ucast (w :: u32) :: u64) = unat w"
  by (simp add: unsigned_ucast_eq take_bit_eq_mod order.strict_trans [OF unat_u32_bound])

lemma unat_ucast_u64_u32: "unat (ucast (w :: u64) :: u32) = unat w mod 4294967296"
  by (simp add: unsigned_ucast_eq take_bit_eq_mod)

lemma unat_sub_u32: "unat ((a :: u32) - b) = (if b \<le> a then unat a - unat b else unat a + 4294967296 - unat b)"
  by (simp add: unat_sub_if_size word_size word_le_nat_alt)

lemma sint_u32: "sint (w :: u32) = (if unat w < 2147483648 then int (unat w) else int (unat w) - 4294967296)"
proof -
  have "uint w < 2 ^ 32" by (rule order.strict_trans2 [OF unsigned_less]) simp
  then have "take_bit 32 (uint w) = uint w" by (simp add: take_bit_int_eq_self_iff)
  then have "sint w = int (unat w) - 2 ^ 32 * of_bool (bit w 31)"
    by (simp add: sint_uint signed_take_bit_eq_take_bit_minus bit_unsigned_iff)
  moreover have "bit w 31 \<longleftrightarrow> bit (unat w) 31" by (simp add: bit_unsigned_iff)
  moreover have "bit (unat w) 31 \<longleftrightarrow> \<not> unat w < 2147483648"
  proof -
    have "unat w div 2147483648 = (if unat w < 2147483648 then 0 else 1)"
      using unat_u32_bound [of w] by (simp add: div_nat_eqI)
    then show ?thesis by (simp add: bit_iff_odd)
  qed
  ultimately show ?thesis by simp
qed

section \<open>Little-endian images of integers\<close>

fun le_bytes :: "nat \<Rightarrow> nat \<Rightarrow> u8 list" where
  "le_bytes 0 v = []"
| "le_bytes (Suc n) v = word_of_nat v # le_bytes n (v div 256)"

fun le_val :: "u8 list \<Rightarrow> nat" where
  "le_val [] = 0"
| "le_val (b # bs) = unat b + 256 * le_val bs"

lemma length_le_bytes [simp]: "length (le_bytes n v) = n"
  by (induction n arbitrary: v) auto

lemma le_bytes_numeral: "le_bytes (numeral k) v = word_of_nat v # le_bytes (pred_numeral k) (v div 256)"
  by (simp only: numeral_eq_Suc le_bytes.simps(2))

lemma unat_u8_of_nat: "unat (word_of_nat v :: u8) = v mod 256"
  by (simp add: unat_of_nat)

lemma le_val_le_bytes: "le_val (le_bytes n v) = v mod 256 ^ n"
proof (induction n arbitrary: v)
  case 0
  then show ?case by simp
next
  case (Suc n)
  have "v mod 256 + 256 * (v div 256 mod 256 ^ n) = v mod 256 ^ Suc n"
    by (simp add: mod_mult2_eq)
  then show ?case using Suc by (simp add: unat_u8_of_nat)
qed

lemma le_val_bound: "le_val bs < 256 ^ length bs"
proof (induction bs)
  case Nil
  then show ?case by simp
next
  case (Cons b bs)
  have "unat b < 256" using unat_bound [of b] by simp
  with Cons show ?case by simp
qed

lemma le_bytes_le_val: "le_bytes (length bs) (le_val bs) = bs"
proof (induction bs)
  case Nil
  then show ?case by simp
next
  case (Cons b bs)
  have "unat b < 256" using unat_bound [of b] by simp
  then have "(unat b + 256 * le_val bs) div 256 = le_val bs"
    by simp
  moreover have "word_of_nat (unat b + 256 * le_val bs) = b"
    unfolding word_unat_eq_iff unat_u8_of_nat
    using \<open>unat b < 256\<close> by simp
  ultimately show ?case using Cons by simp
qed

text \<open>The four integer types that are copied to and from memory.\<close>

definition u8_bytes :: "u8 \<Rightarrow> u8 list" where
  "u8_bytes w = [w]"

definition u16_bytes :: "u16 \<Rightarrow> u8 list" where
  "u16_bytes w = le_bytes 2 (unat w)"

definition u32_bytes :: "u32 \<Rightarrow> u8 list" where
  "u32_bytes w = le_bytes 4 (unat w)"

definition u64_bytes :: "u64 \<Rightarrow> u8 list" where
  "u64_bytes w = le_bytes 8 (unat w)"

definition u8_of :: "u8 list \<Rightarrow> u8" where
  "u8_of bs = word_of_nat (le_val bs)"

definition u16_of :: "u8 list \<Rightarrow> u16" where
  "u16_of bs = word_of_nat (le_val bs)"

definition u32_of :: "u8 list \<Rightarrow> u32" where
  "u32_of bs = word_of_nat (le_val bs)"

definition u64_of :: "u8 list \<Rightarrow> u64" where
  "u64_of bs = word_of_nat (le_val bs)"

section \<open>The interface of fixed-width encodings\<close>

text \<open>
  A value with a byte image of constant width. The records, the argument buffer and the ring
  buffer's typed getters rely on nothing else about the integers they store.
\<close>

locale codec =
  fixes enc :: "'a \<Rightarrow> u8 list" and dec :: "u8 list \<Rightarrow> 'a" and width :: nat
  assumes enc_length: "length (enc x) = width"
    and dec_enc: "dec (enc x) = x"
begin

lemma enc_inj: "enc x = enc y \<Longrightarrow> x = y"
  by (metis dec_enc)

lemma write_in: "off + width \<le> length b \<Longrightarrow> \<exists>b'. mem_write b off (enc x) = Inr b'"
  by (simp add: enc_length)

lemma read_back:
  "mem_write b off (enc x) = Inr b' \<Longrightarrow> bindE (mem_read b' off width) (\<lambda>bs. Inr (dec bs)) = Inr x"
  using mem_read_write_same [of b off "enc x" b'] by (simp add: enc_length dec_enc)

lemma read_image:
  "take width (drop off b) = enc x \<Longrightarrow> off + width \<le> length b \<Longrightarrow>
   bindE (mem_read b off width) (\<lambda>bs. Inr (dec bs)) = Inr x"
  by (simp add: dec_enc)

end

text \<open>An encoding that uses every byte string of its width also re-encodes what it decodes.\<close>

locale full_codec = codec +
  assumes enc_dec: "length bs = width \<Longrightarrow> enc (dec bs) = bs"
begin

lemma dec_inj: "length bs = width \<Longrightarrow> length cs = width \<Longrightarrow> dec bs = dec cs \<Longrightarrow> bs = cs"
  by (metis enc_dec)

end

lemma word_of_le_val_le_bytes:
  "LENGTH('a::len) = 8 * n \<Longrightarrow> word_of_nat (le_val (le_bytes n (unat (w :: 'a word)))) = w"
proof -
  assume "LENGTH('a) = 8 * n"
  then have "(256::nat) ^ n = 2 ^ LENGTH('a)"
    by (simp add: power_mult)
  then have "unat w mod 256 ^ n = unat w"
    using unat_bound [of w] by simp
  then show ?thesis by (simp add: le_val_le_bytes)
qed

lemma le_bytes_word_of_le_val:
  assumes "LENGTH('a::len) = 8 * length bs"
  shows "le_bytes (length bs) (unat (word_of_nat (le_val bs) :: 'a word)) = bs"
proof -
  have "(256::nat) ^ length bs = 2 ^ LENGTH('a)"
    using assms by (simp add: power_mult)
  then have "unat (word_of_nat (le_val bs) :: 'a word) = le_val bs"
    using le_val_bound [of bs] by (simp add: unat_of_nat)
  then show ?thesis by (simp add: le_bytes_le_val)
qed

interpretation u8c: full_codec u8_bytes u8_of 1
  by unfold_locales (auto simp: u8_bytes_def u8_of_def length_Suc_conv)

interpretation u16c: full_codec u16_bytes u16_of 2
proof unfold_locales
  fix bs :: "u8 list" assume "length bs = 2"
  then show "u16_bytes (u16_of bs) = bs"
    using le_bytes_word_of_le_val [where 'a = 16, of bs] by (simp add: u16_bytes_def u16_of_def)
qed (simp_all add: u16_bytes_def u16_of_def word_of_le_val_le_bytes)

interpretation u32c: full_codec u32_bytes u32_of 4
proof unfold_locales
  fix bs :: "u8 list" assume "length bs = 4"
  then show "u32_bytes (u32_of bs) = bs"
    using le_bytes_word_of_le_val [where 'a = 32, of bs] by (simp add: u32_bytes_def u32_of_def)
qed (simp_all add: u32_bytes_def u32_of_def word_of_le_val_le_bytes)

interpretation u64c: full_codec u64_bytes u64_of 8
proof unfold_locales
  fix bs :: "u8 list" assume "length bs = 8"
  then show "u64_bytes (u64_of bs) = bs"
    using le_bytes_word_of_le_val [where 'a = 64, of bs] by (simp add: u64_bytes_def u64_of_def)
qed (simp_all add: u64_bytes_def u64_of_def word_of_le_val_le_bytes)

lemmas enc_lengths [simp] = u8c.enc_length u16c.enc_length u32c.enc_length u64c.enc_length
lemmas dec_encs [simp] = u8c.dec_enc u16c.dec_enc u32c.dec_enc u64c.dec_enc

section \<open>Arithmetic shared by the components\<close>

lemma mod_add_cycle: "(a mod n + k) mod n = (a + k) mod (n::nat)"
  by (simp add: mod_add_left_eq)

text \<open>
  gcc's \<^verbatim>\<open>__sync_bool_compare_and_swap\<close> on one cell: the new contents and whether it stored.
\<close>

definition cas :: "'a \<Rightarrow> 'a \<Rightarrow> 'a \<Rightarrow> 'a \<times> bool" where
  "cas m old new = (if m = old then (new, True) else (m, False))"

lemma cas_same [simp]: "cas m m new = (new, True)"
  by (simp add: cas_def)

section \<open>Threads as a list of program counters\<close>

text \<open>
  The interleaving models keep one program counter per thread in a list. Their invariants add a
  quantity up over the threads; one thread moving changes one summand.
\<close>

lemma sum_list_map_update:
  fixes f :: "'b \<Rightarrow> 'a::comm_monoid_add"
  assumes "i < length xs"
  shows "sum_list (map f (xs[i := y])) + f (xs ! i) = sum_list (map f xs) + f y"
  using assms
proof (induction xs arbitrary: i)
  case Nil
  then show ?case by simp
next
  case (Cons x xs)
  show ?case
  proof (cases i)
    case 0
    then show ?thesis by (simp add: ac_simps)
  next
    case (Suc j)
    then have "sum_list (map f (xs[j := y])) + f (xs ! j) = sum_list (map f xs) + f y"
      using Cons by simp
    then show ?thesis using Suc by (simp add: add.assoc)
  qed
qed

lemma exchange_summands:
  fixes v :: "'a::ab_group_add"
  assumes "v' + c = v + n" and "s' + n = s + c"
  shows "v' + s' = v + s"
proof -
  have "v' = v + n - c" and "s' = s + c - n" using assms by (simp_all add: eq_diff_eq)
  then show ?thesis by simp
qed

lemma sum_list_map_zero: "(\<And>x. x \<in> set xs \<Longrightarrow> f x = 0) \<Longrightarrow> sum_list (map f xs) = (0::'a::comm_monoid_add)"
  by (induction xs) auto

end
