(* ===== verification/Atomic_Model.thy ===== *)
theory Atomic_Model
  imports Prelude
begin

unbundle bit_operations_syntax

text \<open>
  The counters of \<^verbatim>\<open>atomic.h\<close> and \<^verbatim>\<open>atomic.cpp\<close>: \<open>Atomic64\<close>, a 64-bit value that the code updates
  as two 32-bit cells, and \<open>Atomic32\<close>, a compare-and-swap loop. Each operation is given as the
  function one thread computes on its own, and as a step relation over any number of threads in which
  every \<^verbatim>\<open>__sync\<close> builtin and every plain load is one step.
\<close>

section \<open>Atomic64, one thread\<close>

text \<open>The two halves of \<^verbatim>\<open>value_\<close> that \<^verbatim>\<open>addAndGet\<close> addresses through \<^verbatim>\<open>valuePtr\<close>, low half first.\<close>

record atomic64 =
  a64_low :: u32
  a64_high :: u32

definition Atomic64_new :: "u64 \<Rightarrow> atomic64" where
  "Atomic64_new initial = \<lparr>a64_low = ucast initial, a64_high = ucast (drop_bit 32 initial)\<rparr>"

definition a64_value :: "atomic64 \<Rightarrow> u64" where
  "a64_value a = push_bit 32 (ucast (a64_high a)) OR ucast (a64_low a)"

definition a64_carries :: "u32 \<Rightarrow> u32 \<Rightarrow> bool" where
  "a64_carries currentLow n \<longleftrightarrow> 4294967295 - currentLow < n"

definition a64_result :: "u32 \<Rightarrow> u32 \<Rightarrow> u32 \<Rightarrow> u64" where
  "a64_result current_high currentLow n =
     push_bit 32 (ucast current_high) OR ucast ((currentLow + n) AND 4294967295)"

definition atomic64Add :: "atomic64 \<Rightarrow> u32 \<Rightarrow> atomic64 \<times> u64" where
  "atomic64Add a n =
     (let currentLow = a64_low a;
          a1 = a\<lparr>a64_low := currentLow + n\<rparr>;
          (a2, current_high) =
            (if a64_carries currentLow n
             then (let h = a64_high a1 + 1 in (a1\<lparr>a64_high := h\<rparr>, h))
             else (a1, 0))
      in (a2, a64_result current_high currentLow n))"

definition Atomic64_addAndGet :: "atomic64 \<Rightarrow> u64 \<Rightarrow> atomic64 \<times> u64" where
  "Atomic64_addAndGet a add = atomic64Add a (ucast add)"

lemma unat_join_halves:
  "unat (push_bit 32 (ucast (h :: u32) :: u64) OR ucast (l :: u32)) = unat h * 2 ^ 32 + unat l"
proof -
  have h: "unat (push_bit 32 (ucast h :: u64)) = unat h * 2 ^ 32"
    unfolding unsigned_push_bit_eq using unat_u32_bound [of h]
    by (simp add: push_bit_eq_mult take_bit_eq_mod)
  have "push_bit 32 (ucast h :: u64) AND ucast l = 0"
    by (rule bit_word_eqI) (auto simp: bit_simps dest: bit_imp_le_length)
  then have "push_bit 32 (ucast h :: u64) OR ucast l = push_bit 32 (ucast h) + ucast l"
    by (rule disjunctive_add_eq_or [symmetric])
  moreover have "unat h * 2 ^ 32 + unat l < 2 ^ 64"
    using unat_u32_bound [of h] unat_u32_bound [of l] by simp
  ultimately show ?thesis using h by (simp add: unat_add_nowrap)
qed

lemma unat_a64_value: "unat (a64_value a) = unat (a64_high a) * 2 ^ 32 + unat (a64_low a)"
  by (simp add: a64_value_def unat_join_halves)

lemma a64_value_of_nat: "a64_value a = of_nat (unat (a64_high a)) * 2 ^ 32 + of_nat (unat (a64_low a))"
proof -
  have "a64_value a = of_nat (unat (a64_value a))" by simp
  then show ?thesis unfolding unat_a64_value by simp
qed

lemma a64_carries_iff: "a64_carries l n \<longleftrightarrow> 2 ^ 32 \<le> unat l + unat n"
proof -
  have "l \<le> 4294967295" using unat_u32_bound [of l] by (simp add: word_le_nat_alt)
  then have "unat (4294967295 - l) = 4294967295 - unat l" by (simp add: unat_sub)
  then show ?thesis
    using unat_u32_bound [of l] by (simp add: a64_carries_def word_less_nat_alt) arith
qed

lemma and_u32_max [simp]: "(w :: u32) AND 4294967295 = w"
proof -
  have "(4294967295 :: u32) = - 1" by simp
  then show ?thesis by (simp only: and.right_neutral)
qed

lemma Atomic64_new_value: "a64_value (Atomic64_new initial) = initial"
proof -
  have "unat (drop_bit 32 initial) = unat initial div 2 ^ 32"
    unfolding unsigned_drop_bit_eq using unat_u64_bound [of initial]
    by (simp add: drop_bit_eq_div take_bit_eq_mod)
  moreover have "unat initial div 2 ^ 32 < 2 ^ 32"
    using unat_u64_bound [of initial] by (simp add: less_mult_imp_div_less)
  ultimately have "unat (a64_value (Atomic64_new initial)) = unat initial div 2 ^ 32 * 2 ^ 32 + unat initial mod 2 ^ 32"
    by (simp add: unat_a64_value Atomic64_new_def unat_ucast_u64_u32 del: drop_bit_numeral_minus_bit1)
  then show ?thesis by (simp add: word_unat_eq_iff)
qed

text \<open>
  The two halves before the carry: adding to the low half alone is the whole addition less the
  carry, which is \<open>2 ^ 32\<close> exactly when the code's test says so.
\<close>

lemma low_half_add:
  "of_nat (unat (l + n)) + (if a64_carries l n then 2 ^ 32 else 0) = (of_nat (unat l) + of_nat (unat n) :: u64)"
proof (cases "a64_carries l n")
  case True
  then have "unat (l + n) + 2 ^ 32 = unat l + unat n"
    using unat_u32_bound [of l] unat_u32_bound [of n]
    by (simp add: a64_carries_iff unat_add_u32 le_mod_geq)
  then have "(of_nat (unat (l + n) + 2 ^ 32) :: u64) = of_nat (unat l + unat n)" by simp
  then show ?thesis using True by simp
next
  case False
  then have "unat (l + n) = unat l + unat n"
    by (simp add: a64_carries_iff unat_add_u32)
  then show ?thesis using False by simp
qed

lemma high_half_carry: "of_nat (unat (h + 1 :: u32)) * 2 ^ 32 = (of_nat (unat h) * 2 ^ 32 + 2 ^ 32 :: u64)"
proof (cases "unat h + 1 < 2 ^ 32")
  case True
  then have "unat (h + 1) = unat h + 1" by (simp add: unat_add_u32)
  then show ?thesis by (simp add: distrib_right)
next
  case False
  then have "unat h = 4294967295" using unat_u32_bound [of h] by simp
  then show ?thesis by (simp add: unat_add_u32)
qed

lemma atomic64Add_value: "a64_value (fst (atomic64Add a n)) = a64_value a + of_nat (unat n)"
proof -
  let ?w = "\<lambda>x :: u32. of_nat (unat x) :: u64"
  let ?l = "a64_low a" and ?h = "a64_high a" and ?c = "a64_carries (a64_low a) n"
  have "a64_value (fst (atomic64Add a n)) = ?w (if ?c then ?h + 1 else ?h) * 2 ^ 32 + ?w (?l + n)"
    by (simp add: atomic64Add_def Let_def a64_value_of_nat)
  also have "?w (if ?c then ?h + 1 else ?h) * 2 ^ 32 = ?w ?h * 2 ^ 32 + (if ?c then 2 ^ 32 else 0)"
    by (simp only: high_half_carry add_0_right split: if_split) blast
  also have "\<dots> + ?w (?l + n) = ?w ?h * 2 ^ 32 + (?w (?l + n) + (if ?c then 2 ^ 32 else 0))"
    by (rule trans [OF add.assoc]) (simp only: add.commute [of "if ?c then 2 ^ 32 else 0"])
  also have "?w (?l + n) + (if ?c then 2 ^ 32 else 0) = ?w ?l + ?w n"
    by (rule low_half_add)
  finally show ?thesis by (simp only: a64_value_of_nat add.assoc)
qed

lemma atomic64Add_carry_result:
  "a64_carries (a64_low a) n \<Longrightarrow> snd (atomic64Add a n) = a64_value (fst (atomic64Add a n))"
  by (simp add: atomic64Add_def Let_def a64_result_def a64_value_def)

lemma atomic64Add_nocarry_result:
  "\<not> a64_carries (a64_low a) n \<Longrightarrow>
   unat (snd (atomic64Add a n)) = unat (a64_low a + n) \<and>
   unat (a64_value (fst (atomic64Add a n))) = unat (a64_high a) * 2 ^ 32 + unat (a64_low a + n)"
  using unat_join_halves [of 0 "a64_low a + n"]
  by (simp add: atomic64Add_def Let_def a64_result_def unat_a64_value)

section \<open>Atomic64, any number of threads\<close>

text \<open>
  A thread inside \<^verbatim>\<open>atomic64Add\<close> is about to add to the low half, or has seen the carry and is about to
  increment the high half, or has returned.
\<close>

datatype a64_pc =
    A64Low u32           \<comment> \<open>before the fetch-and-add of \<open>n\<close> to the low half\<close>
  | A64High u32 u32      \<comment> \<open>before the increment of the high half, with \<open>currentLow\<close> and \<open>n\<close>\<close>
  | A64Ret u64

record a64_sys =
  a64_cell :: atomic64
  a64_pcs :: "a64_pc list"

inductive a64_step :: "a64_sys \<Rightarrow> a64_sys \<Rightarrow> bool" where
  add_low: "\<lbrakk> i < length (a64_pcs s); a64_pcs s ! i = A64Low n; l = a64_low (a64_cell s) \<rbrakk> \<Longrightarrow>
    a64_step s (s\<lparr>a64_cell := (a64_cell s)\<lparr>a64_low := l + n\<rparr>,
                  a64_pcs := (a64_pcs s)[i := if a64_carries l n then A64High l n
                                              else A64Ret (a64_result 0 l n)]\<rparr>)"
| add_high: "\<lbrakk> i < length (a64_pcs s); a64_pcs s ! i = A64High l n; h = a64_high (a64_cell s) + 1 \<rbrakk> \<Longrightarrow>
    a64_step s (s\<lparr>a64_cell := (a64_cell s)\<lparr>a64_high := h\<rparr>,
                  a64_pcs := (a64_pcs s)[i := A64Ret (a64_result h l n)]\<rparr>)"

text \<open>What a thread still has to add to the 64-bit value, and how many steps it still takes at most.\<close>

fun a64_pending :: "a64_pc \<Rightarrow> u64" where
  "a64_pending (A64Low n) = of_nat (unat n)"
| "a64_pending (A64High l n) = 2 ^ 32"
| "a64_pending (A64Ret r) = 0"

fun a64_left :: "a64_pc \<Rightarrow> nat" where
  "a64_left (A64Low n) = 2"
| "a64_left (A64High l n) = 1"
| "a64_left (A64Ret r) = 0"

definition a64_total :: "a64_sys \<Rightarrow> u64" where
  "a64_total s = a64_value (a64_cell s) + sum_list (map a64_pending (a64_pcs s))"

definition a64_init :: "u64 \<Rightarrow> u32 list \<Rightarrow> a64_sys" where
  "a64_init v ns = \<lparr>a64_cell = Atomic64_new v, a64_pcs = map A64Low ns\<rparr>"

lemma a64_value_low_upd:
  "a64_value (c\<lparr>a64_low := l\<rparr>) = of_nat (unat (a64_high c)) * 2 ^ 32 + of_nat (unat l)"
  by (simp add: a64_value_of_nat)

lemma a64_value_high_upd:
  "a64_value (c\<lparr>a64_high := h\<rparr>) = of_nat (unat h) * 2 ^ 32 + of_nat (unat (a64_low c))"
  by (simp add: a64_value_of_nat)

lemma a64_value_low_step:
  "a64_value (c\<lparr>a64_low := a64_low c + n\<rparr>) + (if a64_carries (a64_low c) n then 2 ^ 32 else 0)
     = a64_value c + of_nat (unat n)"
  unfolding a64_value_low_upd add.assoc low_half_add a64_value_of_nat [of c] by (rule refl)

lemma a64_value_high_step: "a64_value (c\<lparr>a64_high := a64_high c + 1\<rparr>) = a64_value c + 2 ^ 32"
  unfolding a64_value_high_upd high_half_carry a64_value_of_nat [of c]
  by (simp only: add.assoc add.commute [of "2 ^ 32"])

lemma a64_step_total: "a64_step s t \<Longrightarrow> a64_total t = a64_total s"
proof (induction rule: a64_step.induct)
  case (add_low i s n l)
  let ?p = "if a64_carries l n then A64High l n else A64Ret (a64_result 0 l n)"
  have "sum_list (map a64_pending ((a64_pcs s)[i := ?p])) + of_nat (unat n)
      = sum_list (map a64_pending (a64_pcs s)) + a64_pending ?p"
    using sum_list_map_update [OF add_low(1), of a64_pending ?p] add_low(2) by simp
  moreover have "a64_pending ?p = (if a64_carries l n then 2 ^ 32 else 0)" by simp
  ultimately have "a64_value ((a64_cell s)\<lparr>a64_low := l + n\<rparr>) + sum_list (map a64_pending ((a64_pcs s)[i := ?p]))
      = a64_value (a64_cell s) + sum_list (map a64_pending (a64_pcs s))"
    unfolding add_low(3) by (intro exchange_summands [OF a64_value_low_step]) simp
  then show ?case by (simp add: a64_total_def)
next
  case (add_high i s l n h)
  have "sum_list (map a64_pending ((a64_pcs s)[i := A64Ret (a64_result h l n)])) + 2 ^ 32
      = sum_list (map a64_pending (a64_pcs s))"
    using sum_list_map_update [OF add_high(1), of a64_pending "A64Ret (a64_result h l n)"] add_high(2) by simp
  then show ?case
    using a64_value_high_step [of "a64_cell s"] add_high(3) by (simp add: a64_total_def ac_simps)
qed

lemma a64_steps_total: "a64_step\<^sup>*\<^sup>* s t \<Longrightarrow> a64_total t = a64_total s"
  by (induction rule: rtranclp_induct) (simp_all add: a64_step_total)

text \<open>Every call returns: a step takes a thread closer to its return, and a thread that has not returned can step.\<close>

lemma a64_step_left:
  "a64_step s t \<Longrightarrow> sum_list (map a64_left (a64_pcs t)) < sum_list (map a64_left (a64_pcs s))"
proof (induction rule: a64_step.induct)
  case (add_low i s n l)
  then show ?case
    using sum_list_map_update [OF add_low(1), of a64_left "if a64_carries l n then A64High l n
      else A64Ret (a64_result 0 l n)"] by (auto split: if_splits)
next
  case (add_high i s l n h)
  then show ?case
    using sum_list_map_update [OF add_high(1), of a64_left "A64Ret (a64_result h l n)"] by simp
qed

lemma a64_steps_left:
  "(a64_step ^^ k) s t \<Longrightarrow> k + sum_list (map a64_left (a64_pcs t)) \<le> sum_list (map a64_left (a64_pcs s))"
proof (induction k arbitrary: t)
  case 0
  then show ?case by simp
next
  case (Suc k)
  then obtain u where "(a64_step ^^ k) s u" and "a64_step u t" by auto
  with Suc.IH [of u] a64_step_left [of u t] show ?case by simp
qed

lemma a64_progress:
  assumes "p \<in> set (a64_pcs s)" and "\<forall>r. p \<noteq> A64Ret r"
  shows "\<exists>t. a64_step s t"
proof -
  from assms(1) obtain i where i: "i < length (a64_pcs s)" "a64_pcs s ! i = p"
    by (auto simp: in_set_conv_nth)
  show ?thesis
  proof (cases p)
    case (A64Low n)
    then show ?thesis using i a64_step.add_low [of i s n] by blast
  next
    case (A64High l n)
    then show ?thesis using i a64_step.add_high [of i s l n] by blast
  qed (use assms(2) in auto)
qed

section \<open>Atomic32\<close>

text \<open>\<open>value_\<close> is the whole state. The loop repeats until the compare-and-swap stores.\<close>

definition Atomic32_new :: "u32 \<Rightarrow> u32" where
  "Atomic32_new initial = initial"

function Atomic32_addAndGet :: "u32 \<Rightarrow> u32 \<Rightarrow> u32 \<times> u32" where
  "Atomic32_addAndGet value add =
     (let currentValue = value;
          newValue = currentValue + add;
          (value', casSuccess) = cas value currentValue newValue
      in if casSuccess then (value', newValue) else Atomic32_addAndGet value' add)"
  by pat_completeness auto
termination
  by (relation "measure (\<lambda>_. 0)") (auto simp: cas_def)

declare Atomic32_addAndGet.simps [simp del]

lemma Atomic32_addAndGet_eq: "Atomic32_addAndGet value add = (value + add, value + add)"
  by (subst Atomic32_addAndGet.simps) (simp add: Let_def)

text \<open>
  Many threads in the loop: each load and each compare-and-swap is a step. The label says which
  thread did what; \<open>A32Store i v\<close> is a successful swap, after which thread \<open>i\<close> returns \<open>v\<close>.
\<close>

datatype a32_pc =
    A32Load u32          \<comment> \<open>before \<^verbatim>\<open>currentValue = value_\<close>, with \<open>add\<close>\<close>
  | A32Cas u32 u32       \<comment> \<open>before the compare-and-swap, with \<open>add\<close> and \<open>currentValue\<close>\<close>
  | A32Ret u32

datatype a32_event = A32Read nat | A32Fail nat | A32Store nat u32

record a32_sys =
  a32_value :: u32
  a32_pcs :: "a32_pc list"

inductive a32_step :: "a32_sys \<Rightarrow> a32_event \<Rightarrow> a32_sys \<Rightarrow> bool" where
  load: "\<lbrakk> i < length (a32_pcs s); a32_pcs s ! i = A32Load add \<rbrakk> \<Longrightarrow>
    a32_step s (A32Read i) (s\<lparr>a32_pcs := (a32_pcs s)[i := A32Cas add (a32_value s)]\<rparr>)"
| swap: "\<lbrakk> i < length (a32_pcs s); a32_pcs s ! i = A32Cas add cur;
    cas (a32_value s) cur (cur + add) = (v, True) \<rbrakk> \<Longrightarrow>
    a32_step s (A32Store i (cur + add)) (s\<lparr>a32_value := v, a32_pcs := (a32_pcs s)[i := A32Ret (cur + add)]\<rparr>)"
| retry: "\<lbrakk> i < length (a32_pcs s); a32_pcs s ! i = A32Cas add cur;
    cas (a32_value s) cur (cur + add) = (v, False) \<rbrakk> \<Longrightarrow>
    a32_step s (A32Fail i) (s\<lparr>a32_value := v, a32_pcs := (a32_pcs s)[i := A32Load add]\<rparr>)"

inductive a32_run :: "a32_sys \<Rightarrow> a32_event list \<Rightarrow> a32_sys \<Rightarrow> bool" where
  none: "a32_run s [] s"
| snoc: "a32_run s es t \<Longrightarrow> a32_step t e u \<Longrightarrow> a32_run s (es @ [e]) u"

definition a32_init :: "u32 \<Rightarrow> u32 list \<Rightarrow> a32_sys" where
  "a32_init v adds = \<lparr>a32_value = v, a32_pcs = map A32Load adds\<rparr>"

text \<open>The successful swaps of a trace, in order, and the failed ones.\<close>

fun a32_stores :: "a32_event list \<Rightarrow> (nat \<times> u32) list" where
  "a32_stores [] = []"
| "a32_stores (A32Store i v # es) = (i, v) # a32_stores es"
| "a32_stores (_ # es) = a32_stores es"

fun a32_fails :: "a32_event list \<Rightarrow> nat" where
  "a32_fails [] = 0"
| "a32_fails (A32Fail i # es) = Suc (a32_fails es)"
| "a32_fails (_ # es) = a32_fails es"

text \<open>One thread after the other: the specification the concurrent runs are compared with.\<close>

fun a32_serial :: "u32 \<Rightarrow> (nat \<times> u32) list \<Rightarrow> u32 \<times> (nat \<times> u32) list" where
  "a32_serial v [] = (v, [])"
| "a32_serial v ((i, add) # calls) =
     (let (v', r) = Atomic32_addAndGet v add; (v'', rs) = a32_serial v' calls in (v'', (i, r) # rs))"

lemma a32_stores_append [simp]: "a32_stores (es @ fs) = a32_stores es @ a32_stores fs"
  by (induction es rule: a32_stores.induct) auto

lemma a32_fails_append [simp]: "a32_fails (es @ fs) = a32_fails es + a32_fails fs"
  by (induction es rule: a32_fails.induct) auto

lemma a32_serial_append:
  "a32_serial v calls = (v', rs) \<Longrightarrow>
   a32_serial v (calls @ [(i, add)]) = (v' + add, rs @ [(i, v' + add)])"
  by (induction v calls arbitrary: rs rule: a32_serial.induct)
    (auto simp: Atomic32_addAndGet_eq split: prod.splits)

text \<open>Each thread keeps its own \<open>add\<close> until it returns, and returns what it stored.\<close>

fun a32_pc_ok :: "u32 \<Rightarrow> (nat \<times> u32) list \<Rightarrow> nat \<Rightarrow> a32_pc \<Rightarrow> bool" where
  "a32_pc_ok add stores i (A32Load a) \<longleftrightarrow> a = add \<and> i \<notin> fst ` set stores"
| "a32_pc_ok add stores i (A32Cas a cur) \<longleftrightarrow> a = add \<and> i \<notin> fst ` set stores"
| "a32_pc_ok add stores i (A32Ret r) \<longleftrightarrow> (i, r) \<in> set stores"

definition a32_inv :: "u32 \<Rightarrow> u32 list \<Rightarrow> a32_event list \<Rightarrow> a32_sys \<Rightarrow> bool" where
  "a32_inv v adds es s \<longleftrightarrow>
     length (a32_pcs s) = length adds \<and>
     (\<forall>i < length adds. a32_pc_ok (adds ! i) (a32_stores es) i (a32_pcs s ! i)) \<and>
     distinct (map fst (a32_stores es)) \<and>
     a32_serial v (map (\<lambda>(i, _). (i, adds ! i)) (a32_stores es)) = (a32_value s, a32_stores es)"

lemma a32_inv_init: "a32_inv v adds [] (a32_init v adds)"
  by (simp add: a32_inv_def a32_init_def)

lemma a32_inv_pc:
  "a32_inv v adds es s \<Longrightarrow> i < length (a32_pcs s) \<Longrightarrow> a32_pcs s ! i = p \<Longrightarrow>
   a32_pc_ok (adds ! i) (a32_stores es) i p"
  by (auto simp: a32_inv_def)

lemma a32_pc_ok_snoc:
  "a32_pc_ok add stores j p \<Longrightarrow> j \<noteq> i \<Longrightarrow> a32_pc_ok add (stores @ [(i, v)]) j p"
  by (cases p) simp_all

lemma a32_inv_step:
  assumes "a32_step s e t" and "a32_inv v adds es s"
  shows "a32_inv v adds (es @ [e]) t"
  using assms
proof (induction rule: a32_step.induct)
  case (load i s add)
  then have "a32_pc_ok (adds ! i) (a32_stores es) i (A32Load add)" by (blast intro: a32_inv_pc)
  with load show ?case by (auto simp: a32_inv_def nth_list_update)
next
  case (swap i s add cur w)
  then have ok: "a32_pc_ok (adds ! i) (a32_stores es) i (A32Cas add cur)"
    by (blast intro: a32_inv_pc)
  from swap have w: "cur = a32_value s" "w = cur + add" by (auto simp: cas_def split: if_splits)
  have keep: "a32_pc_ok (adds ! j) (a32_stores es @ [(i, cur + add)]) j (a32_pcs s ! j)"
    if "j < length adds" and "j \<noteq> i" for j
    using swap.prems that by (simp add: a32_inv_def a32_pc_ok_snoc)
  have "a32_serial v (map (\<lambda>(i, _). (i, adds ! i)) (a32_stores es @ [(i, cur + add)]))
      = (w, a32_stores es @ [(i, cur + add)])"
    using swap.prems a32_serial_append [of v _ "a32_value s" "a32_stores es" i add] ok w
    by (simp add: a32_inv_def)
  moreover have "distinct (map fst (a32_stores es @ [(i, cur + add)]))"
    using swap.prems ok by (auto simp: a32_inv_def)
  ultimately show ?case
    using swap keep by (auto simp: a32_inv_def nth_list_update)
next
  case (retry i s add cur w)
  then have "a32_pc_ok (adds ! i) (a32_stores es) i (A32Cas add cur)" by (blast intro: a32_inv_pc)
  moreover from retry have "w = a32_value s" by (auto simp: cas_def split: if_splits)
  ultimately show ?case using retry by (auto simp: a32_inv_def nth_list_update)
qed

lemma a32_inv_run: "a32_run s es t \<Longrightarrow> s = a32_init v adds \<Longrightarrow> a32_inv v adds es t"
  by (induction rule: a32_run.induct) (auto simp: a32_inv_init intro: a32_inv_step)

text \<open>
  A compare-and-swap fails only when the value has moved since the thread loaded it. \<open>a32_stale\<close>
  marks the threads whose next swap is bound to fail; a load never makes one, a failure removes
  one, a store makes all the other threads stale at worst.
\<close>

fun a32_stale :: "u32 \<Rightarrow> a32_pc \<Rightarrow> nat" where
  "a32_stale v (A32Cas a cur) = (if cur = v then 0 else 1)"
| "a32_stale v _ = 0"

lemma a32_stale_le_1: "a32_stale v p \<le> 1"
  by (cases p) auto

lemma a32_stale_sum: "sum_list (map (a32_stale v) ps) \<le> length ps"
  by (induction ps) (auto intro: add_mono [OF a32_stale_le_1, simplified])

lemma a32_stale_sum_update:
  assumes "i < length ps" and "a32_stale v p = 0"
  shows "sum_list (map (a32_stale v) (ps[i := p])) \<le> length ps - 1"
proof -
  have "ps[i := p] = take i ps @ p # drop (Suc i) ps"
    using assms(1) by (rule upd_conv_take_nth_drop)
  then have "sum_list (map (a32_stale v) (ps[i := p]))
      = sum_list (map (a32_stale v) (take i ps)) + sum_list (map (a32_stale v) (drop (Suc i) ps))"
    using assms(2) by simp
  also have "\<dots> \<le> length (take i ps) + length (drop (Suc i) ps)"
    by (intro add_mono a32_stale_sum)
  also have "\<dots> = length ps - 1" using assms(1) by simp
  finally show ?thesis .
qed

lemma a32_step_retries:
  assumes "a32_step s e t"
  shows "length (a32_pcs t) = length (a32_pcs s) \<and>
    a32_fails [e] + sum_list (map (a32_stale (a32_value t)) (a32_pcs t))
      \<le> sum_list (map (a32_stale (a32_value s)) (a32_pcs s))
         + (length (a32_pcs s) - 1) * length (a32_stores [e])"
  using assms
proof (induction rule: a32_step.induct)
  case (load i s add)
  then show ?case
    using sum_list_map_update [OF load(1), of "a32_stale (a32_value s)" "A32Cas add (a32_value s)"] by simp
next
  case (swap i s add cur w)
  then show ?case
    using a32_stale_sum_update [OF swap(1), of w "A32Ret (cur + add)"] by (simp add: trans_le_add2)
next
  case (retry i s add cur w)
  then have "w = a32_value s" "cur \<noteq> a32_value s" by (auto simp: cas_def split: if_splits)
  then show ?case
    using retry sum_list_map_update [OF retry(1), of "a32_stale (a32_value s)" "A32Load add"] by simp
qed

lemma a32_run_retries:
  "a32_run s es t \<Longrightarrow> length (a32_pcs t) = length (a32_pcs s) \<and>
    a32_fails es + sum_list (map (a32_stale (a32_value t)) (a32_pcs t))
      \<le> sum_list (map (a32_stale (a32_value s)) (a32_pcs s))
         + (length (a32_pcs s) - 1) * length (a32_stores es)"
proof (induction rule: a32_run.induct)
  case (none s)
  then show ?case by simp
next
  case (snoc s es t e u)
  then show ?case using a32_step_retries [OF snoc(2)] by (simp add: distrib_left)
qed

section \<open>Properties\<close>

text \<open>
  C24. \<^verbatim>\<open>Atomic64::addAndGet\<close> called by one thread adds the low 32 bits of its argument to the 64-bit
  value (modulo \<open>2 ^ 64\<close>), carry included. The number it returns is the new value exactly when the
  addition carried out of the low half or the high half is zero; in every other case the high half is
  missing from it, although the function's name promises it.
\<close>

theorem Atomic64_addAndGet_spec:
  "a64_value (fst (Atomic64_addAndGet a add)) = a64_value a + of_nat (unat add mod 2 ^ 32) \<and>
   (snd (Atomic64_addAndGet a add) = a64_value (fst (Atomic64_addAndGet a add))
     \<longleftrightarrow> 2 ^ 32 \<le> unat (a64_low a) + unat add mod 2 ^ 32 \<or> a64_high a = 0)"
proof -
  let ?n = "ucast add :: u32"
  have n: "unat ?n = unat add mod 2 ^ 32" by (simp add: unat_ucast_u64_u32)
  have "snd (atomic64Add a ?n) = a64_value (fst (atomic64Add a ?n))
      \<longleftrightarrow> a64_carries (a64_low a) ?n \<or> a64_high a = 0"
  proof (cases "a64_carries (a64_low a) ?n")
    case True
    then show ?thesis by (simp add: atomic64Add_carry_result)
  next
    case False
    then show ?thesis
      using atomic64Add_nocarry_result [OF False] by (auto simp: word_unat_eq_iff)
  qed
  then show ?thesis
    using atomic64Add_value [of a ?n] unfolding Atomic64_addAndGet_def a64_carries_iff n by simp
qed

text \<open>
  C15. Any number of threads in \<^verbatim>\<open>Atomic64::atomic64Add\<close>, interleaved step by step in any order: when all
  have returned, the value is the initial one plus all the addends (modulo \<open>2 ^ 64\<close>); no addition and no
  carry is lost, although a carry is added to the high half after the low half is visible.
\<close>

theorem Atomic64_concurrent_sum:
  assumes "a64_step\<^sup>*\<^sup>* (a64_init v ns) t" and "\<forall>p \<in> set (a64_pcs t). \<exists>r. p = A64Ret r"
  shows "a64_value (a64_cell t) = v + sum_list (map (\<lambda>n. of_nat (unat n)) ns)"
proof -
  have "sum_list (map a64_pending (a64_pcs t)) = 0"
    using assms(2) by (intro sum_list_map_zero) auto
  moreover have "a64_total (a64_init v ns) = v + sum_list (map (\<lambda>n. of_nat (unat n)) ns)"
    by (simp add: a64_total_def a64_init_def Atomic64_new_value comp_def)
  ultimately show ?thesis
    using a64_steps_total [OF assms(1)] by (simp add: a64_total_def)
qed

lemma Atomic64_concurrent_run:
  "a64_step\<^sup>*\<^sup>* (a64_init 4294967295 [1, 1])
     \<lparr>a64_cell = \<lparr>a64_low = 1, a64_high = 1\<rparr>, a64_pcs = [A64Ret 4294967296, A64Ret 1]\<rparr>"
proof -
  let ?s0 = "\<lparr>a64_cell = \<lparr>a64_low = 4294967295, a64_high = 0\<rparr>, a64_pcs = [A64Low 1, A64Low 1]\<rparr>"
  let ?s1 = "\<lparr>a64_cell = \<lparr>a64_low = 0, a64_high = 0\<rparr>, a64_pcs = [A64High 4294967295 1, A64Low 1]\<rparr>"
  let ?s2 = "\<lparr>a64_cell = \<lparr>a64_low = 1, a64_high = 0\<rparr>, a64_pcs = [A64High 4294967295 1, A64Ret 1]\<rparr>"
  let ?s3 = "\<lparr>a64_cell = \<lparr>a64_low = 1, a64_high = 1\<rparr>, a64_pcs = [A64Ret 4294967296, A64Ret 1]\<rparr>"
  have overflow: "(4294967296 :: u32) = 0" by simp
  have "a64_init 4294967295 [1, 1] = ?s0" by (simp add: a64_init_def Atomic64_new_def)
  moreover have "a64_step ?s0 ?s1"
    using a64_step.add_low [of 0 ?s0 1 4294967295] overflow by (simp add: a64_carries_def)
  moreover have "a64_step ?s1 ?s2"
    using a64_step.add_low [of 1 ?s1 1 0] by (simp add: a64_carries_def a64_result_def)
  moreover have "a64_step ?s2 ?s3"
    using a64_step.add_high [of 0 ?s2 4294967295 1 1] by (simp add: a64_result_def)
  ultimately show ?thesis
    by (auto intro: converse_rtranclp_into_rtranclp)
qed

theorem Atomic64_concurrent_sum_witness:
  "a64_value \<lparr>a64_low = 1, a64_high = 1\<rparr> = 4294967295 + 1 + 1"
  using Atomic64_concurrent_sum [OF Atomic64_concurrent_run] by simp

text \<open>
  C16. \<^verbatim>\<open>Atomic32::addAndGet\<close> is linearizable: in any interleaving of any number of threads, the values
  the threads return and the value they leave behind are those of running the calls one after the
  other, in the order of their successful compare-and-swaps, each call at most once.
\<close>

theorem Atomic32_linearizable:
  assumes "a32_run (a32_init v adds) es t"
  shows "a32_serial v (map (\<lambda>(i, _). (i, adds ! i)) (a32_stores es)) = (a32_value t, a32_stores es)
    \<and> distinct (map fst (a32_stores es))
    \<and> (\<forall>i r. i < length adds \<longrightarrow> a32_pcs t ! i = A32Ret r \<longrightarrow> (i, r) \<in> set (a32_stores es))"
proof -
  have inv: "a32_inv v adds es t" using a32_inv_run [OF assms refl] .
  then have "(i, r) \<in> set (a32_stores es)" if "i < length adds" "a32_pcs t ! i = A32Ret r" for i r
    using a32_inv_pc [OF inv, of i "A32Ret r"] that by (simp add: a32_inv_def)
  with inv show ?thesis by (simp add: a32_inv_def)
qed

lemma Atomic32_race:
  "a32_run (a32_init 10 [5, 7]) [A32Read 0, A32Read 1, A32Store 1 17, A32Fail 0]
     \<lparr>a32_value = 17, a32_pcs = [A32Load 5, A32Ret 17]\<rparr>"
proof -
  let ?s0 = "\<lparr>a32_value = 10, a32_pcs = [A32Load 5, A32Load 7]\<rparr>"
  let ?s1 = "\<lparr>a32_value = 10, a32_pcs = [A32Cas 5 10, A32Load 7]\<rparr>"
  let ?s2 = "\<lparr>a32_value = 10, a32_pcs = [A32Cas 5 10, A32Cas 7 10]\<rparr>"
  let ?s3 = "\<lparr>a32_value = 17, a32_pcs = [A32Cas 5 10, A32Ret 17]\<rparr>"
  let ?s4 = "\<lparr>a32_value = 17, a32_pcs = [A32Load 5, A32Ret 17]\<rparr>"
  have "a32_step ?s0 (A32Read 0) ?s1" using a32_step.load [of 0 ?s0 5] by simp
  with a32_run.none have "a32_run ?s0 ([] @ [A32Read 0]) ?s1" by (rule a32_run.snoc)
  moreover have "a32_step ?s1 (A32Read 1) ?s2" using a32_step.load [of 1 ?s1 7] by simp
  ultimately have "a32_run ?s0 (([] @ [A32Read 0]) @ [A32Read 1]) ?s2" by (rule a32_run.snoc)
  moreover have "a32_step ?s2 (A32Store 1 17) ?s3"
    using a32_step.swap [of 1 ?s2 7 10 17] by (simp add: cas_def)
  ultimately have "a32_run ?s0 ((([] @ [A32Read 0]) @ [A32Read 1]) @ [A32Store 1 17]) ?s3"
    by (rule a32_run.snoc)
  moreover have "a32_step ?s3 (A32Fail 0) ?s4"
    using a32_step.retry [of 0 ?s3 5 10 17] by (simp add: cas_def)
  ultimately have "a32_run ?s0 (((([] @ [A32Read 0]) @ [A32Read 1]) @ [A32Store 1 17]) @ [A32Fail 0]) ?s4"
    by (rule a32_run.snoc)
  then show ?thesis by (simp add: a32_init_def)
qed

theorem Atomic32_linearizable_witness:
  "a32_serial 10 [(1, 7)] = (17, [(1, 17)])"
  using Atomic32_linearizable [OF Atomic32_race] by simp

text \<open>
  C23. The compare-and-swap loop of \<^verbatim>\<open>Atomic32::addAndGet\<close> is lock-free: with \<open>k\<close> threads, the failed swaps
  of any execution number at most \<open>k - 1\<close> per successful one, so a run cannot consist of retries alone,
  and since each thread stores at most once, all loops together fail at most \<open>(k - 1) * k\<close> times.
\<close>

theorem Atomic32_lock_free:
  assumes "a32_run (a32_init v adds) es t"
  shows "a32_fails es \<le> (length adds - 1) * length (a32_stores es)"
proof -
  have init: "a32_pcs (a32_init v adds) = map A32Load adds" "a32_value (a32_init v adds) = v"
    by (simp_all add: a32_init_def)
  have "sum_list (map (a32_stale v) (map A32Load adds)) = 0"
    by (rule sum_list_map_zero) auto
  with a32_run_retries [OF assms] show ?thesis
    unfolding init length_map by linarith
qed

theorem Atomic32_lock_free_witness:
  "a32_fails [A32Read 0, A32Read 1, A32Store 1 17, A32Fail 0] \<le> (2 - 1) * 1"
  using Atomic32_lock_free [OF Atomic32_race] by simp

end
