(* ===== verification/Ring_Buffer.thy ===== *)
theory Ring_Buffer
  imports Prelude
begin

text \<open>
  The class \<^verbatim>\<open>RingBuffer\<close> of \<^verbatim>\<open>ringbuffer.h\<close> and \<^verbatim>\<open>ringbuffer.cpp\<close>: a byte array addressed by an index
  that only grows and is reduced modulo the size on every access. Operations run by one thread are
  functions here; the races between threads in \<^verbatim>\<open>allocate\<close> are the subject of \<open>Ring_Concurrent\<close>.
  The section \<open>Circular ranges\<close> says what the split memcpy calls compute, and the locale
  \<open>circular_store\<close> is the contract the logger relies on.
\<close>

section \<open>State and operations\<close>

record ringbuffer =
  rb_marker :: u64
  rb_version :: u32
  rb_buffer :: "u8 list"
  rb_size :: u32
  rb_currentIndex :: u32
  rb_threadSafe :: bool
  rb_indexWrapAroundCount :: u32   \<comment> \<open>\<^verbatim>\<open>stats_.indexWrapAroundCount\<close>\<close>

definition RingBuffer_MARKER :: u64 where
  "RingBuffer_MARKER = 0xfeedf000faeef0fe"

definition RingBuffer_VERSION :: u32 where
  "RingBuffer_VERSION = 1"

text \<open>
  The constructor gets the indeterminate contents of the fresh memory as an argument: \<^verbatim>\<open>currentIndex_\<close>
  and \<^verbatim>\<open>stats_\<close> are in no initialiser, so they keep what was there.
\<close>

definition RingBuffer_new :: "ringbuffer \<Rightarrow> u32 \<Rightarrow> bool \<Rightarrow> ringbuffer" where
  "RingBuffer_new fresh sz threadSafe =
     fresh\<lparr>rb_marker := RingBuffer_MARKER, rb_version := RingBuffer_VERSION,
           rb_buffer := replicate (unat sz) 0, rb_size := sz, rb_threadSafe := threadSafe\<rparr>"

text \<open>After the destructor no byte is left to address.\<close>

definition RingBuffer_destroy :: "ringbuffer \<Rightarrow> ringbuffer" where
  "RingBuffer_destroy rb = rb\<lparr>rb_buffer := []\<rparr>"

definition RingBuffer_normalize :: "ringbuffer \<Rightarrow> u32 \<Rightarrow> u32 result" where
  "RingBuffer_normalize rb index =
     (if rb_size rb = 0 then Inl DivByZero else Inr (index mod rb_size rb))"

definition isIndexRollingOver :: "u32 \<Rightarrow> bool" where
  "isIndexRollingOver index \<longleftrightarrow> index > 4294967295 - 10240"

definition RingBuffer_getCurrentIndex :: "ringbuffer \<Rightarrow> u32" where
  "RingBuffer_getCurrentIndex rb = rb_currentIndex rb"

definition RingBuffer_hasWrappedAround :: "ringbuffer \<Rightarrow> bool" where
  "RingBuffer_hasWrappedAround rb \<longleftrightarrow> rb_indexWrapAroundCount rb > 0"

definition RingBuffer_getStats :: "ringbuffer \<Rightarrow> u32" where
  "RingBuffer_getStats rb = rb_indexWrapAroundCount rb"

text \<open>The loop of the thread-safe branch, from the test \<^verbatim>\<open>isIndexRollingOver(currentIndex_) && !writeSuccess\<close>.\<close>

function RingBuffer_rollover :: "ringbuffer \<Rightarrow> u32 \<Rightarrow> bool \<Rightarrow> ringbuffer result" where
  "RingBuffer_rollover rb new_wrap_count writeSuccess =
     (if isIndexRollingOver (rb_currentIndex rb) \<and> \<not> writeSuccess
      then (let currentIndex = rb_currentIndex rb in
            bindE (RingBuffer_normalize rb currentIndex) (\<lambda>currentIndexNormalized.
            (let (index', ok) = cas (rb_currentIndex rb) currentIndex currentIndexNormalized;
                 rb1 = rb\<lparr>rb_currentIndex := index'\<rparr>;
                 rb2 = (if ok then rb1\<lparr>rb_indexWrapAroundCount := new_wrap_count\<rparr> else rb1)
             in RingBuffer_rollover rb2 new_wrap_count ok)))
      else Inr rb)"
  by pat_completeness auto
termination
  by (relation "measure (\<lambda>(rb, n, writeSuccess). if writeSuccess then 0 else 1)") auto

declare RingBuffer_rollover.simps [simp del]

definition RingBuffer_allocate :: "ringbuffer \<Rightarrow> u32 \<Rightarrow> (ringbuffer \<times> u32) result" where
  "RingBuffer_allocate rb bufferLen =
     bindE
       (if isIndexRollingOver (rb_currentIndex rb)
        then if rb_threadSafe rb
             then RingBuffer_rollover rb (rb_indexWrapAroundCount rb + 1) False
             else bindE (RingBuffer_normalize rb (rb_currentIndex rb)) (\<lambda>n.
                    Inr (rb\<lparr>rb_currentIndex := n,
                            rb_indexWrapAroundCount := rb_indexWrapAroundCount rb + 1\<rparr>))
        else Inr rb)
       (\<lambda>rb1. let ret = rb_currentIndex rb1
              in Inr (rb1\<lparr>rb_currentIndex := rb_currentIndex rb1 + bufferLen\<rparr>, ret))"

definition RingBuffer_get :: "ringbuffer \<Rightarrow> u32 \<Rightarrow> u32 \<Rightarrow> u8 list result" where
  "RingBuffer_get rb srcIndex0 len =
     bindE (RingBuffer_normalize rb srcIndex0) (\<lambda>srcIndex.
       if srcIndex + len \<le> rb_size rb
       then mem_read (rb_buffer rb) (unat srcIndex) (unat len)
       else (let copyLength = rb_size rb - srcIndex in
             bindE (mem_read (rb_buffer rb) (unat srcIndex) (unat copyLength)) (\<lambda>top.
             bindE (mem_read (rb_buffer rb) 0 (unat (len - copyLength))) (\<lambda>bottom.
             Inr (top @ bottom)))))"

definition RingBuffer_set :: "ringbuffer \<Rightarrow> u32 \<Rightarrow> u8 list \<Rightarrow> u32 \<Rightarrow> ringbuffer result" where
  "RingBuffer_set rb dstIndex0 src len =
     bindE (RingBuffer_normalize rb dstIndex0) (\<lambda>dstIndex.
       if dstIndex + len \<le> rb_size rb
       then bindE (mem_read src 0 (unat len)) (\<lambda>bs.
            bindE (mem_write (rb_buffer rb) (unat dstIndex) bs) (\<lambda>buf.
            Inr (rb\<lparr>rb_buffer := buf\<rparr>)))
       else (let copyLength = rb_size rb - dstIndex in
             bindE (mem_read src 0 (unat copyLength)) (\<lambda>top.
             bindE (mem_write (rb_buffer rb) (unat dstIndex) top) (\<lambda>buf.
             bindE (mem_read src (unat copyLength) (unat (len - copyLength))) (\<lambda>bottom.
             bindE (mem_write buf 0 bottom) (\<lambda>buf'.
             Inr (rb\<lparr>rb_buffer := buf'\<rparr>)))))))"

fun RingBuffer_compare_loop :: "ringbuffer \<Rightarrow> u32 \<Rightarrow> u8 list \<Rightarrow> nat \<Rightarrow> nat \<Rightarrow> int result" where
  "RingBuffer_compare_loop rb bufferIndex p di 0 = Inr 0"
| "RingBuffer_compare_loop rb bufferIndex p di (Suc len) =
     bindE (mem_get (rb_buffer rb) (unat bufferIndex)) (\<lambda>b.
     bindE (mem_get p di) (\<lambda>c.
       if b \<noteq> c then Inr (- 1)
       else bindE (RingBuffer_normalize rb (bufferIndex + 1)) (\<lambda>bufferIndex'.
            RingBuffer_compare_loop rb bufferIndex' p (di + 1) len)))"

definition RingBuffer_compare :: "ringbuffer \<Rightarrow> u32 \<Rightarrow> u8 list \<Rightarrow> u32 \<Rightarrow> int result" where
  "RingBuffer_compare rb bufferIndex p len =
     bindE (RingBuffer_normalize rb bufferIndex) (\<lambda>bufferIndex'.
     RingBuffer_compare_loop rb bufferIndex' p 0 (unat len))"

definition RingBuffer_getByte :: "ringbuffer \<Rightarrow> u32 \<Rightarrow> u8 result" where
  "RingBuffer_getByte rb dstIndex =
     bindE (RingBuffer_normalize rb dstIndex) (\<lambda>i. mem_get (rb_buffer rb) (unat i))"

definition RingBuffer_getInt :: "ringbuffer \<Rightarrow> u32 \<Rightarrow> u32 result" where
  "RingBuffer_getInt rb dstIndex = bindE (RingBuffer_get rb dstIndex 4) (\<lambda>bs. Inr (u32_of bs))"

definition RingBuffer_getLong64 :: "ringbuffer \<Rightarrow> u32 \<Rightarrow> u64 result" where
  "RingBuffer_getLong64 rb dstIndex = bindE (RingBuffer_get rb dstIndex 8) (\<lambda>bs. Inr (u64_of bs))"

text \<open>A \<^verbatim>\<open>double\<close> is its IEEE 754 bit pattern, a pointer its address.\<close>

definition RingBuffer_getDouble :: "ringbuffer \<Rightarrow> u32 \<Rightarrow> u64 result" where
  "RingBuffer_getDouble rb dstIndex = bindE (RingBuffer_get rb dstIndex 8) (\<lambda>bs. Inr (u64_of bs))"

definition RingBuffer_getPtr :: "ringbuffer \<Rightarrow> u32 \<Rightarrow> u64 result" where
  "RingBuffer_getPtr rb dstIndex = bindE (RingBuffer_get rb dstIndex 8) (\<lambda>bs. Inr (u64_of bs))"

text \<open>\<^verbatim>\<open>getString\<close>: the destination block comes in and goes out; \<open>di\<close> is the number of bytes copied.\<close>

function RingBuffer_getString_loop ::
  "ringbuffer \<Rightarrow> u32 \<Rightarrow> u8 list \<Rightarrow> u32 \<Rightarrow> (u8 list \<times> u32) result" where
  "RingBuffer_getString_loop rb bufferIndex dst di =
     bindE (mem_get (rb_buffer rb) (unat bufferIndex)) (\<lambda>b.
       if b \<noteq> 0 \<and> di < rb_size rb
       then bindE (mem_write dst (unat di) [b]) (\<lambda>dst'.
            bindE (RingBuffer_normalize rb (bufferIndex + 1)) (\<lambda>bufferIndex'.
            RingBuffer_getString_loop rb bufferIndex' dst' (di + 1)))
       else Inr (dst, di))"
  by pat_completeness auto
termination
proof (relation "measure (\<lambda>(rb, i, dst, di). unat (rb_size rb) - unat di)")
  fix rb :: ringbuffer and bufferIndex di b dst dst' and bufferIndex' :: u32
  assume "b \<noteq> (0 :: u8) \<and> di < rb_size rb"
  then have "unat di < unat (rb_size rb)" by (simp add: word_less_nat_alt)
  moreover from this have "unat (di + 1) = unat di + 1"
    using unat_u32_bound [of "rb_size rb"] by (simp add: unat_add_u32)
  ultimately show "((rb, bufferIndex', dst', di + 1), rb, bufferIndex, dst, di)
      \<in> measure (\<lambda>(rb, i, dst, di). unat (rb_size rb) - unat di)" by simp
qed simp

declare RingBuffer_getString_loop.simps [simp del]

definition RingBuffer_getString :: "ringbuffer \<Rightarrow> u32 \<Rightarrow> u8 list \<Rightarrow> (u8 list \<times> u32) result" where
  "RingBuffer_getString rb bufferIndex dst =
     bindE (RingBuffer_normalize rb bufferIndex) (\<lambda>i. RingBuffer_getString_loop rb i dst 0)"

text \<open>
  The state invariant: the array has the recorded, non-zero size. The second predicate adds the
  bound under which the 32-bit sums \<^verbatim>\<open>srcIndex + length\<close> of \<^verbatim>\<open>get\<close> and \<^verbatim>\<open>set\<close> are exact.
\<close>

definition rb_wf :: "ringbuffer \<Rightarrow> bool" where
  "rb_wf rb \<longleftrightarrow> 0 < unat (rb_size rb) \<and> length (rb_buffer rb) = unat (rb_size rb)"

definition rb_ok :: "ringbuffer \<Rightarrow> bool" where
  "rb_ok rb \<longleftrightarrow> rb_wf rb \<and> unat (rb_size rb) \<le> 2 ^ 31"

section \<open>Circular ranges\<close>

text \<open>
  \<open>circ b i n\<close> are the \<open>n\<close> cells from position \<open>i\<close> on, going round; \<open>circ_put b i xs\<close> overwrites them.
\<close>

definition circ :: "'a list \<Rightarrow> nat \<Rightarrow> nat \<Rightarrow> 'a list" where
  "circ b i n = map (\<lambda>k. b ! ((i + k) mod length b)) [0..<n]"

definition circ_dist :: "nat \<Rightarrow> nat \<Rightarrow> nat \<Rightarrow> nat" where
  "circ_dist N i j = (j + (N - i mod N)) mod N"

definition circ_put :: "'a list \<Rightarrow> nat \<Rightarrow> 'a list \<Rightarrow> 'a list" where
  "circ_put b i xs =
     map (\<lambda>j. let d = circ_dist (length b) i j in if d < length xs then xs ! d else b ! j) [0..<length b]"

definition circ_disjoint :: "nat \<Rightarrow> nat \<Rightarrow> nat \<Rightarrow> nat \<Rightarrow> nat \<Rightarrow> bool" where
  "circ_disjoint N i n j m \<longleftrightarrow> (\<forall>k<n. \<forall>l<m. (i + k) mod N \<noteq> (j + l) mod N)"

lemma length_circ [simp]: "length (circ b i n) = n"
  by (simp add: circ_def)

lemma nth_circ: "k < n \<Longrightarrow> circ b i n ! k = b ! ((i + k) mod length b)"
  by (simp add: circ_def)

lemma length_circ_put [simp]: "length (circ_put b i xs) = length b"
  by (simp add: circ_put_def)

lemma circ_replicate: "0 < N \<Longrightarrow> circ (replicate N x) i n = replicate n x"
  by (intro nth_equalityI) (auto simp: nth_circ)

lemma take_circ: "m \<le> n \<Longrightarrow> take m (circ b i n) = circ b i m"
  by (intro nth_equalityI) (auto simp: nth_circ)

lemma circ_mod: "circ b (i mod length b) n = circ b i n"
  by (simp add: circ_def mod_add_left_eq)

lemma circ_add: "circ b i (n + m) = circ b i n @ circ b (i + n) m"
  by (intro nth_equalityI) (auto simp: nth_circ nth_append add.assoc)

lemma drop_circ: "drop k (circ b i n) = circ b (i + k) (n - k)"
  by (intro nth_equalityI) (auto simp: nth_circ add.assoc)

lemma circ_dist_add:
  assumes "d < N"
  shows "circ_dist N i ((i + d) mod N) = d"
proof -
  have "circ_dist N i ((i + d) mod N) = (i + d + (N - i mod N)) mod N"
    by (simp add: circ_dist_def mod_add_left_eq)
  also have "\<dots> = (i div N * N + (i mod N + (N - i mod N)) + d) mod N"
    by (metis (no_types, lifting) add.assoc add.commute div_mult_mod_eq)
  also have "i mod N + (N - i mod N) = N"
    using assms by (simp add: less_imp_le)
  finally have "circ_dist N i ((i + d) mod N) = (d + (i div N + 1) * N) mod N"
    by (simp add: algebra_simps)
  then show ?thesis using assms by (simp only: mod_mult_self1 mod_less)
qed

lemma circ_dist_less: "0 < N \<Longrightarrow> circ_dist N i j < N"
  by (simp add: circ_dist_def)

lemma circ_dist_back:
  assumes "j < N"
  shows "(i + circ_dist N i j) mod N = j"
proof -
  have "(i + circ_dist N i j) mod N = (i mod N + (j + (N - i mod N))) mod N"
    by (simp add: circ_dist_def mod_add_right_eq mod_add_left_eq)
  also have "\<dots> = (i mod N + (N - i mod N) + j) mod N"
    by (simp only: ac_simps)
  also have "i mod N + (N - i mod N) = N"
    using assms by (simp add: less_imp_le)
  finally show ?thesis using assms by simp
qed

lemma nth_circ_put:
  "j < length b \<Longrightarrow>
   circ_put b i xs ! j = (if circ_dist (length b) i j < length xs then xs ! circ_dist (length b) i j else b ! j)"
  by (simp add: circ_put_def Let_def)

lemma circ_circ_put_same:
  assumes "length xs \<le> length b"
  shows "circ (circ_put b i xs) i (length xs) = xs"
proof (rule nth_equalityI)
  fix k assume "k < length (circ (circ_put b i xs) i (length xs))"
  then have k: "k < length xs" by simp
  then have "(i + k) mod length b < length b" using assms by (intro mod_less_divisor) linarith
  with k assms show "circ (circ_put b i xs) i (length xs) ! k = xs ! k"
    by (simp add: nth_circ nth_circ_put circ_dist_add)
qed simp

lemma circ_circ_put_disjoint:
  assumes "circ_disjoint (length b) i (length xs) j m" and "0 < length b"
  shows "circ (circ_put b i xs) j m = circ b j m"
proof (rule nth_equalityI)
  fix l assume "l < length (circ (circ_put b i xs) j m)"
  then have l: "l < m" by simp
  let ?p = "(j + l) mod length b"
  have p: "?p < length b" using assms(2) by simp
  have "\<not> circ_dist (length b) i ?p < length xs"
    using assms(1) l circ_dist_back [OF p, of i] by (auto simp: circ_disjoint_def)
  with l p show "circ (circ_put b i xs) j m ! l = circ b j m ! l"
    by (simp add: nth_circ nth_circ_put)
qed simp

lemma circ_disjoint_sym: "circ_disjoint N i n j m \<Longrightarrow> circ_disjoint N j m i n"
  unfolding circ_disjoint_def by metis

lemma circ_disjoint_cong:
  assumes "i mod N = i' mod N" and "j mod N = j' mod N"
  shows "circ_disjoint N i n j m \<longleftrightarrow> circ_disjoint N i' n j' m"
proof -
  have "(i + k) mod N = (i' + k) mod N" "(j + k) mod N = (j' + k) mod N" for k
    using assms by (auto intro: mod_add_cong)
  then show ?thesis by (simp add: circ_disjoint_def)
qed

text \<open>Two ranges of one stretch of at most \<open>N\<close> consecutive positions do not meet.\<close>

lemma circ_disjoint_consecutive:
  assumes "i + n \<le> j" and "j + m \<le> i + N"
  shows "circ_disjoint N i n j m"
  unfolding circ_disjoint_def
proof (intro allI impI notI)
  fix k l assume "k < n" and "l < m" and eq: "(i + k) mod N = (j + l) mod N"
  then have "i + k < j + l" "j + l < i + k + N" using assms by linarith+
  then have "0 < (j + l) - (i + k)" "(j + l) - (i + k) < N" by linarith+
  moreover from eq have "N dvd (j + l) - (i + k)"
    using mod_eq_dvd_iff_nat [OF less_imp_le [OF \<open>i + k < j + l\<close>], of N] by simp
  ultimately show False by (auto dest: dvd_imp_le)
qed

section \<open>What the operations compute\<close>

lemma circ_straight: "s + n \<le> length b \<Longrightarrow> circ b s n = take n (drop s b)"
  by (intro nth_equalityI) (auto simp: nth_circ)

lemma circ_wrapped:
  assumes "s < length b" and "length b \<le> s + n" and "n \<le> length b"
  shows "circ b s n = drop s b @ take (n - (length b - s)) b"
proof -
  have "circ b s n = circ b s (length b - s) @ circ b (s + (length b - s)) (n - (length b - s))"
    using assms circ_add [of b s "length b - s" "n - (length b - s)"] by simp
  also have "circ b (s + (length b - s)) (n - (length b - s)) = circ b 0 (n - (length b - s))"
    using assms circ_mod [of b "length b"] by simp
  finally show ?thesis using assms by (simp add: circ_straight)
qed

lemma circ_dist_cases:
  "s < N \<Longrightarrow> j < N \<Longrightarrow> circ_dist N s j = (if s \<le> j then j - s else j + N - s)"
  by (auto simp: circ_dist_def mod_if)

lemma circ_put_mod: "circ_put b (i mod length b) xs = circ_put b i xs"
  by (simp add: circ_put_def circ_dist_def)

lemma circ_put_straight:
  assumes "s < length b" and "s + length xs \<le> length b"
  shows "circ_put b s xs = take s b @ xs @ drop (s + length xs) b"
  using assms
  by (intro nth_equalityI) (auto simp: nth_circ_put circ_dist_cases nth_append min_def)

lemma circ_put_wrapped:
  assumes "s < length b" and "length xs = length b - s" and "length ys \<le> s"
  shows "circ_put b s (xs @ ys) = ys @ drop (length ys) (take s b @ xs)"
  using assms
  by (intro nth_equalityI) (auto simp: nth_circ_put circ_dist_cases nth_append min_def)

lemma circ_put_split:
  assumes "s < length b" and "length b < s + n" and "n \<le> length b" and "n \<le> length src"
  shows "circ_put b s (take n src)
      = take (n - (length b - s)) (drop (length b - s) src)
          @ drop (n - (length b - s)) (take s b @ take (length b - s) src)"
proof -
  let ?c = "length b - s"
  let ?xs = "take ?c src" and ?ys = "take (n - ?c) (drop ?c src)"
  have n: "take n src = ?xs @ ?ys"
    using assms take_add [of ?c "n - ?c" src] by simp
  have xs: "length ?xs = ?c" and ys: "length ?ys = n - ?c" using assms by auto
  have "n - ?c \<le> s" using assms by linarith
  then show ?thesis
    using circ_put_wrapped [OF assms(1) xs, of ?ys] unfolding n ys by simp
qed

lemma mem_write_split:
  assumes "s < length b" and "length b < s + n" and "n \<le> length b" and "n \<le> length src"
    and "c = length b - s"
  shows "bindE (mem_read src 0 c) (\<lambda>top.
         bindE (mem_write b s top) (\<lambda>buf.
         bindE (mem_read src c (n - c)) (\<lambda>bottom.
         bindE (mem_write buf 0 bottom) f))) = f (circ_put b s (take n src))"
proof -
  have "mem_read src 0 c = Inr (take c src)" using assms by simp
  moreover have c: "length (take c src) = c" using assms by simp
  then have "mem_write b s (take c src) = Inr (take s b @ take c src)"
    using assms(1,5) by (simp add: mem_write_def)
  moreover have "mem_read src c (n - c) = Inr (take (n - c) (drop c src))"
    using assms by simp
  moreover have "length (take (n - c) (drop c src)) = n - c" and "n - c \<le> length b"
    and "length (take s b @ take c src) = length b"
    using assms by (auto simp: min_def)
  then have "mem_write (take s b @ take c src) 0 (take (n - c) (drop c src))
      = Inr (take (n - c) (drop c src) @ drop (n - c) (take s b @ take c src))"
    by (simp add: mem_write_def del: length_append length_take length_drop)
  ultimately show ?thesis
    using circ_put_split [OF assms(1-4)] by (simp add: assms(5))
qed

text \<open>The index arithmetic the two copying operations share.\<close>

lemma rb_index_facts:
  assumes "rb_ok rb" and "unat len \<le> unat (rb_size rb)"
  shows "unat (i mod rb_size rb) = unat i mod unat (rb_size rb)"
    and "unat i mod unat (rb_size rb) < unat (rb_size rb)"
    and "i mod rb_size rb + len \<le> rb_size rb
           \<longleftrightarrow> unat i mod unat (rb_size rb) + unat len \<le> unat (rb_size rb)"
    and "unat (rb_size rb - i mod rb_size rb) = unat (rb_size rb) - unat i mod unat (rb_size rb)"
    and "unat (rb_size rb) < unat i mod unat (rb_size rb) + unat len \<Longrightarrow>
         unat (len - (rb_size rb - i mod rb_size rb))
           = unat len - (unat (rb_size rb) - unat i mod unat (rb_size rb))"
proof -
  let ?N = "unat (rb_size rb)" and ?s = "unat i mod unat (rb_size rb)"
  have N: "0 < ?N" "?N \<le> 2 ^ 31" using assms(1) by (auto simp: rb_ok_def rb_wf_def)
  show s: "unat (i mod rb_size rb) = ?s" by (rule unat_mod)
  show less: "?s < ?N" using N by simp
  have "unat (i mod rb_size rb + len) = ?s + unat len"
    using N less assms(2) by (simp add: unat_add_u32 s)
  then show "i mod rb_size rb + len \<le> rb_size rb \<longleftrightarrow> ?s + unat len \<le> ?N"
    by (simp add: word_le_nat_alt)
  have "i mod rb_size rb \<le> rb_size rb" using less by (simp add: word_le_nat_alt s)
  then show c: "unat (rb_size rb - i mod rb_size rb) = ?N - ?s" by (simp add: unat_sub s)
  assume "?N < ?s + unat len"
  then have "rb_size rb - i mod rb_size rb \<le> len" by (simp add: word_le_nat_alt c)
  then show "unat (len - (rb_size rb - i mod rb_size rb)) = unat len - (?N - ?s)"
    by (simp add: unat_sub c)
qed

lemma RingBuffer_normalize_wf [simp]:
  "rb_wf rb \<Longrightarrow> RingBuffer_normalize rb i = Inr (i mod rb_size rb)"
  by (auto simp: RingBuffer_normalize_def rb_wf_def)

lemma rb_ok_wf [simp]: "rb_ok rb \<Longrightarrow> rb_wf rb"
  by (simp add: rb_ok_def)

lemma RingBuffer_get_circ:
  assumes "rb_ok rb" and "unat len \<le> unat (rb_size rb)"
  shows "RingBuffer_get rb i len = Inr (circ (rb_buffer rb) (unat i) (unat len))"
proof -
  let ?N = "unat (rb_size rb)" and ?s = "unat i mod unat (rb_size rb)" and ?b = "rb_buffer rb"
  have b: "length ?b = ?N" using assms(1) by (simp add: rb_ok_def rb_wf_def)
  note f = rb_index_facts [OF assms, of i]
  have "circ ?b (unat i) (unat len) = circ ?b ?s (unat len)"
    using circ_mod [of ?b "unat i" "unat len"] by (simp add: b)
  moreover have "RingBuffer_get rb i len = Inr (circ ?b ?s (unat len))"
  proof (cases "?s + unat len \<le> ?N")
    case True
    then show ?thesis using assms(1) f(1-3) b by (simp add: RingBuffer_get_def circ_straight)
  next
    case False
    then show ?thesis
      using assms f b by (simp add: RingBuffer_get_def Let_def circ_wrapped)
  qed
  ultimately show ?thesis by simp
qed

lemma RingBuffer_set_circ:
  assumes "rb_ok rb" and "unat len \<le> unat (rb_size rb)" and "unat len \<le> length src"
  shows "RingBuffer_set rb i src len
      = Inr (rb\<lparr>rb_buffer := circ_put (rb_buffer rb) (unat i) (take (unat len) src)\<rparr>)"
proof -
  let ?N = "unat (rb_size rb)" and ?s = "unat i mod unat (rb_size rb)" and ?b = "rb_buffer rb"
  let ?xs = "take (unat len) src"
  have b: "length ?b = ?N" using assms(1) by (simp add: rb_ok_def rb_wf_def)
  note f = rb_index_facts [OF assms(1,2), of i]
  have "circ_put ?b (unat i) ?xs = circ_put ?b ?s ?xs"
    using circ_put_mod [of ?b "unat i" ?xs] by (simp add: b)
  moreover have "RingBuffer_set rb i src len = Inr (rb\<lparr>rb_buffer := circ_put ?b ?s ?xs\<rparr>)"
  proof (cases "?s + unat len \<le> ?N")
    case True
    then show ?thesis
      using assms f(1-3) b by (simp add: RingBuffer_set_def circ_put_straight min_absorb2)
  next
    case False
    have "?s < length ?b" "length ?b < ?s + unat len" "unat len \<le> length ?b"
      using False f(2) b assms(2) by simp_all
    from mem_write_split [OF this assms(3)] show ?thesis
      using False assms(1) f b by (simp add: RingBuffer_set_def Let_def)
  qed
  ultimately show ?thesis by simp
qed

lemma rb_ok_set_buffer:
  "rb_ok rb \<Longrightarrow> rb_ok (rb\<lparr>rb_buffer := circ_put (rb_buffer rb) i xs\<rparr>)"
  by (simp add: rb_ok_def rb_wf_def)

text \<open>One step of a byte-by-byte scan moves one position round.\<close>

lemma rb_next_index:
  assumes "rb_wf rb" and "unat i < unat (rb_size rb)"
  shows "unat ((i + 1) mod rb_size rb) = (unat i + 1) mod unat (rb_size rb)"
proof -
  have "unat (i + 1) = unat i + 1"
    using assms(2) unat_u32_bound [of "rb_size rb"] by (simp add: unat_add_u32)
  then show ?thesis by (simp add: unat_mod)
qed

lemma circ_Suc: "i < length b \<Longrightarrow> circ b i (Suc n) = b ! i # circ b ((i + 1) mod length b) n"
  using circ_add [of b i 1 n] by (simp add: circ_def mod_add_left_eq)

lemma rb_wf_index: "rb_wf rb \<Longrightarrow> unat (i mod rb_size rb) < unat (rb_size rb)"
  by (simp add: rb_wf_def unat_mod)

lemma RingBuffer_compare_loop_eq:
  "rb_wf rb \<Longrightarrow> unat i < unat (rb_size rb) \<Longrightarrow> di + n \<le> length p \<Longrightarrow>
   RingBuffer_compare_loop rb i p di n
     = Inr (if circ (rb_buffer rb) (unat i) n = take n (drop di p) then 0 else - 1)"
proof (induction n arbitrary: i di)
  case 0
  then show ?case by (simp add: circ_def)
next
  case (Suc n)
  let ?b = "rb_buffer rb"
  have b: "length ?b = unat (rb_size rb)" using Suc.prems(1) by (simp add: rb_wf_def)
  have p: "take (Suc n) (drop di p) = p ! di # take n (drop (di + 1) p)"
    using Suc.prems(3) by (simp add: Cons_nth_drop_Suc [symmetric])
  have "circ ?b (unat i) (Suc n) = ?b ! unat i # circ ?b (unat ((i + 1) mod rb_size rb)) n"
    using Suc.prems b by (simp add: circ_Suc rb_next_index)
  then show ?case
    using Suc.prems Suc.IH [of "(i + 1) mod rb_size rb" "di + 1"] b
    by (simp add: p mem_get_def rb_wf_index)
qed

lemma RingBuffer_getString_loop_eq:
  "rb_wf rb \<Longrightarrow> unat i < unat (rb_size rb) \<Longrightarrow> unat di + m = unat (rb_size rb) \<Longrightarrow> unat di \<le> length dst \<Longrightarrow>
   str = takeWhile (\<lambda>b. b \<noteq> 0) (circ (rb_buffer rb) (unat i) m) \<Longrightarrow>
   RingBuffer_getString_loop rb i dst di =
    (if unat di + length str \<le> length dst
     then Inr (take (unat di) dst @ str @ drop (unat di + length str) dst, di + word_of_nat (length str))
     else Inl OutOfBounds)"
proof (induction m arbitrary: i di dst str)
  case 0
  then have "\<not> di < rb_size rb" by (simp add: word_less_nat_alt)
  with 0 show ?case
    by (subst RingBuffer_getString_loop.simps) (simp add: mem_get_def rb_wf_def circ_def)
next
  case (Suc m)
  let ?b = "rb_buffer rb" and ?i = "(i + 1) mod rb_size rb"
  let ?c = "?b ! unat i" and ?str = "takeWhile (\<lambda>b. b \<noteq> 0) (circ ?b (unat ((i + 1) mod rb_size rb)) m)"
  have b: "length ?b = unat (rb_size rb)" using Suc.prems(1) by (simp add: rb_wf_def)
  have get: "mem_get ?b (unat i) = Inr ?c" using Suc.prems(2) b by (simp add: mem_get_def)
  have less: "di < rb_size rb" using Suc.prems(3) by (simp add: word_less_nat_alt)
  have di: "unat (di + 1) = unat di + 1"
    using Suc.prems(3) unat_u32_bound [of "rb_size rb"] by (simp add: unat_add_u32)
  have str: "str = (if ?c = 0 then [] else ?c # ?str)"
    using Suc.prems b by (simp add: circ_Suc rb_next_index)
  show ?case
  proof (cases "?c = 0 \<or> length dst \<le> unat di")
    case True
    then show ?thesis
      using Suc.prems(4) get less
      by (subst RingBuffer_getString_loop.simps) (auto simp: str mem_write_def)
  next
    case False
    let ?dst = "take (unat di) dst @ [?c] @ drop (unat di + 1) dst"
    have "RingBuffer_getString_loop rb i dst di = RingBuffer_getString_loop rb ?i ?dst (di + 1)"
      using False Suc.prems(1) get less by (subst RingBuffer_getString_loop.simps) simp
    also have "\<dots> = (if unat (di + 1) + length ?str \<le> length ?dst
       then Inr (take (unat (di + 1)) ?dst @ ?str @ drop (unat (di + 1) + length ?str) ?dst,
                 di + 1 + word_of_nat (length ?str))
       else Inl OutOfBounds)"
      using Suc.prems False di by (intro Suc.IH) (auto simp: rb_wf_index)
    finally have step: "RingBuffer_getString_loop rb i dst di = \<dots>" .
    have "length ?dst = length dst" and "take (unat di + 1) ?dst = take (unat di) dst @ [?c]"
      and "\<And>k. drop (unat di + 1 + k) ?dst = drop (unat di + 1 + k) dst"
      using False by (auto simp: add.commute)
    then have "RingBuffer_getString_loop rb i dst di =
      (if unat di + 1 + length ?str \<le> length dst
       then Inr ((take (unat di) dst @ [?c]) @ ?str @ drop (unat di + 1 + length ?str) dst,
                 di + 1 + word_of_nat (length ?str))
       else Inl OutOfBounds)"
      unfolding step di by (simp only:)
    moreover have "str = ?c # ?str" using False by (simp add: str)
    ultimately show ?thesis by (simp add: add.assoc)
  qed
qed

section \<open>The contract of a circular byte store\<close>

text \<open>
  What the logger relies on: reads of up to the capacity succeed, a write is read back, a write does not
  touch a range it does not meet, and an index counts modulo the capacity.
\<close>

locale circular_store =
  fixes store_get :: "'s \<Rightarrow> u32 \<Rightarrow> u32 \<Rightarrow> u8 list result"
    and store_set :: "'s \<Rightarrow> u32 \<Rightarrow> u8 list \<Rightarrow> u32 \<Rightarrow> 's result"
    and store_ok :: "'s \<Rightarrow> bool"
    and capacity :: "'s \<Rightarrow> nat"
  assumes get_ok: "store_ok s \<Longrightarrow> unat n \<le> capacity s \<Longrightarrow>
      \<exists>bs. store_get s i n = Inr bs \<and> length bs = unat n"
    and get_prefix: "store_ok s \<Longrightarrow> unat n \<le> capacity s \<Longrightarrow> m \<le> n \<Longrightarrow> store_get s i n = Inr bs \<Longrightarrow>
      store_get s i m = Inr (take (unat m) bs)"
    and get_congruent: "store_ok s \<Longrightarrow> unat n \<le> capacity s \<Longrightarrow>
      unat i mod capacity s = unat j mod capacity s \<Longrightarrow> store_get s i n = store_get s j n"
    and set_ok: "store_ok s \<Longrightarrow> unat n \<le> capacity s \<Longrightarrow> unat n \<le> length src \<Longrightarrow>
      \<exists>s'. store_set s i src n = Inr s' \<and> store_ok s' \<and> capacity s' = capacity s"
    and get_set_same: "store_ok s \<Longrightarrow> unat n \<le> capacity s \<Longrightarrow> unat n \<le> length src \<Longrightarrow>
      store_set s i src n = Inr s' \<Longrightarrow> store_get s' i n = Inr (take (unat n) src)"
    and get_set_other: "store_ok s \<Longrightarrow> unat n \<le> capacity s \<Longrightarrow> unat n \<le> length src \<Longrightarrow>
      unat m \<le> capacity s \<Longrightarrow> store_set s i src n = Inr s' \<Longrightarrow>
      circ_disjoint (capacity s) (unat i) (unat n) (unat j) (unat m) \<Longrightarrow>
      store_get s' j m = store_get s j m"
begin

lemma get_set_prefix:
  assumes "store_ok s" and "unat n \<le> capacity s" and "unat n \<le> length src"
    and "store_set s i src n = Inr s'" and "m \<le> n"
  shows "store_get s' i m = Inr (take (unat m) src)"
proof -
  obtain s'' where "store_set s i src n = Inr s''" "store_ok s''" "capacity s'' = capacity s"
    using set_ok [OF assms(1-3)] by blast
  then have "store_get s' i m = Inr (take (unat m) (take (unat n) src))"
    using assms get_set_same [OF assms(1-4)] by (intro get_prefix) auto
  then show ?thesis using assms(5) by (simp add: min_absorb1 word_le_nat_alt)
qed

text \<open>Several writes one after the other; the records of a log are such a list.\<close>

fun store_all :: "'s \<Rightarrow> (u32 \<times> u8 list) list \<Rightarrow> 's result" where
  "store_all s [] = Inr s"
| "store_all s ((i, bs) # ws) =
     bindE (store_set s i bs (word_of_nat (length bs))) (\<lambda>s'. store_all s' ws)"

definition ranges_ok :: "nat \<Rightarrow> (u32 \<times> u8 list) list \<Rightarrow> bool" where
  "ranges_ok N ws \<longleftrightarrow>
     N < 2 ^ 32 \<and> (\<forall>w \<in> set ws. length (snd w) \<le> N) \<and>
     sorted_wrt (\<lambda>v w. circ_disjoint N (unat (fst v)) (length (snd v)) (unat (fst w)) (length (snd w))) ws"

lemma store_all_ok:
  "store_ok s \<Longrightarrow> ranges_ok (capacity s) ws \<Longrightarrow>
   \<exists>s'. store_all s ws = Inr s' \<and> store_ok s' \<and> capacity s' = capacity s"
proof (induction ws arbitrary: s)
  case Nil
  then show ?case by simp
next
  case (Cons w ws)
  obtain i bs where w: "w = (i, bs)" by (cases w)
  have "length bs \<le> capacity s" "capacity s < 2 ^ 32"
    using Cons.prems(2) w by (auto simp: ranges_ok_def)
  then have "unat (word_of_nat (length bs) :: u32) = length bs" by (simp add: unat_of_nat)
  then obtain s1 where s1: "store_set s i bs (word_of_nat (length bs)) = Inr s1"
      "store_ok s1" "capacity s1 = capacity s"
    using set_ok [OF Cons.prems(1), of "word_of_nat (length bs)" bs i] \<open>length bs \<le> capacity s\<close> by auto
  moreover have "ranges_ok (capacity s1) ws" using Cons.prems(2) s1 by (simp add: ranges_ok_def)
  ultimately show ?case using Cons.IH [of s1] by (auto simp: w)
qed

lemma store_all_other:
  "store_ok s \<Longrightarrow> ranges_ok (capacity s) ws \<Longrightarrow> store_all s ws = Inr s' \<Longrightarrow> unat m \<le> capacity s \<Longrightarrow>
   \<forall>w \<in> set ws. circ_disjoint (capacity s) (unat (fst w)) (length (snd w)) (unat j) (unat m) \<Longrightarrow>
   store_get s' j m = store_get s j m"
proof (induction ws arbitrary: s)
  case Nil
  then show ?case by simp
next
  case (Cons w ws)
  obtain i bs where w: "w = (i, bs)" by (cases w)
  let ?n = "word_of_nat (length bs) :: u32"
  have "length bs \<le> capacity s" "capacity s < 2 ^ 32"
    using Cons.prems(2) w by (auto simp: ranges_ok_def)
  then have n: "unat ?n = length bs" by (simp add: unat_of_nat)
  obtain s1 where s1: "store_set s i bs ?n = Inr s1" "store_ok s1" "capacity s1 = capacity s"
    using set_ok [OF Cons.prems(1), of ?n bs i] \<open>length bs \<le> capacity s\<close> n by auto
  have "store_get s' j m = store_get s1 j m"
    using Cons.prems s1 w by (intro Cons.IH) (auto simp: ranges_ok_def)
  also have "\<dots> = store_get s j m"
    using Cons.prems \<open>length bs \<le> capacity s\<close> n w
    by (intro get_set_other [OF Cons.prems(1) _ _ _ s1(1)]) auto
  finally show ?case .
qed

theorem store_all_read_back:
  assumes "store_ok s" and "ranges_ok (capacity s) ws" and "store_all s ws = Inr s'" and "(i, bs) \<in> set ws"
  shows "store_get s' i (word_of_nat (length bs)) = Inr bs"
  using assms
proof (induction ws arbitrary: s)
  case Nil
  then show ?case by simp
next
  case (Cons w ws)
  obtain i1 bs1 where w: "w = (i1, bs1)" by (cases w)
  let ?n1 = "word_of_nat (length bs1) :: u32"
  have len1: "length bs1 \<le> capacity s" "capacity s < 2 ^ 32"
    using Cons.prems(2) w by (auto simp: ranges_ok_def)
  then have n1: "unat ?n1 = length bs1" by (simp add: unat_of_nat)
  obtain s1 where s1: "store_set s i1 bs1 ?n1 = Inr s1" "store_ok s1" "capacity s1 = capacity s"
    using set_ok [OF Cons.prems(1), of ?n1 bs1 i1] len1 n1 by auto
  have rest: "ranges_ok (capacity s1) ws" using Cons.prems(2) s1 by (simp add: ranges_ok_def)
  have all: "store_all s1 ws = Inr s'" using Cons.prems(3) s1 w by simp
  show ?case
  proof (cases "(i, bs) \<in> set ws")
    case True
    then show ?thesis by (rule Cons.IH [OF s1(2) rest all])
  next
    case False
    then have w': "i = i1" "bs = bs1" using Cons.prems(4) w by auto
    have "store_get s' i1 ?n1 = store_get s1 i1 ?n1"
      using Cons.prems(2) s1 w n1 len1
      by (intro store_all_other [OF s1(2) rest all]) (auto simp: ranges_ok_def intro: circ_disjoint_sym)
    also have "\<dots> = Inr bs1"
      using get_set_same [OF Cons.prems(1) _ _ s1(1)] len1 n1 by simp
    finally show ?thesis by (simp add: w')
  qed
qed

end

lemma unat_rb_cap: "rb_ok rb \<Longrightarrow> length (rb_buffer rb) = unat (rb_size rb) \<and> 0 < unat (rb_size rb)"
  by (simp add: rb_ok_def rb_wf_def)

interpretation rbs: circular_store RingBuffer_get RingBuffer_set rb_ok "\<lambda>rb. unat (rb_size rb)"
proof
  fix s :: ringbuffer and n m i j :: u32 and src bs :: "u8 list" and s'
  assume ok: "rb_ok s" and n: "unat n \<le> unat (rb_size s)"
  show "\<exists>bs. RingBuffer_get s i n = Inr bs \<and> length bs = unat n"
    using RingBuffer_get_circ [OF ok n] by simp
  show "RingBuffer_get s i n = RingBuffer_get s j n"
    if "unat i mod unat (rb_size s) = unat j mod unat (rb_size s)"
    using that RingBuffer_get_circ [OF ok n] unat_rb_cap [OF ok] circ_mod by metis
  show "RingBuffer_get s i m = Inr (take (unat m) bs)"
    if "m \<le> n" and "RingBuffer_get s i n = Inr bs"
    using that RingBuffer_get_circ [OF ok n, of i] RingBuffer_get_circ [OF ok, of m i] n
    by (auto simp: word_le_nat_alt take_circ)
  assume src: "unat n \<le> length src"
  note set = RingBuffer_set_circ [OF ok n src]
  show "\<exists>s'. RingBuffer_set s i src n = Inr s' \<and> rb_ok s' \<and> unat (rb_size s') = unat (rb_size s)"
    using set rb_ok_set_buffer [OF ok] by simp
  assume "RingBuffer_set s i src n = Inr s'"
  then have s': "s' = s\<lparr>rb_buffer := circ_put (rb_buffer s) (unat i) (take (unat n) src)\<rparr>"
    and ok': "rb_ok s'" using set rb_ok_set_buffer [OF ok] by auto
  show "RingBuffer_get s' i n = Inr (take (unat n) src)"
    using RingBuffer_get_circ [OF ok', of n i] n src unat_rb_cap [OF ok]
      circ_circ_put_same [of "take (unat n) src" "rb_buffer s" "unat i"]
    by (simp add: s' min_absorb2)
  show "RingBuffer_get s' j m = RingBuffer_get s j m"
    if "unat m \<le> unat (rb_size s)"
      and "circ_disjoint (unat (rb_size s)) (unat i) (unat n) (unat j) (unat m)"
    using that RingBuffer_get_circ [OF ok', of m j] RingBuffer_get_circ [OF ok, of m j] src
      unat_rb_cap [OF ok] circ_circ_put_disjoint [of "rb_buffer s" "unat i" "take (unat n) src" "unat j" "unat m"]
    by (simp add: s' min_absorb2)
qed

section \<open>Allocation\<close>

text \<open>The index an allocation starts from: reduced first when it is about to pass \<^verbatim>\<open>UINT32_MAX\<close>.\<close>

definition alloc_base :: "ringbuffer \<Rightarrow> u32" where
  "alloc_base rb = (if isIndexRollingOver (rb_currentIndex rb) then rb_currentIndex rb mod rb_size rb
                    else rb_currentIndex rb)"

definition alloc_after :: "ringbuffer \<Rightarrow> u32 \<Rightarrow> ringbuffer" where
  "alloc_after rb len =
     rb\<lparr>rb_currentIndex := alloc_base rb + len,
        rb_indexWrapAroundCount := rb_indexWrapAroundCount rb
          + (if isIndexRollingOver (rb_currentIndex rb) then 1 else 0)\<rparr>"

lemma isIndexRollingOver_unat: "isIndexRollingOver i \<longleftrightarrow> 4294957055 < unat i"
  by (simp add: isIndexRollingOver_def word_less_nat_alt)

lemma RingBuffer_rollover_eq:
  assumes "rb_wf rb" and "isIndexRollingOver (rb_currentIndex rb)"
  shows "RingBuffer_rollover rb k False =
    Inr (rb\<lparr>rb_currentIndex := rb_currentIndex rb mod rb_size rb, rb_indexWrapAroundCount := k\<rparr>)"
  using assms
  by (subst RingBuffer_rollover.simps) (simp add: Let_def, subst RingBuffer_rollover.simps, simp)

lemma RingBuffer_allocate_eq:
  "rb_wf rb \<Longrightarrow> RingBuffer_allocate rb len = Inr (alloc_after rb len, alloc_base rb)"
  by (simp add: RingBuffer_allocate_def RingBuffer_rollover_eq alloc_after_def alloc_base_def Let_def)

lemma alloc_base_bound: "rb_ok rb \<Longrightarrow> unat (alloc_base rb) \<le> 4294957055"
proof (cases "isIndexRollingOver (rb_currentIndex rb)")
  case True
  assume ok: "rb_ok rb"
  then have "unat (rb_currentIndex rb mod rb_size rb) < unat (rb_size rb)"
    by (simp add: rb_wf_index)
  then show ?thesis using True ok by (simp add: alloc_base_def rb_ok_def)
next
  case False
  then show ?thesis by (simp add: alloc_base_def isIndexRollingOver_unat)
qed

lemma alloc_base_mod: "unat (alloc_base rb) mod unat (rb_size rb) = unat (rb_currentIndex rb) mod unat (rb_size rb)"
  by (simp add: alloc_base_def unat_mod)

lemma rb_ok_alloc [simp]: "rb_ok (alloc_after rb len) = rb_ok rb"
  by (simp add: alloc_after_def rb_ok_def rb_wf_def)

lemma alloc_after_fields [simp]:
  "rb_size (alloc_after rb len) = rb_size rb"
  "rb_buffer (alloc_after rb len) = rb_buffer rb"
  "rb_currentIndex (alloc_after rb len) = alloc_base rb + len"
  by (simp_all add: alloc_after_def)

lemma alloc_no_wrap:
  "rb_ok rb \<Longrightarrow> unat len \<le> 10240 \<Longrightarrow> unat (alloc_base rb + len) = unat (alloc_base rb) + unat len"
  using alloc_base_bound [of rb] by (simp add: unat_add_u32)

text \<open>A run of allocations and the locations they return.\<close>

fun allocate_all :: "ringbuffer \<Rightarrow> u32 list \<Rightarrow> (ringbuffer \<times> u32 list) result" where
  "allocate_all rb [] = Inr (rb, [])"
| "allocate_all rb (len # lens) =
     bindE (RingBuffer_allocate rb len) (\<lambda>(rb1, ret).
     bindE (allocate_all rb1 lens) (\<lambda>(rb2, rets). Inr (rb2, ret # rets)))"

definition prefix_sum :: "u32 list \<Rightarrow> nat \<Rightarrow> nat" where
  "prefix_sum lens j = sum_list (map unat (take j lens))"

lemma prefix_sum_simps [simp]:
  "prefix_sum lens 0 = 0"
  "prefix_sum (len # lens) (Suc j) = unat len + prefix_sum lens j"
  by (simp_all add: prefix_sum_def)

lemma prefix_sum_mono: "i \<le> j \<Longrightarrow> prefix_sum lens i \<le> prefix_sum lens j"
  by (auto simp: prefix_sum_def dest!: le_Suc_ex simp: take_add)

lemma prefix_sum_Suc: "j < length lens \<Longrightarrow> prefix_sum lens (Suc j) = prefix_sum lens j + unat (lens ! j)"
  by (simp add: prefix_sum_def take_Suc_conv_app_nth)

lemma allocate_all_positions:
  "rb_ok rb \<Longrightarrow> \<forall>len \<in> set lens. unat len \<le> 10240 \<Longrightarrow>
   \<exists>rb' rets. allocate_all rb lens = Inr (rb', rets) \<and> length rets = length lens \<and> rb_ok rb' \<and>
     rb_size rb' = rb_size rb \<and> rb_buffer rb' = rb_buffer rb \<and>
     (\<forall>j < length lens. unat (rets ! j) mod unat (rb_size rb)
        = (unat (rb_currentIndex rb) + prefix_sum lens j) mod unat (rb_size rb)) \<and>
     unat (rb_currentIndex rb') mod unat (rb_size rb)
        = (unat (rb_currentIndex rb) + prefix_sum lens (length lens)) mod unat (rb_size rb)"
proof (induction lens arbitrary: rb)
  case Nil
  then show ?case by simp
next
  case (Cons len lens)
  let ?N = "unat (rb_size rb)" and ?rb1 = "alloc_after rb len"
  have "unat (rb_currentIndex ?rb1) = unat (alloc_base rb) + unat len"
    using Cons.prems alloc_no_wrap by simp
  then have "unat (rb_currentIndex ?rb1) mod ?N = (unat (alloc_base rb) mod ?N + unat len) mod ?N"
    by (simp add: mod_add_left_eq)
  also have "\<dots> = (unat (rb_currentIndex rb) + unat len) mod ?N"
    by (simp add: alloc_base_mod mod_add_left_eq)
  finally have cur: "(unat (rb_currentIndex ?rb1) + k) mod ?N = (unat (rb_currentIndex rb) + unat len + k) mod ?N" for k
    by (rule mod_add_cong) simp
  obtain rb' rets where IH: "allocate_all ?rb1 lens = Inr (rb', rets)" "length rets = length lens" "rb_ok rb'"
    "rb_size rb' = rb_size rb" "rb_buffer rb' = rb_buffer rb"
    "\<forall>j < length lens. unat (rets ! j) mod ?N = (unat (rb_currentIndex ?rb1) + prefix_sum lens j) mod ?N"
    "unat (rb_currentIndex rb') mod ?N = (unat (rb_currentIndex ?rb1) + prefix_sum lens (length lens)) mod ?N"
    using Cons.IH [of ?rb1] Cons.prems by auto
  have "allocate_all rb (len # lens) = Inr (rb', alloc_base rb # rets)"
    using Cons.prems IH(1) by (simp add: RingBuffer_allocate_eq)
  moreover have "unat ((alloc_base rb # rets) ! j) mod ?N
      = (unat (rb_currentIndex rb) + prefix_sum (len # lens) j) mod ?N" if "j < length (len # lens)" for j
    using that IH(6) cur by (cases j) (auto simp: alloc_base_mod add.assoc)
  ultimately show ?case using IH cur by (auto simp: add.assoc)
qed

section \<open>Properties\<close>

text \<open>Fresh memory that happens to be zero, for the concrete runs of the witnesses.\<close>

definition zeroed_ring :: ringbuffer where
  "zeroed_ring = \<lparr>rb_marker = 0, rb_version = 0, rb_buffer = [], rb_size = 0, rb_currentIndex = 0,
                  rb_threadSafe = False, rb_indexWrapAroundCount = 0\<rparr>"

lemma RingBuffer_new_ok: "0 < unat sz \<Longrightarrow> unat sz \<le> 2 ^ 31 \<Longrightarrow> rb_ok (RingBuffer_new fresh sz ts)"
  by (simp add: RingBuffer_new_def rb_ok_def rb_wf_def)

lemma RingBuffer_new_fields [simp]:
  "rb_size (RingBuffer_new fresh sz ts) = sz"
  "rb_buffer (RingBuffer_new fresh sz ts) = replicate (unat sz) 0"
  "rb_currentIndex (RingBuffer_new fresh sz ts) = rb_currentIndex fresh"
  "rb_threadSafe (RingBuffer_new fresh sz ts) = ts"
  "rb_indexWrapAroundCount (RingBuffer_new fresh sz ts) = rb_indexWrapAroundCount fresh"
  by (simp_all add: RingBuffer_new_def)

text \<open>
  C11. \<^verbatim>\<open>RingBuffer::set\<close> followed by \<^verbatim>\<open>get\<close>: on a ring of at most \<open>2 ^ 31\<close> bytes, writing up to its whole
  size at any index, wrapped round or not, stays inside the buffer, keeps the state well formed, is
  read back byte for byte at that index, and leaves what any disjoint circular range reads unchanged.
\<close>

theorem RingBuffer_set_get:
  assumes "rb_ok rb" and "unat n \<le> unat (rb_size rb)" and "unat n \<le> length src"
  shows "\<exists>rb'. RingBuffer_set rb i src n = Inr rb' \<and> rb_ok rb' \<and> rb_size rb' = rb_size rb \<and>
    rb_currentIndex rb' = rb_currentIndex rb \<and>
    RingBuffer_get rb' i n = Inr (take (unat n) src) \<and>
    (\<forall>j m. unat m \<le> unat (rb_size rb) \<longrightarrow>
       circ_disjoint (unat (rb_size rb)) (unat i) (unat n) (unat j) (unat m) \<longrightarrow>
       RingBuffer_get rb' j m = RingBuffer_get rb j m)"
proof -
  note set = RingBuffer_set_circ [OF assms, of i]
  show ?thesis
    using set rbs.get_set_same [OF assms set] rbs.get_set_other [OF assms _ set] rb_ok_set_buffer [OF assms(1)]
    by simp
qed

theorem RingBuffer_set_get_witness:
  "\<exists>rb'. RingBuffer_set (RingBuffer_new zeroed_ring 4 True) 7 [1, 2, 3] 3 = Inr rb' \<and>
     RingBuffer_get rb' 7 3 = Inr [1, 2, 3] \<and> RingBuffer_get rb' 6 1 = Inr [0]"
proof -
  have ok: "rb_ok (RingBuffer_new zeroed_ring 4 True)" by (intro RingBuffer_new_ok) simp_all
  have "circ_disjoint 4 7 3 10 1" by (rule circ_disjoint_consecutive) simp_all
  then have disj: "circ_disjoint 4 7 3 6 1"
    by (subst circ_disjoint_cong [where i' = 7 and j' = 10]) simp_all
  obtain rb' where "RingBuffer_set (RingBuffer_new zeroed_ring 4 True) 7 [1, 2, 3] 3 = Inr rb'"
      "RingBuffer_get rb' 7 3 = Inr [1, 2, 3]"
      "RingBuffer_get rb' 6 1 = RingBuffer_get (RingBuffer_new zeroed_ring 4 True) 6 1"
    using RingBuffer_set_get [OF ok, of 3 "[1, 2, 3]" 7] disj by auto
  moreover have "RingBuffer_get (RingBuffer_new zeroed_ring 4 True) 6 1 = Inr [0]"
    using RingBuffer_get_circ [OF ok, of 1 6] by (simp add: circ_def)
  ultimately show ?thesis by auto
qed

text \<open>
  C12. \<^verbatim>\<open>RingBuffer::allocate\<close> run by one thread, thread-safe or not: for a ring of at most \<open>2 ^ 31\<close> bytes and
  requests of at most 10240 bytes (the slack \<^verbatim>\<open>isIndexRollingOver\<close> leaves below \<^verbatim>\<open>UINT32_MAX\<close>), it always
  returns, the block it returns ends at or before \<^verbatim>\<open>UINT32_MAX\<close>, it starts at the same ring position the
  index had, the index moves on by exactly the request, and the wrap counter counts the reduction.
\<close>

theorem RingBuffer_allocate_spec:
  assumes "rb_ok rb" and "unat len \<le> 10240"
  shows "\<exists>rb' ret. RingBuffer_allocate rb len = Inr (rb', ret) \<and>
    unat ret + unat len \<le> 4294967295 \<and>
    unat ret mod unat (rb_size rb) = unat (rb_currentIndex rb) mod unat (rb_size rb) \<and>
    unat (rb_currentIndex rb') = unat ret + unat len \<and>
    rb_indexWrapAroundCount rb' = rb_indexWrapAroundCount rb
      + (if isIndexRollingOver (rb_currentIndex rb) then 1 else 0) \<and>
    rb_buffer rb' = rb_buffer rb \<and> rb_ok rb'"
  using assms alloc_base_bound [OF assms(1)] alloc_base_mod [of rb] alloc_no_wrap [OF assms]
  by (simp add: RingBuffer_allocate_eq) (simp add: alloc_after_def)

theorem RingBuffer_allocate_spec_witness:
  "\<exists>rb' ret. RingBuffer_allocate (RingBuffer_new (zeroed_ring\<lparr>rb_currentIndex := 4294967290\<rparr>) 1000 True) 100
      = Inr (rb', ret) \<and> unat ret + 100 \<le> 4294967295 \<and> unat ret mod 1000 = 290"
  using RingBuffer_allocate_spec
      [OF RingBuffer_new_ok, of 1000 100 "zeroed_ring\<lparr>rb_currentIndex := 4294967290\<rparr>" True]
  by auto

text \<open>
  C4. Blocks allocated one after the other and then filled are all read back, whatever the starting
  index: as long as their lengths add up to no more than the ring size, no block overwrites another,
  even when the stretch wraps round the end of the buffer or the 32-bit index is reduced in between.
\<close>

theorem RingBuffer_blocks_read_back:
  assumes "rb_ok rb" and "\<forall>bs \<in> set blocks. length bs \<le> 10240"
    and "sum_list (map length blocks) \<le> unat (rb_size rb)"
  shows "\<exists>rb1 rets rb2. allocate_all rb (map (\<lambda>bs. word_of_nat (length bs)) blocks) = Inr (rb1, rets) \<and>
    length rets = length blocks \<and>
    rbs.store_all rb1 (zip rets blocks) = Inr rb2 \<and>
    (\<forall>j < length blocks. RingBuffer_get rb2 (rets ! j) (word_of_nat (length (blocks ! j))) = Inr (blocks ! j))"
proof -
  let ?N = "unat (rb_size rb)" and ?lens = "map (\<lambda>bs. word_of_nat (length bs) :: u32) blocks"
  have len: "unat (word_of_nat (length bs) :: u32) = length bs" if "bs \<in> set blocks" for bs
    using assms(2) that by (auto simp: unat_of_nat dest!: bspec)
  then have small: "\<forall>l \<in> set ?lens. unat l \<le> 10240" using assms(2) by simp
  obtain rb1 rets where alloc: "allocate_all rb ?lens = Inr (rb1, rets)" "length rets = length blocks"
      "rb_ok rb1" "rb_size rb1 = rb_size rb"
      and pos: "\<And>j. j < length blocks \<Longrightarrow>
        unat (rets ! j) mod ?N = (unat (rb_currentIndex rb) + prefix_sum ?lens j) mod ?N"
    using allocate_all_positions [OF assms(1) small] by auto
  have total: "prefix_sum ?lens (length blocks) \<le> ?N"
    using assms(3) len by (simp add: prefix_sum_def comp_def cong: map_cong)
  have nth_len: "unat (?lens ! j) = length (blocks ! j)" if "j < length blocks" for j
    using that len by simp
  have "circ_disjoint ?N (unat (rets ! i)) (length (blocks ! i)) (unat (rets ! j)) (length (blocks ! j))"
    if "i < j" "j < length blocks" for i j
  proof -
    let ?p = "\<lambda>k. unat (rb_currentIndex rb) + prefix_sum ?lens k"
    have "?p i + length (blocks ! i) \<le> ?p j"
      using that nth_len [of i] prefix_sum_Suc [of i ?lens] prefix_sum_mono [of "Suc i" j ?lens] by simp
    moreover have "?p j + length (blocks ! j) \<le> ?p i + ?N"
      using that nth_len [of j] prefix_sum_Suc [of j ?lens] prefix_sum_mono [of "Suc j" "length blocks" ?lens]
        total by simp
    ultimately have "circ_disjoint ?N (?p i) (length (blocks ! i)) (?p j) (length (blocks ! j))"
      by (rule circ_disjoint_consecutive)
    then show ?thesis
      using pos [of i] pos [of j] that
      by (subst circ_disjoint_cong [where i' = "?p i" and j' = "?p j"]) auto
  qed
  moreover have "length bs \<le> ?N" if "bs \<in> set blocks" for bs
    using member_le_sum_list [of "length bs" "map length blocks"] that assms(3) by simp
  ultimately have "rbs.ranges_ok ?N (zip rets blocks)"
    using alloc(2) unat_u32_bound [of "rb_size rb"]
    by (auto simp: rbs.ranges_ok_def sorted_wrt_iff_nth_less dest!: set_zip_rightD)
  moreover from this obtain rb2 where rb2: "rbs.store_all rb1 (zip rets blocks) = Inr rb2"
    using rbs.store_all_ok [OF alloc(3)] alloc(4) by auto
  ultimately have "RingBuffer_get rb2 (rets ! j) (word_of_nat (length (blocks ! j))) = Inr (blocks ! j)"
    if "j < length blocks" for j
    using that alloc by (intro rbs.store_all_read_back [OF alloc(3) _ rb2]) (auto simp: in_set_zip)
  with alloc rb2 show ?thesis by auto
qed

theorem RingBuffer_blocks_read_back_witness:
  "\<exists>rb1 rets rb2.
     allocate_all (RingBuffer_new (zeroed_ring\<lparr>rb_currentIndex := 4294967294\<rparr>) 6 True) [3, 2] = Inr (rb1, rets) \<and>
     rbs.store_all rb1 (zip rets [[1, 2, 3], [4, 5]]) = Inr rb2 \<and>
     RingBuffer_get rb2 (rets ! 0) 3 = Inr [1, 2, 3] \<and> RingBuffer_get rb2 (rets ! 1) 2 = Inr [4, 5]"
proof -
  have ok: "rb_ok (RingBuffer_new (zeroed_ring\<lparr>rb_currentIndex := 4294967294\<rparr>) 6 True)"
    by (intro RingBuffer_new_ok) simp_all
  let ?bs = "[[1, 2, 3], [4, 5]] :: u8 list list"
  obtain rb1 rets rb2 where "allocate_all (RingBuffer_new (zeroed_ring\<lparr>rb_currentIndex := 4294967294\<rparr>) 6 True)
        (map (\<lambda>bs. word_of_nat (length bs)) ?bs) = Inr (rb1, rets)"
      and "rbs.store_all rb1 (zip rets ?bs) = Inr rb2"
      and get: "\<And>j. j < length ?bs \<Longrightarrow> RingBuffer_get rb2 (rets ! j) (word_of_nat (length (?bs ! j))) = Inr (?bs ! j)"
    using RingBuffer_blocks_read_back [OF ok, of ?bs] by auto
  moreover have "RingBuffer_get rb2 (rets ! 0) 3 = Inr [1, 2, 3]" using get [of 0] by simp
  moreover have "RingBuffer_get rb2 (rets ! 1) 2 = Inr [4, 5]" using get [of 1] by simp
  ultimately show ?thesis by auto
qed

lemma RingBuffer_compare_circ:
  assumes "rb_wf rb" and "unat len \<le> length p"
  shows "RingBuffer_compare rb i p len =
    Inr (if circ (rb_buffer rb) (unat i) (unat len) = take (unat len) p then 0 else - 1)"
proof -
  have "length (rb_buffer rb) = unat (rb_size rb)" using assms(1) by (simp add: rb_wf_def)
  then have "circ (rb_buffer rb) (unat (i mod rb_size rb)) (unat len) = circ (rb_buffer rb) (unat i) (unat len)"
    using circ_mod [of "rb_buffer rb" "unat i" "unat len"] by (simp add: unat_mod)
  then show ?thesis
    using assms RingBuffer_compare_loop_eq [OF assms(1) rb_wf_index [OF assms(1)], of 0 "unat len" p i]
    by (simp add: RingBuffer_compare_def)
qed

text \<open>
  C25. \<^verbatim>\<open>RingBuffer::compare\<close> returns 0 exactly when the bytes from the given index on, read round the ring,
  equal the first \<open>length\<close> bytes of the argument, and -1 otherwise; it never leaves the buffer.
\<close>

theorem RingBuffer_compare_spec:
  assumes "rb_wf rb" and "unat len \<le> length p"
  shows "RingBuffer_compare rb i p len =
    Inr (if circ (rb_buffer rb) (unat i) (unat len) = take (unat len) p then 0 else - 1)"
  using assms by (rule RingBuffer_compare_circ)

theorem RingBuffer_compare_spec_witness:
  "RingBuffer_compare (RingBuffer_new zeroed_ring 4 True) 3 [0, 0] 2 = Inr 0"
proof -
  have wf: "rb_wf (RingBuffer_new zeroed_ring 4 True)" by (simp add: rb_wf_def)
  have "circ (rb_buffer (RingBuffer_new zeroed_ring 4 True)) 3 2 = replicate 2 0"
    by (simp add: circ_replicate)
  moreover have "replicate 2 (0 :: u8) = [0, 0]" by (simp add: numeral_2_eq_2)
  ultimately show ?thesis using RingBuffer_compare_spec [OF wf, of 2 "[0, 0]" 3] by simp
qed

text \<open>
  C26. \<^verbatim>\<open>RingBuffer::getString\<close> copies the bytes from the given index up to the first zero byte, at most one
  round of the ring, without a terminator, and returns their number; it always ends, and it writes past
  the destination exactly when that string is longer than the destination.
\<close>

theorem RingBuffer_getString_spec:
  fixes i :: u32
  assumes "rb_wf rb"
  defines "str \<equiv> takeWhile (\<lambda>b. b \<noteq> 0) (circ (rb_buffer rb) (unat i) (unat (rb_size rb)))"
  shows "RingBuffer_getString rb i dst =
    (if length str \<le> length dst then Inr (str @ drop (length str) dst, word_of_nat (length str))
     else Inl OutOfBounds)"
proof -
  have "length (rb_buffer rb) = unat (rb_size rb)" using assms(1) by (simp add: rb_wf_def)
  then have "circ (rb_buffer rb) (unat (i mod rb_size rb)) n = circ (rb_buffer rb) (unat i) n" for n
    using circ_mod [of "rb_buffer rb" "unat i" n] by (simp add: unat_mod)
  then show ?thesis
    using assms(1) RingBuffer_getString_loop_eq [OF assms(1) rb_wf_index [OF assms(1)], of 0 "unat (rb_size rb)" dst str i]
    by (simp add: RingBuffer_getString_def str_def)
qed

theorem RingBuffer_getString_spec_witness:
  "RingBuffer_getString (RingBuffer_new zeroed_ring 2 True) 1 [9] = Inr ([9], 0)"
proof -
  have wf: "rb_wf (RingBuffer_new zeroed_ring 2 True)" by (simp add: rb_wf_def)
  have "circ (rb_buffer (RingBuffer_new zeroed_ring 2 True)) 1 2 = replicate 2 0"
    by (simp add: circ_replicate)
  then show ?thesis using RingBuffer_getString_spec [OF wf, of 1 "[9]"] by simp
qed

lemma RingBuffer_getInt_set:
  "rb_ok rb \<Longrightarrow> 4 \<le> unat (rb_size rb) \<Longrightarrow> RingBuffer_set rb i (u32_bytes w) 4 = Inr rb' \<Longrightarrow>
   RingBuffer_getInt rb' i = Inr w"
  using rbs.get_set_same [of rb 4 "u32_bytes w" i rb'] by (simp add: RingBuffer_getInt_def)

lemma RingBuffer_get8_set:
  "rb_ok rb \<Longrightarrow> 8 \<le> unat (rb_size rb) \<Longrightarrow> RingBuffer_set rb i (u64_bytes w) 8 = Inr rb' \<Longrightarrow>
   RingBuffer_get rb' i 8 = Inr (u64_bytes w)"
  using rbs.get_set_same [of rb 8 "u64_bytes w" i rb'] by simp

lemma RingBuffer_getByte_set:
  assumes "rb_ok rb" and "RingBuffer_set rb i [w] 1 = Inr rb'"
  shows "RingBuffer_getByte rb' i = Inr w"
proof -
  have one: "unat (1 :: u32) \<le> unat (rb_size rb)" using unat_rb_cap [OF assms(1)] by simp
  obtain rb1 where "RingBuffer_set rb i [w] 1 = Inr rb1" "rb_ok rb1" "rb_size rb1 = rb_size rb"
    using rbs.set_ok [OF assms(1) one, of "[w]" i] by (auto simp: word_unat_eq_iff)
  with assms(2) have ok: "rb_ok rb'" and sz: "unat (1 :: u32) \<le> unat (rb_size rb')"
    using one by auto
  have "RingBuffer_get rb' i 1 = Inr [w]"
    using rbs.get_set_same [OF assms(1) one _ assms(2)] by simp
  then have "rb_buffer rb' ! (unat i mod unat (rb_size rb')) = w"
    using RingBuffer_get_circ [OF ok sz, of i] unat_rb_cap [OF ok] by (simp add: circ_def)
  then show ?thesis
    using ok unat_rb_cap [OF ok] by (simp add: RingBuffer_getByte_def mem_get_def unat_mod)
qed

text \<open>
  C27. The typed getters \<^verbatim>\<open>getByte\<close>, \<^verbatim>\<open>getInt\<close>, \<^verbatim>\<open>getLong64\<close>, \<^verbatim>\<open>getDouble\<close> and \<^verbatim>\<open>getPtr\<close> return the value
  whose little-endian image was written at the index, across the end of the buffer as well.
\<close>

theorem RingBuffer_typed_getters:
  assumes "rb_ok rb" and "8 \<le> unat (rb_size rb)"
  shows "(RingBuffer_set rb i [w8] 1 = Inr rb1 \<longrightarrow> RingBuffer_getByte rb1 i = Inr w8) \<and>
    (RingBuffer_set rb i (u32_bytes w32) 4 = Inr rb2 \<longrightarrow> RingBuffer_getInt rb2 i = Inr w32) \<and>
    (RingBuffer_set rb i (u64_bytes w64) 8 = Inr rb3 \<longrightarrow>
       RingBuffer_getLong64 rb3 i = Inr w64 \<and> RingBuffer_getDouble rb3 i = Inr w64 \<and>
       RingBuffer_getPtr rb3 i = Inr w64)"
  using assms RingBuffer_getByte_set [OF assms(1)] RingBuffer_getInt_set [OF assms(1)]
    RingBuffer_get8_set [OF assms]
  by (auto simp: RingBuffer_getLong64_def RingBuffer_getDouble_def RingBuffer_getPtr_def)

theorem RingBuffer_typed_getters_witness:
  "\<exists>rb'. RingBuffer_set (RingBuffer_new zeroed_ring 10 True) 7 (u64_bytes 0x0102030405060708) 8 = Inr rb' \<and>
     RingBuffer_getLong64 rb' 7 = Inr 0x0102030405060708"
proof -
  have ok: "rb_ok (RingBuffer_new zeroed_ring 10 True)" by (intro RingBuffer_new_ok) simp_all
  obtain rb' where rb': "RingBuffer_set (RingBuffer_new zeroed_ring 10 True) 7 (u64_bytes 0x0102030405060708) 8 = Inr rb'"
    using rbs.set_ok [OF ok, of 8 "u64_bytes 0x0102030405060708" 7] by auto
  then have "RingBuffer_getLong64 rb' 7 = Inr 0x0102030405060708"
    using RingBuffer_typed_getters [OF ok, where i = 7 and ?rb3.0 = rb' and ?w64.0 = "0x0102030405060708"]
    by simp
  with rb' show ?thesis by blast
qed

text \<open>
  C28. The \<open>2 ^ 31\<close> bound of the other properties is needed: where \<^verbatim>\<open>srcIndex + length\<close> passes \<open>2 ^ 32\<close>, which
  takes a buffer of more than \<open>2 ^ 31\<close> bytes, the 32-bit sum wraps, \<^verbatim>\<open>get\<close> and \<^verbatim>\<open>set\<close> take the branch for a range that
  does not wrap round, and copy past the end of the buffer.
\<close>

theorem RingBuffer_index_overflow:
  assumes "rb_wf rb" and "unat len \<le> unat (rb_size rb)" and "unat len \<le> length src"
    and "2 ^ 32 \<le> unat i mod unat (rb_size rb) + unat len"
  shows "RingBuffer_get rb i len = Inl OutOfBounds \<and> RingBuffer_set rb i src len = Inl OutOfBounds"
proof -
  let ?s = "unat i mod unat (rb_size rb)"
  have "?s < unat (rb_size rb)" using assms(1) by (simp add: rb_wf_def)
  then have s: "?s < unat (rb_size rb)" "unat (rb_size rb) < 2 ^ 32"
    using unat_u32_bound [of "rb_size rb"] by simp_all
  have "unat (i mod rb_size rb + len) = ?s + unat len - 2 ^ 32"
    using assms(2,4) s by (simp add: unat_add_u32 unat_mod le_mod_geq)
  then have "i mod rb_size rb + len \<le> rb_size rb"
    using assms(2) s by (simp add: word_le_nat_alt)
  moreover have "length (rb_buffer rb) < unat (i mod rb_size rb) + unat len"
    using assms(1,4) s by (simp add: rb_wf_def unat_mod)
  ultimately show ?thesis
    using assms(1,3) by (simp add: RingBuffer_get_def RingBuffer_set_def mem_read_def mem_write_def)
qed

theorem RingBuffer_index_overflow_witness:
  "RingBuffer_get (RingBuffer_new zeroed_ring 4294967295 True) 4294967290 8 = Inl OutOfBounds"
proof -
  have "rb_wf (RingBuffer_new zeroed_ring 4294967295 True)" by (simp add: rb_wf_def)
  then show ?thesis
    using RingBuffer_index_overflow [of _ 8 "replicate 8 0" 4294967290] by simp
qed

end
