(* ===== verification/Ring_Concurrent.thy ===== *)
theory Ring_Concurrent
  imports Ring_Buffer
begin

text \<open>
  \<^verbatim>\<open>RingBuffer::allocate\<close> called by many threads at once, in its thread-safe variant. Every access to
  the shared \<^verbatim>\<open>currentIndex_\<close> and \<^verbatim>\<open>stats_\<close> is one step: the tests of lines 46 and 50, the loads of
  lines 49 and 51, the compare-and-swap, the store of the counter, the fetch-and-add. A thread that
  returns may call again. The blocks handed out are recorded in the order of their fetch-and-adds.
\<close>

section \<open>Steps\<close>

datatype ring_pc =
    RIdle
  | RCheck u32            \<comment> \<open>before the test of line 46, with \<open>bufferLen\<close>\<close>
  | RCount u32            \<comment> \<open>before the load of the wrap count, line 49\<close>
  | RTest u32 u32         \<comment> \<open>before the loop test, line 50; \<open>new_wrap_count\<close>, \<open>writeSuccess\<close> false\<close>
  | RLoad u32 u32         \<comment> \<open>before the load of \<open>currentIndex_\<close>, line 51\<close>
  | RCas u32 u32 u32      \<comment> \<open>before the compare-and-swap, line 53; \<open>currentIndex\<close>\<close>
  | RStats u32 u32        \<comment> \<open>swapped; before the store of line 55\<close>
  | RAdd u32              \<comment> \<open>before the fetch-and-add, line 65\<close>

record ring_sys =
  rs_index :: u32
  rs_wraps :: u32
  rs_pcs :: "ring_pc list"
  rs_blocks :: "(u32 \<times> u32) list"    \<comment> \<open>start index and length of each block handed out\<close>

text \<open>
  \<open>ring_step sz lim\<close>: one step on a ring of \<open>sz\<close> bytes whose callers ask for at most \<open>lim\<close> bytes. After
  the store of line 55 \<open>writeSuccess\<close> is true, so the loop test fails whatever the index is.
\<close>

inductive ring_step :: "u32 \<Rightarrow> nat \<Rightarrow> ring_sys \<Rightarrow> ring_sys \<Rightarrow> bool" for sz lim where
  call: "\<lbrakk> i < length (rs_pcs s); rs_pcs s ! i = RIdle; unat len \<le> lim \<rbrakk> \<Longrightarrow>
    ring_step sz lim s (s\<lparr>rs_pcs := (rs_pcs s)[i := RCheck len]\<rparr>)"
| check: "\<lbrakk> i < length (rs_pcs s); rs_pcs s ! i = RCheck len \<rbrakk> \<Longrightarrow>
    ring_step sz lim s (s\<lparr>rs_pcs := (rs_pcs s)[i := if isIndexRollingOver (rs_index s) then RCount len else RAdd len]\<rparr>)"
| count: "\<lbrakk> i < length (rs_pcs s); rs_pcs s ! i = RCount len \<rbrakk> \<Longrightarrow>
    ring_step sz lim s (s\<lparr>rs_pcs := (rs_pcs s)[i := RTest len (rs_wraps s + 1)]\<rparr>)"
| test: "\<lbrakk> i < length (rs_pcs s); rs_pcs s ! i = RTest len k \<rbrakk> \<Longrightarrow>
    ring_step sz lim s (s\<lparr>rs_pcs := (rs_pcs s)[i := if isIndexRollingOver (rs_index s) then RLoad len k else RAdd len]\<rparr>)"
| load: "\<lbrakk> i < length (rs_pcs s); rs_pcs s ! i = RLoad len k \<rbrakk> \<Longrightarrow>
    ring_step sz lim s (s\<lparr>rs_pcs := (rs_pcs s)[i := RCas len k (rs_index s)]\<rparr>)"
| swap: "\<lbrakk> i < length (rs_pcs s); rs_pcs s ! i = RCas len k cur; cas (rs_index s) cur (cur mod sz) = (index', ok) \<rbrakk> \<Longrightarrow>
    ring_step sz lim s (s\<lparr>rs_index := index', rs_pcs := (rs_pcs s)[i := if ok then RStats len k else RTest len k]\<rparr>)"
| stats: "\<lbrakk> i < length (rs_pcs s); rs_pcs s ! i = RStats len k \<rbrakk> \<Longrightarrow>
    ring_step sz lim s (s\<lparr>rs_wraps := k, rs_pcs := (rs_pcs s)[i := RAdd len]\<rparr>)"
| add: "\<lbrakk> i < length (rs_pcs s); rs_pcs s ! i = RAdd len \<rbrakk> \<Longrightarrow>
    ring_step sz lim s (s\<lparr>rs_index := rs_index s + len, rs_pcs := (rs_pcs s)[i := RIdle],
                          rs_blocks := rs_blocks s @ [(rs_index s, len)]\<rparr>)"

definition ring_init :: "u32 \<Rightarrow> u32 \<Rightarrow> nat \<Rightarrow> ring_sys" where
  "ring_init start wraps n =
     \<lparr>rs_index = start, rs_wraps = wraps, rs_pcs = replicate n RIdle, rs_blocks = []\<rparr>"

section \<open>The invariant\<close>

text \<open>The length a thread carries, and the part of it that is past the test: bytes it will add unchecked.\<close>

fun pc_len :: "ring_pc \<Rightarrow> nat" where
  "pc_len RIdle = 0"
| "pc_len (RCheck len) = unat len"
| "pc_len (RCount len) = unat len"
| "pc_len (RTest len k) = unat len"
| "pc_len (RLoad len k) = unat len"
| "pc_len (RCas len k cur) = unat len"
| "pc_len (RStats len k) = unat len"
| "pc_len (RAdd len) = unat len"

fun pc_reserved :: "ring_pc \<Rightarrow> nat" where
  "pc_reserved (RStats len k) = unat len"
| "pc_reserved (RAdd len) = unat len"
| "pc_reserved _ = 0"

definition block_sum :: "(u32 \<times> u32) list \<Rightarrow> nat \<Rightarrow> nat" where
  "block_sum bs j = prefix_sum (map snd bs) j"

definition blocks_ok :: "nat \<Rightarrow> nat \<Rightarrow> (u32 \<times> u32) list \<Rightarrow> bool" where
  "blocks_ok N start bs \<longleftrightarrow> (\<forall>j < length bs.
     unat (fst (bs ! j)) + unat (snd (bs ! j)) \<le> 4294967295 \<and>
     unat (fst (bs ! j)) mod N = (start + block_sum bs j) mod N)"

definition ring_inv :: "u32 \<Rightarrow> nat \<Rightarrow> u32 \<Rightarrow> nat \<Rightarrow> ring_sys \<Rightarrow> bool" where
  "ring_inv sz lim start n s \<longleftrightarrow>
     length (rs_pcs s) = n \<and>
     (\<forall>p \<in> set (rs_pcs s). pc_len p \<le> lim) \<and>
     unat (rs_index s) + sum_list (map pc_reserved (rs_pcs s)) \<le> 4294957055 + n * lim \<and>
     unat (rs_index s) mod unat sz = (unat start + block_sum (rs_blocks s) (length (rs_blocks s))) mod unat sz \<and>
     blocks_ok (unat sz) (unat start) (rs_blocks s) \<and>
     (\<forall>b \<in> set (rs_blocks s). unat (snd b) \<le> lim)"

lemma pc_reserved_le: "pc_reserved p \<le> pc_len p"
  by (cases p) auto

lemma pc_reserved_sum:
  "\<forall>p \<in> set ps. pc_len p \<le> lim \<Longrightarrow> sum_list (map pc_reserved ps) \<le> length ps * lim"
proof (induction ps)
  case Nil
  then show ?case by simp
next
  case (Cons p ps)
  then have "pc_reserved p \<le> lim" using pc_reserved_le [of p] by (auto intro: order_trans)
  with Cons show ?case by simp
qed

lemma block_sum_snoc [simp]:
  "j \<le> length bs \<Longrightarrow> block_sum (bs @ [b]) j = block_sum bs j"
  "block_sum (bs @ [b]) (Suc (length bs)) = block_sum bs (length bs) + unat (snd b)"
  by (simp_all add: block_sum_def prefix_sum_def)

lemma blocks_ok_snoc:
  "blocks_ok N start bs \<Longrightarrow> unat ret + unat len \<le> 4294967295 \<Longrightarrow>
   unat ret mod N = (start + block_sum bs (length bs)) mod N \<Longrightarrow>
   blocks_ok N start (bs @ [(ret, len)])"
  by (auto simp: blocks_ok_def nth_append less_Suc_eq)

lemma pcs_update_len:
  "\<forall>p \<in> set ps. pc_len p \<le> lim \<Longrightarrow> i < length ps \<Longrightarrow> pc_len p \<le> lim \<Longrightarrow>
   \<forall>q \<in> set (ps[i := p]). pc_len q \<le> lim"
  by (auto dest!: set_update_subset_insert [THEN subsetD])

text \<open>A step that only moves one thread keeps the invariant if what the thread reserves stays covered.\<close>

lemma ring_inv_move:
  assumes inv: "ring_inv sz lim start n s" and i: "i < length (rs_pcs s)"
    and p: "pc_len p \<le> lim"
    and reserve: "pc_reserved p \<le> pc_reserved (rs_pcs s ! i) \<or> unat (rs_index s) \<le> 4294957055"
  shows "ring_inv sz lim start n (s\<lparr>rs_pcs := (rs_pcs s)[i := p]\<rparr>)"
proof -
  let ?ps = "rs_pcs s"
  have len: "\<forall>q \<in> set (?ps[i := p]). pc_len q \<le> lim"
    using inv i p by (intro pcs_update_len) (auto simp: ring_inv_def)
  have "unat (rs_index s) + sum_list (map pc_reserved (?ps[i := p])) \<le> 4294957055 + n * lim"
  proof (cases "unat (rs_index s) \<le> 4294957055")
    case True
    then show ?thesis using pc_reserved_sum [OF len] inv by (simp add: ring_inv_def)
  next
    case False
    then show ?thesis
      using reserve sum_list_map_update [OF i, of pc_reserved p] inv by (simp add: ring_inv_def)
  qed
  with inv len show ?thesis by (simp add: ring_inv_def)
qed

lemma ring_inv_pc_len:
  "ring_inv sz lim start n s \<Longrightarrow> i < length (rs_pcs s) \<Longrightarrow> rs_pcs s ! i = p \<Longrightarrow> pc_len p \<le> lim"
  by (auto simp: ring_inv_def)

lemma ring_inv_wraps: "ring_inv sz lim start n s \<Longrightarrow> ring_inv sz lim start n (s\<lparr>rs_wraps := k\<rparr>)"
  by (simp add: ring_inv_def)

lemma ring_inv_swap:
  assumes inv: "ring_inv sz lim start n s" and sz: "0 < unat sz" "unat sz \<le> 2 ^ 31"
  shows "ring_inv sz lim start n (s\<lparr>rs_index := rs_index s mod sz\<rparr>) \<and> unat (rs_index s mod sz) \<le> 4294957055"
proof -
  have "unat (rs_index s mod sz) < unat sz" unfolding unat_mod using sz(1) by (rule mod_less_divisor)
  then have small: "unat (rs_index s mod sz) \<le> 4294957055" using sz(2) by simp
  have same: "unat (rs_index s mod sz) mod unat sz = unat (rs_index s) mod unat sz"
    by (simp add: unat_mod)
  have "sum_list (map pc_reserved (rs_pcs s)) \<le> n * lim"
    using pc_reserved_sum [of "rs_pcs s" lim] inv by (simp add: ring_inv_def)
  then have "unat (rs_index s mod sz) + sum_list (map pc_reserved (rs_pcs s)) \<le> 4294957055 + n * lim"
    using small by (rule add_mono [rotated])
  then show ?thesis using inv small same by (simp add: ring_inv_def)
qed

lemma ring_inv_add:
  assumes inv: "ring_inv sz lim start n s" and i: "i < length (rs_pcs s)" "rs_pcs s ! i = RAdd len"
    and slack: "n * lim \<le> 10240"
  shows "ring_inv sz lim start n (s\<lparr>rs_index := rs_index s + len, rs_pcs := (rs_pcs s)[i := RIdle],
    rs_blocks := rs_blocks s @ [(rs_index s, len)]\<rparr>)"
proof -
  let ?ps = "rs_pcs s" and ?N = "unat sz"
  have sum: "sum_list (map pc_reserved (?ps[i := RIdle])) + unat len = sum_list (map pc_reserved ?ps)"
    using sum_list_map_update [OF i(1), of pc_reserved RIdle] i(2) by simp
  then have fits: "unat (rs_index s) + unat len \<le> 4294967295"
    using inv slack by (simp add: ring_inv_def)
  then have index: "unat (rs_index s + len) = unat (rs_index s) + unat len"
    by (simp add: unat_add_u32)
  have pos: "unat (rs_index s) mod ?N = (unat start + block_sum (rs_blocks s) (length (rs_blocks s))) mod ?N"
    using inv by (simp add: ring_inv_def)
  then have "(unat (rs_index s) + unat len) mod ?N
      = (unat start + block_sum (rs_blocks s) (length (rs_blocks s)) + unat len) mod ?N"
    by (rule mod_add_cong) simp
  moreover have "blocks_ok ?N (unat start) (rs_blocks s @ [(rs_index s, len)])"
    using inv fits pos by (intro blocks_ok_snoc) (simp_all add: ring_inv_def)
  moreover have "\<forall>q \<in> set (?ps[i := RIdle]). pc_len q \<le> lim"
    using inv i(1) by (intro pcs_update_len) (auto simp: ring_inv_def)
  moreover have "unat len \<le> lim" using ring_inv_pc_len [OF inv i] by simp
  ultimately show ?thesis
    using inv sum index by (auto simp: ring_inv_def add.assoc)
qed

lemma ring_step_inv:
  assumes "ring_step sz lim s t" and "ring_inv sz lim start n s"
    and "n * lim \<le> 10240" and "0 < unat sz" and "unat sz \<le> 2 ^ 31"
  shows "ring_inv sz lim start n t"
  using assms
proof (induction rule: ring_step.induct)
  case (call i s len)
  then show ?case by (intro ring_inv_move) auto
next
  case (check i s len)
  then show ?case
    by (intro ring_inv_move) (auto simp: isIndexRollingOver_unat dest: ring_inv_pc_len)
next
  case (count i s len)
  then show ?case by (intro ring_inv_move) (auto dest: ring_inv_pc_len)
next
  case (test i s len k)
  then show ?case
    by (intro ring_inv_move) (auto simp: isIndexRollingOver_unat dest: ring_inv_pc_len)
next
  case (load i s len k)
  then show ?case by (intro ring_inv_move) (auto dest: ring_inv_pc_len)
next
  case (swap i s len k cur index' ok)
  have len: "unat len \<le> lim" using ring_inv_pc_len [OF swap.prems(1) swap.hyps(1,2)] by simp
  show ?case
  proof (cases ok)
    case True
    then have "index' = rs_index s mod sz" using swap.hyps(3) by (auto simp: cas_def split: if_splits)
    then show ?thesis
      using True len swap ring_inv_swap [OF swap.prems(1,3,4)]
        ring_inv_move [of sz lim start n "s\<lparr>rs_index := rs_index s mod sz\<rparr>" i "RStats len k"] by simp
  next
    case False
    then have "index' = rs_index s" using swap.hyps(3) by (auto simp: cas_def split: if_splits)
    then show ?thesis
      using False len swap ring_inv_move [of sz lim start n s i "RTest len k"] by simp
  qed
next
  case (stats i s len k)
  then have "ring_inv sz lim start n (s\<lparr>rs_pcs := (rs_pcs s)[i := RAdd len]\<rparr>)"
    by (intro ring_inv_move) (auto dest: ring_inv_pc_len)
  from ring_inv_wraps [OF this, of k] show ?case by (simp add: ring_inv_def)
next
  case (add i s len)
  then show ?case by (intro ring_inv_add)
qed

lemma ring_inv_init:
  "unat start \<le> 4294957055 \<Longrightarrow> ring_inv sz lim start n (ring_init start wraps n)"
  by (simp add: ring_inv_def ring_init_def block_sum_def blocks_ok_def sum_list_replicate)

lemma ring_steps_inv:
  assumes "(ring_step sz lim)\<^sup>*\<^sup>* (ring_init start wraps n) s" and "unat start \<le> 4294957055"
    and "n * lim \<le> 10240" and "0 < unat sz" and "unat sz \<le> 2 ^ 31"
  shows "ring_inv sz lim start n s"
  using assms(1)
  by (induction rule: rtranclp_induct) (auto intro: ring_inv_init ring_step_inv assms)

section \<open>Properties\<close>

text \<open>
  C8. Threads in \<^verbatim>\<open>allocate\<close> get consecutive blocks: for \<open>n\<close> threads asking for at most \<open>lim\<close> bytes with
  \<open>n * lim \<le> 10240\<close>, in every reachable state of every interleaving, each block handed out ends at or before
  \<^verbatim>\<open>UINT32_MAX\<close> and starts, modulo the ring size, where the blocks before it end; so blocks whose
  lengths (with those between them) fit in the ring do not overlap, index reductions included.
\<close>

theorem concurrent_blocks_consecutive:
  assumes "(ring_step sz lim)\<^sup>*\<^sup>* (ring_init start wraps n) s"
    and "unat start \<le> 4294957055" and "n * lim \<le> 10240" and "0 < unat sz" and "unat sz \<le> 2 ^ 31"
    and "j \<le> k" and "k < length (rs_blocks s)"
  shows "unat (fst (rs_blocks s ! k)) + unat (snd (rs_blocks s ! k)) \<le> 4294967295 \<and>
    unat (fst (rs_blocks s ! k)) mod unat sz = (unat start + block_sum (rs_blocks s) k) mod unat sz \<and>
    (j < k \<and> block_sum (rs_blocks s) (Suc k) \<le> block_sum (rs_blocks s) j + unat sz \<longrightarrow>
       circ_disjoint (unat sz) (unat (fst (rs_blocks s ! j))) (unat (snd (rs_blocks s ! j)))
         (unat (fst (rs_blocks s ! k))) (unat (snd (rs_blocks s ! k))))"
proof -
  let ?bs = "rs_blocks s" and ?N = "unat sz"
  have ok: "blocks_ok ?N (unat start) ?bs"
    using ring_steps_inv [OF assms(1-5)] by (simp add: ring_inv_def)
  have sum: "block_sum ?bs (Suc i) = block_sum ?bs i + unat (snd (?bs ! i))" if "i < length ?bs" for i
    using that by (simp add: block_sum_def prefix_sum_Suc)
  have "circ_disjoint ?N (unat (fst (?bs ! j))) (unat (snd (?bs ! j))) (unat (fst (?bs ! k))) (unat (snd (?bs ! k)))"
    if "j < k" and fit: "block_sum ?bs (Suc k) \<le> block_sum ?bs j + ?N"
  proof -
    let ?p = "\<lambda>i. unat start + block_sum ?bs i"
    have "block_sum ?bs (Suc j) \<le> block_sum ?bs k"
      using \<open>j < k\<close> prefix_sum_mono [of "Suc j" k] by (simp add: block_sum_def)
    then have "?p j + unat (snd (?bs ! j)) \<le> ?p k"
      using sum [of j] assms(7) \<open>j < k\<close> by simp
    moreover have "?p k + unat (snd (?bs ! k)) \<le> ?p j + ?N"
      using fit sum [of k] assms(7) by simp
    ultimately have "circ_disjoint ?N (?p j) (unat (snd (?bs ! j))) (?p k) (unat (snd (?bs ! k)))"
      by (rule circ_disjoint_consecutive)
    then show ?thesis
      using ok assms(7) \<open>j < k\<close>
      by (subst circ_disjoint_cong [where i' = "?p j" and j' = "?p k"]) (auto simp: blocks_ok_def)
  qed
  then show ?thesis using ok assms(7) by (auto simp: blocks_ok_def)
qed

text \<open>Runs are built step by step, from a list of thread numbers and the lengths they ask for.\<close>

lemma ring_fast_path:
  assumes "i < length (rs_pcs s)" and "rs_pcs s ! i = RIdle" and "unat len \<le> lim"
    and "\<not> isIndexRollingOver (rs_index s)"
  shows "(ring_step sz lim)\<^sup>*\<^sup>* s (s\<lparr>rs_pcs := (rs_pcs s)[i := RAdd len]\<rparr>)"
proof -
  let ?s1 = "s\<lparr>rs_pcs := (rs_pcs s)[i := RCheck len]\<rparr>"
  have "ring_step sz lim s ?s1" using assms(1-3) by (rule ring_step.call)
  moreover have "ring_step sz lim ?s1 (s\<lparr>rs_pcs := (rs_pcs s)[i := RAdd len]\<rparr>)"
    using assms ring_step.check [of i ?s1 len sz lim] by simp
  ultimately show ?thesis by (auto intro: converse_rtranclp_into_rtranclp)
qed

lemma two_blocks_run:
  "(ring_step 100 4096)\<^sup>*\<^sup>* (ring_init 90 0 2)
     \<lparr>rs_index = 120, rs_wraps = 0, rs_pcs = [RIdle, RIdle], rs_blocks = [(90, 20), (110, 10)]\<rparr>"
proof -
  let ?s0 = "\<lparr>rs_index = 90, rs_wraps = 0, rs_pcs = [RIdle, RIdle], rs_blocks = []\<rparr>"
  let ?s1 = "\<lparr>rs_index = 90, rs_wraps = 0, rs_pcs = [RAdd 10, RIdle], rs_blocks = []\<rparr>"
  let ?s2 = "\<lparr>rs_index = 90, rs_wraps = 0, rs_pcs = [RAdd 10, RAdd 20], rs_blocks = []\<rparr>"
  let ?s3 = "\<lparr>rs_index = 110, rs_wraps = 0, rs_pcs = [RAdd 10, RIdle], rs_blocks = [(90, 20)]\<rparr>"
  let ?s4 = "\<lparr>rs_index = 120, rs_wraps = 0, rs_pcs = [RIdle, RIdle], rs_blocks = [(90, 20), (110, 10)]\<rparr>"
  have init: "ring_init 90 0 2 = ?s0" by (simp add: ring_init_def numeral_2_eq_2)
  have "(ring_step 100 4096)\<^sup>*\<^sup>* ?s0 ?s1"
    using ring_fast_path [of 0 ?s0 10 4096 100] by (simp add: isIndexRollingOver_def)
  moreover have "(ring_step 100 4096)\<^sup>*\<^sup>* ?s1 ?s2"
    using ring_fast_path [of 1 ?s1 20 4096 100] by (simp add: isIndexRollingOver_def)
  ultimately have "(ring_step 100 4096)\<^sup>*\<^sup>* ?s0 ?s2" by (rule rtranclp_trans)
  moreover have "ring_step 100 4096 ?s2 ?s3" using ring_step.add [of 1 ?s2 20] by simp
  ultimately have "(ring_step 100 4096)\<^sup>*\<^sup>* ?s0 ?s3" by (rule rtranclp.rtrancl_into_rtrancl)
  moreover have "ring_step 100 4096 ?s3 ?s4" using ring_step.add [of 0 ?s3 10] by simp
  ultimately show ?thesis unfolding init by (rule rtranclp.rtrancl_into_rtrancl)
qed

theorem concurrent_blocks_consecutive_witness:
  "circ_disjoint 100 90 20 110 10"
  using concurrent_blocks_consecutive [OF two_blocks_run, of 0 1]
  by (simp add: block_sum_def prefix_sum_def)

text \<open>
  C9. Within the slack of the rollover test concurrent allocation refines the sequential one: for \<open>n\<close> threads that ask
  for at most \<open>lim\<close> bytes each, with \<open>n * lim \<le> 10240\<close>, on a well-formed ring of at most \<open>2 ^ 31\<close> bytes whose index starts
  at most at \<open>4294957055\<close> (where the test of line 46 fails), the blocks handed out by any interleaving start at the same
  ring positions as those of one thread that allocates the same lengths in the order of the fetch-and-adds.
  The bound is needed: three threads that ask for 4096 bytes each break it, see below.
\<close>

theorem concurrent_refines_sequential:
  assumes "(ring_step sz lim)\<^sup>*\<^sup>* (ring_init start wraps n) s"
    and "unat start \<le> 4294957055" and "0 < n" and "n * lim \<le> 10240" and "rb_ok rb"
    and "rb_size rb = sz" and "rb_currentIndex rb = start"
  shows "\<exists>rb' rets. allocate_all rb (map snd (rs_blocks s)) = Inr (rb', rets) \<and>
    map (\<lambda>ret. unat ret mod unat sz) rets = map (\<lambda>b. unat (fst b) mod unat sz) (rs_blocks s)"
proof -
  let ?lens = "map snd (rs_blocks s)" and ?N = "unat sz"
  have sz: "0 < unat sz" "unat sz \<le> 2 ^ 31" using assms(5,6) by (auto simp: rb_ok_def rb_wf_def)
  have inv: "ring_inv sz lim start n s"
    using ring_steps_inv [OF assms(1,2,4) sz] .
  have "lim \<le> n * lim" using assms(3) by simp
  then have lim: "lim \<le> 10240" using assms(4) by linarith
  have "\<forall>b \<in> set (rs_blocks s). unat (snd b) \<le> lim" using inv by (simp add: ring_inv_def)
  then have "\<forall>len \<in> set ?lens. unat len \<le> 10240" using lim by fastforce
  then obtain rb' rets where seq: "allocate_all rb ?lens = Inr (rb', rets)" "length rets = length ?lens"
      and pos: "\<forall>j < length ?lens. unat (rets ! j) mod ?N = (unat start + prefix_sum ?lens j) mod ?N"
    using allocate_all_positions [OF assms(5), of ?lens] assms(6,7) by auto
  have "map (\<lambda>ret. unat ret mod ?N) rets = map (\<lambda>b. unat (fst b) mod ?N) (rs_blocks s)"
    using seq(2) pos inv
    by (intro nth_equalityI) (auto simp: ring_inv_def blocks_ok_def block_sum_def)
  with seq(1) show ?thesis by blast
qed

theorem concurrent_refines_sequential_witness:
  "\<exists>rb' rets. allocate_all (RingBuffer_new (zeroed_ring\<lparr>rb_currentIndex := 90\<rparr>) 100 True) [20, 10] = Inr (rb', rets) \<and>
     map (\<lambda>ret. unat ret mod 100) rets = [90, 10]"
proof -
  have ok: "rb_ok (RingBuffer_new (zeroed_ring\<lparr>rb_currentIndex := 90\<rparr>) 100 True)"
    by (intro RingBuffer_new_ok) simp_all
  show ?thesis using concurrent_refines_sequential [OF two_blocks_run _ _ _ ok] by simp
qed

text \<open>
  C32. The bound \<open>n * lim \<le> 10240\<close> on concurrent allocations cannot be dropped: three threads that allocate 4096 bytes each, the largest
  record the logger writes, on the logger's default ring of 20 MiB can all pass the test of line 46 before the
  first of them adds. The index then wraps at \<open>2 ^ 32\<close>, which is no multiple of the ring size, and the next block
  does not start where the third one ends but 16 MiB before that place, in the middle of older records.
\<close>

theorem concurrent_index_overflow:
  "\<exists>s. (ring_step 20971520 4096)\<^sup>*\<^sup>* (ring_init 4294957055 0 3) s \<and>
     map (\<lambda>b. unat (snd b)) (rs_blocks s) = [4096, 4096, 4096] \<and>
     unat (fst (rs_blocks s ! 2)) + unat (snd (rs_blocks s ! 2)) > 4294967295 \<and>
     unat (rs_index s) mod 20971520 \<noteq> (4294957055 + block_sum (rs_blocks s) 3) mod 20971520"
proof -
  let ?R = "(ring_step 20971520 4096)\<^sup>*\<^sup>*"
  let ?s0 = "\<lparr>rs_index = 4294957055, rs_wraps = 0, rs_pcs = [RIdle, RIdle, RIdle], rs_blocks = []\<rparr>"
  let ?s1 = "\<lparr>rs_index = 4294957055, rs_wraps = 0, rs_pcs = [RAdd 4096, RIdle, RIdle], rs_blocks = []\<rparr>"
  let ?s2 = "\<lparr>rs_index = 4294957055, rs_wraps = 0, rs_pcs = [RAdd 4096, RAdd 4096, RIdle], rs_blocks = []\<rparr>"
  let ?s3 = "\<lparr>rs_index = 4294957055, rs_wraps = 0, rs_pcs = [RAdd 4096, RAdd 4096, RAdd 4096], rs_blocks = []\<rparr>"
  let ?s4 = "\<lparr>rs_index = 4294961151, rs_wraps = 0, rs_pcs = [RIdle, RAdd 4096, RAdd 4096],
      rs_blocks = [(4294957055, 4096)]\<rparr>"
  let ?s5 = "\<lparr>rs_index = 4294965247, rs_wraps = 0, rs_pcs = [RIdle, RIdle, RAdd 4096],
      rs_blocks = [(4294957055, 4096), (4294961151, 4096)]\<rparr>"
  let ?s6 = "\<lparr>rs_index = 4294965247 + 4096, rs_wraps = 0, rs_pcs = [RIdle, RIdle, RIdle],
      rs_blocks = [(4294957055, 4096), (4294961151, 4096), (4294965247, 4096)]\<rparr>"
  have init: "ring_init 4294957055 0 3 = ?s0" by (simp add: ring_init_def eval_nat_numeral)
  have "?R ?s0 ?s1"
    using ring_fast_path [of 0 ?s0 4096 4096 20971520] by (simp add: isIndexRollingOver_def)
  moreover have "?R ?s1 ?s2"
    using ring_fast_path [of 1 ?s1 4096 4096 20971520] by (simp add: isIndexRollingOver_def)
  ultimately have "?R ?s0 ?s2" by (rule rtranclp_trans)
  moreover have "?R ?s2 ?s3"
    using ring_fast_path [of 2 ?s2 4096 4096 20971520] by (simp add: isIndexRollingOver_def)
  ultimately have "?R ?s0 ?s3" by (rule rtranclp_trans)
  moreover have "ring_step 20971520 4096 ?s3 ?s4" using ring_step.add [of 0 ?s3 4096] by simp
  ultimately have "?R ?s0 ?s4" by (rule rtranclp.rtrancl_into_rtrancl)
  moreover have "ring_step 20971520 4096 ?s4 ?s5" using ring_step.add [of 1 ?s4 4096] by simp
  ultimately have "?R ?s0 ?s5" by (rule rtranclp.rtrancl_into_rtrancl)
  moreover have "ring_step 20971520 4096 ?s5 ?s6"
    using ring_step.add [of 2 ?s5 4096 20971520 4096] by (simp only: ring_sys.simps) simp
  ultimately have "?R ?s0 ?s6" by (rule rtranclp.rtrancl_into_rtrancl)
  then have "?R (ring_init 4294957055 0 3) ?s6" by (simp only: init)
  moreover have "block_sum (rs_blocks ?s6) 3 = 12288"
    by (simp add: block_sum_def prefix_sum_def)
  ultimately show ?thesis by (intro exI [of _ ?s6]) (simp add: unat_add_u32)
qed

end
