(* ===== verification/C_Format.thy ===== *)
theory C_Format
  imports Prelude
begin

text \<open>
  What the sources use of the C library: NUL-terminated strings in memory, the arguments of a variadic
  call, and one printf directive at a time. \<open>c_sprintf\<close> follows C11 7.21.6.1 for the conversions
  d i u o x X c f p with flags, width, precision and the length modifiers h hh l ll, and glibc where
  the standard leaves the result to the implementation (\<open>%p\<close>, and flags that have no defined
  meaning for a conversion are ignored).

  Arguments keep the width they were passed with. On x86-64 an integer occupies a 64-bit slot, so
  reading 32 bits of a 64-bit integer yields its low half (the test program passes \<open>1000L\<close>
  to \<open>%d\<close>); reading 64 bits where 32 were passed yields an indeterminate upper half and is a fault.
\<close>

section \<open>Bytes, characters, strings\<close>

definition byte_of :: "char \<Rightarrow> u8" where
  "byte_of c = word_of_nat (of_char c)"

definition char_of_byte :: "u8 \<Rightarrow> char" where
  "char_of_byte b = char_of (unat b)"

lemma char_of_byte_of [simp]: "char_of_byte (byte_of c) = c"
  by (simp add: char_of_byte_def byte_of_def unat_u8_of_nat)

lemma byte_of_char_of [simp]: "byte_of (char_of_byte b) = b"
  using unat_u8_bound [of b] by (simp add: char_of_byte_def byte_of_def)

lemma byte_of_inj [simp]: "byte_of c = byte_of d \<longleftrightarrow> c = d"
  by (metis char_of_byte_of)

abbreviation NUL :: char where "NUL \<equiv> CHR 0x00"

lemma byte_of_eq_0 [simp]: "byte_of c = 0 \<longleftrightarrow> c = NUL"
proof -
  have "byte_of NUL = 0" by (simp add: byte_of_def)
  then show ?thesis by (metis byte_of_inj)
qed

definition bytes_of :: "string \<Rightarrow> u8 list" where
  "bytes_of s = map byte_of s"

lemma length_bytes_of [simp]: "length (bytes_of s) = length s"
  by (simp add: bytes_of_def)

lemma bytes_of_append [simp]: "bytes_of (s @ t) = bytes_of s @ bytes_of t"
  by (simp add: bytes_of_def)

lemma bytes_of_simps [simp]: "bytes_of [] = []" "bytes_of (c # s) = byte_of c # bytes_of s"
  by (simp_all add: bytes_of_def)

text \<open>
  A C string is the list of its characters without the terminator. \<open>cchar s i\<close> is \<^verbatim>\<open>s[i]\<close> for
  indices up to the terminator; the code never indexes beyond it.
\<close>

definition cchar :: "string \<Rightarrow> nat \<Rightarrow> char" where
  "cchar s i = (if i < length s then s ! i else NUL)"

lemma cchar_simps [simp]:
  "cchar [] i = NUL"
  "cchar (c # s) 0 = c"
  "cchar (c # s) (Suc i) = cchar s i"
  by (simp_all add: cchar_def)

definition c_string :: "string \<Rightarrow> bool" where
  "c_string s \<longleftrightarrow> NUL \<notin> set s"

text \<open>The constant strings of the process: what a pointer to characters points at.\<close>

type_synonym cmem = "u64 \<Rightarrow> string option"

definition deref_string :: "cmem \<Rightarrow> u64 \<Rightarrow> string result" where
  "deref_string M p = (case M p of None \<Rightarrow> Inl NullDeref | Some s \<Rightarrow> Inr s)"

section \<open>Variadic arguments\<close>

datatype carg =
    CInt u32       \<comment> \<open>\<^verbatim>\<open>int\<close>, \<^verbatim>\<open>unsigned\<close> and everything promoted to them\<close>
  | CLong u64      \<comment> \<open>\<^verbatim>\<open>long\<close>, \<^verbatim>\<open>long long\<close> and their unsigned kin\<close>
  | CDouble u64    \<comment> \<open>the bits of a \<^verbatim>\<open>double\<close>\<close>
  | CPtr u64

fun va_int :: "carg list \<Rightarrow> (u32 \<times> carg list) result" where
  "va_int (CInt w # as) = Inr (w, as)"
| "va_int (CLong w # as) = Inr (ucast w, as)"
| "va_int _ = Inl BadVarArg"

fun va_long :: "carg list \<Rightarrow> (u64 \<times> carg list) result" where
  "va_long (CLong w # as) = Inr (w, as)"
| "va_long _ = Inl BadVarArg"

fun va_double :: "carg list \<Rightarrow> (u64 \<times> carg list) result" where
  "va_double (CDouble w # as) = Inr (w, as)"
| "va_double _ = Inl BadVarArg"

fun va_ptr :: "carg list \<Rightarrow> (u64 \<times> carg list) result" where
  "va_ptr (CPtr w # as) = Inr (w, as)"
| "va_ptr _ = Inl BadVarArg"

section \<open>Digits\<close>

definition c_digits :: string where
  "c_digits = ''0123456789''"

definition isdigit :: "char \<Rightarrow> bool" where
  "isdigit c \<longleftrightarrow> c \<in> set c_digits"

definition digit_char :: "nat \<Rightarrow> char" where
  "digit_char d = ''0123456789abcdef'' ! d"

fun digits_of :: "nat \<Rightarrow> nat \<Rightarrow> string" where
  "digits_of b n =
     (if b < 2 \<or> n < b then [digit_char n] else digits_of b (n div b) @ [digit_char (n mod b)])"

declare digits_of.simps [simp del]

definition dec :: "nat \<Rightarrow> string" where
  "dec n = digits_of 10 n"

definition dec_int :: "int \<Rightarrow> string" where
  "dec_int i = (if i < 0 then CHR ''-'' # dec (nat (- i)) else dec (nat i))"

definition digits_val :: "string \<Rightarrow> nat" where
  "digits_val s = foldl (\<lambda>n c. 10 * n + (of_char c - 48)) 0 s"

definition upcase :: "char \<Rightarrow> char" where
  "upcase c = (if 97 \<le> (of_char c :: nat) \<and> (of_char c :: nat) \<le> 122 then char_of ((of_char c :: nat) - 32) else c)"

section \<open>One printf directive\<close>

record printf_spec =
  pf_flags :: string
  pf_width :: nat
  pf_prec :: "nat option"
  pf_len :: string
  pf_conv :: char

definition parse_directive :: "string \<Rightarrow> printf_spec" where
  "parse_directive d =
     (let s0 = tl d;
          flags = takeWhile (\<lambda>c. c \<in> set ''0 #-+'') s0;
          s1 = drop (length flags) s0;
          w = takeWhile isdigit s1;
          s2 = drop (length w) s1;
          (prec, s3) =
            (if cchar s2 0 = CHR ''.''
             then (let p = takeWhile isdigit (tl s2)
                   in (Some (digits_val p), drop (length p) (tl s2)))
             else (None, s2));
          len = takeWhile (\<lambda>c. c \<in> set ''hl'') s3
      in \<lparr>pf_flags = flags, pf_width = digits_val w, pf_prec = prec, pf_len = len,
          pf_conv = cchar (drop (length len) s3) 0\<rparr>)"

definition pad :: "printf_spec \<Rightarrow> bool \<Rightarrow> string \<Rightarrow> string \<Rightarrow> string" where
  "pad sp zero_ok prefix body =
     (let fill = pf_width sp - (length prefix + length body) in
      if CHR ''-'' \<in> set (pf_flags sp) then prefix @ body @ replicate fill (CHR '' '')
      else if zero_ok \<and> CHR ''0'' \<in> set (pf_flags sp) then prefix @ replicate fill (CHR ''0'') @ body
      else replicate fill (CHR '' '') @ prefix @ body)"

definition sign_text :: "printf_spec \<Rightarrow> bool \<Rightarrow> string" where
  "sign_text sp negative =
     (if negative then ''-''
      else if CHR ''+'' \<in> set (pf_flags sp) then ''+''
      else if CHR '' '' \<in> set (pf_flags sp) then '' '' else '''')"

definition int_digits :: "printf_spec \<Rightarrow> nat \<Rightarrow> nat \<Rightarrow> string" where
  "int_digits sp base n =
     (let ds = (if pf_prec sp = Some 0 \<and> n = 0 then '''' else digits_of base n);
          p = (case pf_prec sp of None \<Rightarrow> 1 | Some p \<Rightarrow> p)
      in replicate (p - length ds) (CHR ''0'') @ ds)"

definition fmt_signed :: "printf_spec \<Rightarrow> int \<Rightarrow> string" where
  "fmt_signed sp v =
     pad sp (pf_prec sp = None) (sign_text sp (v < 0)) (int_digits sp 10 (nat \<bar>v\<bar>))"

definition fmt_unsigned :: "printf_spec \<Rightarrow> nat \<Rightarrow> string" where
  "fmt_unsigned sp n =
     (let alt = CHR ''#'' \<in> set (pf_flags sp); z = (pf_prec sp = None) in
      if pf_conv sp = CHR ''x'' then pad sp z (if alt \<and> n \<noteq> 0 then ''0x'' else '''') (int_digits sp 16 n)
      else if pf_conv sp = CHR ''X''
        then pad sp z (if alt \<and> n \<noteq> 0 then ''0X'' else '''') (map upcase (int_digits sp 16 n))
      else if pf_conv sp = CHR ''o''
        then (let ds = int_digits sp 8 n
              in pad sp z '''' (if alt \<and> cchar ds 0 \<noteq> CHR ''0'' then CHR ''0'' # ds else ds))
      else pad sp z '''' (int_digits sp 10 n))"

text \<open>
  An integer argument under a length modifier, as signed and as unsigned value. The promotions have
  been applied, so h and hh cut the value down again.
\<close>

definition int_arg :: "string \<Rightarrow> carg \<Rightarrow> (int \<times> nat) result" where
  "int_arg len a =
     (case a of
        CInt w \<Rightarrow>
          (if len = '''' then Inr (sint w, unat w)
           else if len = ''h'' then Inr (sint (ucast w :: u16), unat (ucast w :: u16))
           else if len = ''hh'' then Inr (sint (ucast w :: u8), unat (ucast w :: u8))
           else Inl BadVarArg)
      | CLong w \<Rightarrow>
          (if len = '''' then Inr (sint (ucast w :: u32), unat (ucast w :: u32))
           else if len = ''h'' then Inr (sint (ucast w :: u16), unat (ucast w :: u16))
           else if len = ''hh'' then Inr (sint (ucast w :: u8), unat (ucast w :: u8))
           else if len = ''l'' \<or> len = ''ll'' then Inr (sint w, unat w)
           else Inl BadVarArg)
      | _ \<Rightarrow> Inl BadVarArg)"

text \<open>
  \<open>%f\<close>: the exact binary value, scaled by \<open>10 ^ p\<close> and rounded half to even.
\<close>

definition round_half_even :: "nat \<Rightarrow> nat \<Rightarrow> nat" where
  "round_half_even n d =
     (let q = n div d; r = n mod d
      in if 2 * r < d \<or> (2 * r = d \<and> even q) then q else q + 1)"

definition double_scaled :: "u64 \<Rightarrow> nat \<Rightarrow> nat" where
  "double_scaled w p =
     (let e = unat w div 2 ^ 52 mod 2 ^ 11; f = unat w mod 2 ^ 52;
          m = (if e = 0 then f else 2 ^ 52 + f); k = (if e = 0 then 1 else e)
      in if 1075 \<le> k then m * 2 ^ (k - 1075) * 10 ^ p else round_half_even (m * 10 ^ p) (2 ^ (1075 - k)))"

definition fmt_double :: "printf_spec \<Rightarrow> u64 \<Rightarrow> string" where
  "fmt_double sp w =
     (let e = unat w div 2 ^ 52 mod 2 ^ 11; f = unat w mod 2 ^ 52;
          sign = sign_text sp (2 ^ 63 \<le> unat w)
      in if e = 2047 then pad sp False sign (if f = 0 then ''inf'' else ''nan'')
         else (let p = (case pf_prec sp of None \<Rightarrow> 6 | Some p \<Rightarrow> p);
                   v = double_scaled w p;
                   whole = dec (v div 10 ^ p);
                   frac = dec (v mod 10 ^ p);
                   frac' = replicate (p - length frac) (CHR ''0'') @ frac
               in pad sp True sign
                    (if p = 0 then whole @ (if CHR ''#'' \<in> set (pf_flags sp) then ''.'' else '''')
                     else whole @ ''.'' @ frac')))"

definition c_sprintf :: "string \<Rightarrow> carg \<Rightarrow> string result" where
  "c_sprintf d a =
     (let sp = parse_directive d; conv = pf_conv sp in
      if conv \<in> set ''di'' then bindE (int_arg (pf_len sp) a) (\<lambda>(i, n). Inr (fmt_signed sp i))
      else if conv \<in> set ''uoxX'' then bindE (int_arg (pf_len sp) a) (\<lambda>(i, n). Inr (fmt_unsigned sp n))
      else if conv = CHR ''c''
        then bindE (int_arg '''' a) (\<lambda>(i, n). Inr (pad sp False '''' [char_of (n mod 256)]))
      else if conv = CHR ''f''
        then (case a of CDouble w \<Rightarrow> Inr (fmt_double sp w) | _ \<Rightarrow> Inl BadVarArg)
      else if conv = CHR ''p''
        then (case a of
                CPtr p \<Rightarrow> Inr (if p = 0 then pad sp False '''' ''(nil)''
                               else pad sp True ''0x'' (int_digits sp 16 (unat p)))
              | _ \<Rightarrow> Inl BadVarArg)
      else Inl BadVarArg)"

section \<open>printf\<close>

text \<open>
  The text printf produces for a format and its arguments: literal characters, and directives whose
  extent the grammar of the standard gives. A null \<open>%s\<close> argument prints as glibc prints it.
\<close>

definition directive_length :: "string \<Rightarrow> nat" where
  "directive_length s =
     (let s0 = tl s;
          s1 = dropWhile (\<lambda>c. c \<in> set ''0 #-+'') s0;
          s2 = dropWhile isdigit s1;
          s3 = (if cchar s2 0 = CHR ''.'' then dropWhile isdigit (tl s2) else s2);
          s4 = dropWhile (\<lambda>c. c \<in> set ''hl'') s3
      in length s - length s4 + 1)"

definition c_format :: "cmem \<Rightarrow> string \<Rightarrow> carg \<Rightarrow> string result" where
  "c_format M d a =
     (if pf_conv (parse_directive d) = CHR ''s''
      then (case a of
              CPtr p \<Rightarrow>
                bindE (if p = 0 then Inr ''(null)'' else deref_string M p) (\<lambda>str.
                  let sp = parse_directive d
                  in Inr (pad sp False '''' (case pf_prec sp of None \<Rightarrow> str | Some n \<Rightarrow> take n str)))
            | _ \<Rightarrow> Inl BadVarArg)
      else c_sprintf d a)"

function c_printf :: "cmem \<Rightarrow> string \<Rightarrow> carg list \<Rightarrow> string result" where
  "c_printf M s args =
     (case s of
        [] \<Rightarrow> Inr ''''
      | c # cs \<Rightarrow>
          if c \<noteq> CHR ''%'' then bindE (c_printf M cs args) (\<lambda>t. Inr (c # t))
          else let n = directive_length s; d = take n s in
            if pf_conv (parse_directive d) = CHR ''%'' then bindE (c_printf M (drop n s) args) (\<lambda>t. Inr (CHR ''%'' # t))
            else (case args of
                    [] \<Rightarrow> Inl BadVarArg
                  | a # as \<Rightarrow> bindE (c_format M d a) (\<lambda>x. bindE (c_printf M (drop n s) as) (\<lambda>t. Inr (x @ t)))))"
  by pat_completeness auto
termination
  by (relation "measure (\<lambda>(M, s, args). length s)") (auto simp: directive_length_def Let_def)

declare c_printf.simps [simp del]

lemma c_printf_simps:
  "c_printf M [] args = Inr ''''"
  "c \<noteq> CHR ''%'' \<Longrightarrow> c_printf M (c # cs) args = bindE (c_printf M cs args) (\<lambda>t. Inr (c # t))"
  by (simp_all add: c_printf.simps [of M "[]"] c_printf.simps [of M "c # cs"])

lemma digits_of_nonempty: "digits_of b n \<noteq> []"
  by (subst digits_of.simps) simp

section \<open>A sequence of sprintf calls\<close>

text \<open>
  \<^verbatim>\<open>buf += sprintf(buf, ...)\<close> repeated: each call writes its text and a terminator behind the text before it,
  with no check that the array is long enough.
\<close>

fun sprintf_lines :: "u8 list \<Rightarrow> nat \<Rightarrow> string list \<Rightarrow> (u8 list \<times> nat) result" where
  "sprintf_lines b pos [] = Inr (b, pos)"
| "sprintf_lines b pos (s # ss) =
     bindE (mem_write b pos (bytes_of s @ [0])) (\<lambda>b'. sprintf_lines b' (pos + length s) ss)"

text \<open>What \<open>%u\<close>, \<open>%d\<close> and \<open>%ld\<close> print without flags, width and precision.\<close>

definition u_text :: "u32 \<Rightarrow> string" where
  "u_text w = dec (unat w)"

definition d_text :: "u32 \<Rightarrow> string" where
  "d_text w = dec_int (sint w)"

definition ld_text :: "u64 \<Rightarrow> string" where
  "ld_text w = dec_int (sint w)"

abbreviation nl :: string where "nl \<equiv> [CHR 0x0A]"

lemma sprintf_lines_wrote:
  "pos + length (concat ss) < length b \<Longrightarrow>
   \<exists>b'. sprintf_lines b pos ss = Inr (b', pos + length (concat ss)) \<and> wrote b pos (bytes_of (concat ss)) b' \<and>
     (ss \<noteq> [] \<longrightarrow> b' ! (pos + length (concat ss)) = 0)"
proof (induction ss arbitrary: b pos)
  case Nil
  then show ?case by (simp add: wrote_Nil)
next
  case (Cons s ss)
  obtain b1 where b1: "mem_write b pos (bytes_of s @ [0]) = Inr b1" using Cons.prems by simp
  then have w: "wrote b pos (bytes_of s) b1" using Cons.prems by (intro wrote_emit) simp_all
  have len: "length b1 = length b" using w by (simp add: wrote_def)
  have end0: "b1 ! (pos + length s) = 0"
    using b1 Cons.prems by (auto simp: nth_append)
  obtain b' where b': "sprintf_lines b1 (pos + length s) ss = Inr (b', pos + length s + length (concat ss))"
      "wrote b1 (pos + length s) (bytes_of (concat ss)) b'"
      "ss \<noteq> [] \<longrightarrow> b' ! (pos + length s + length (concat ss)) = 0"
    using Cons.IH [of "pos + length s" b1] Cons.prems len by auto
  have "wrote b pos (bytes_of (concat (s # ss))) b'"
    using wrote_trans [OF w] b'(2) by simp
  then show ?case using b1 b' end0 by (cases "ss = []") (auto simp: add.assoc)
qed

lemma digits_of_length: "n < 10 ^ k \<Longrightarrow> 0 < k \<Longrightarrow> length (digits_of 10 n) \<le> k"
proof (induction k arbitrary: n)
  case 0
  then show ?case by simp
next
  case (Suc k)
  show ?case
  proof (cases "n < 10")
    case True
    then show ?thesis by (simp add: digits_of.simps [of 10 n])
  next
    case False
    then have "0 < k" using Suc.prems by (cases k) auto
    moreover have "n div 10 < 10 ^ k" using Suc.prems(1) by (simp add: less_mult_imp_div_less mult.commute)
    ultimately have "length (digits_of 10 (n div 10)) \<le> k" using Suc.IH by blast
    then show ?thesis using False by (simp add: digits_of.simps [of 10 n])
  qed
qed

lemma u_text_length: "length (u_text w) \<le> 10"
  using digits_of_length [of "unat w" 10] unat_u32_bound [of w] by (simp add: u_text_def dec_def)

lemma nat_abs_sint_bound: "nat \<bar>sint (w :: 'a::len word)\<bar> \<le> 2 ^ (LENGTH('a) - 1)"
  using sint_greater_eq [of w] sint_less [of w] by (simp add: nat_le_iff abs_le_iff)

lemma dec_int_length:
  assumes "nat \<bar>i\<bar> < 10 ^ k" and "0 < k"
  shows "length (dec_int i) \<le> k + 1"
proof -
  have "length (dec (nat \<bar>i\<bar>)) \<le> k" using digits_of_length [OF assms] by (simp add: dec_def)
  then show ?thesis by (auto simp: dec_int_def)
qed

lemma d_text_length: "length (d_text w) \<le> 11"
  using dec_int_length [of "sint w" 10] nat_abs_sint_bound [of w] by (simp add: d_text_def)

lemma ld_text_length: "length (ld_text w) \<le> 20"
  using dec_int_length [of "sint w" 19] nat_abs_sint_bound [of w] by (simp add: ld_text_def)

end
