(* ===== verification/String_Format.thy ===== *)
theory String_Format
  imports C_Format
begin

text \<open>
  \<^verbatim>\<open>StringFormat\<close> (stringformat.h, stringformat.cpp): the encoder that stores the variadic arguments of a
  trace call in a byte buffer, and the decoder that prints them later from the format and the bytes.
  Buffers are blocks of bytes with an offset; a format is walked by its suffixes, so \<open>s\<close> is
  \<^verbatim>\<open>&format[i]\<close> and \<open>cchar s k\<close> is \<^verbatim>\<open>format[i+k]\<close>.
\<close>

section \<open>Typed access to a buffer\<close>

record stringformat =
  sf_getStringCorruptedCount :: u32

definition memSetByte :: "u8 list \<Rightarrow> nat \<Rightarrow> u8 \<Rightarrow> (u8 list \<times> nat) result" where
  "memSetByte b s v = bindE (mem_write b s (u8_bytes v)) (\<lambda>b'. Inr (b', 1))"

definition memSetWord :: "u8 list \<Rightarrow> nat \<Rightarrow> u16 \<Rightarrow> (u8 list \<times> nat) result" where
  "memSetWord b s v = bindE (mem_write b s (u16_bytes v)) (\<lambda>b'. Inr (b', 2))"

definition memSetInt :: "u8 list \<Rightarrow> nat \<Rightarrow> u32 \<Rightarrow> (u8 list \<times> nat) result" where
  "memSetInt b s v = bindE (mem_write b s (u32_bytes v)) (\<lambda>b'. Inr (b', 4))"

definition memSetLong64 :: "u8 list \<Rightarrow> nat \<Rightarrow> u64 \<Rightarrow> (u8 list \<times> nat) result" where
  "memSetLong64 b s v = bindE (mem_write b s (u64_bytes v)) (\<lambda>b'. Inr (b', 8))"

definition memSetDouble :: "u8 list \<Rightarrow> nat \<Rightarrow> u64 \<Rightarrow> (u8 list \<times> nat) result" where
  "memSetDouble b s v = bindE (mem_write b s (u64_bytes v)) (\<lambda>b'. Inr (b', 8))"

definition memSetPtr :: "u8 list \<Rightarrow> nat \<Rightarrow> u64 \<Rightarrow> (u8 list \<times> nat) result" where
  "memSetPtr b s v = bindE (mem_write b s (u64_bytes v)) (\<lambda>b'. Inr (b', 8))"

text \<open>\<^verbatim>\<open>str_size\<close> is a \<^verbatim>\<open>uint32_t\<close>, so \<^verbatim>\<open>str_size + 1\<close> is taken modulo \<open>2 ^ 32\<close>.\<close>

definition memSetString :: "cmem \<Rightarrow> u8 list \<Rightarrow> nat \<Rightarrow> u64 \<Rightarrow> (u8 list \<times> nat) result" where
  "memSetString M b s src =
     (if src = 0
      then bindE (mem_write b s (bytes_of ''(null)'' @ [0])) (\<lambda>b'. Inr (b', 7))
      else bindE (deref_string M src) (\<lambda>str.
        let n = unat (word_of_nat (length str) + 1 :: u32)
        in bindE (mem_write b s (take n (bytes_of str @ [0]))) (\<lambda>b'. Inr (b', n))))"

definition memGetByte :: "u8 list \<Rightarrow> u32 \<Rightarrow> u8 result" where
  "memGetByte buf i = bindE (mem_read buf (unat i) 1) (\<lambda>bs. Inr (u8_of bs))"

definition memGetWord :: "u8 list \<Rightarrow> u32 \<Rightarrow> u16 result" where
  "memGetWord buf i = bindE (mem_read buf (unat i) 2) (\<lambda>bs. Inr (u16_of bs))"

definition memGetInt :: "u8 list \<Rightarrow> u32 \<Rightarrow> u32 result" where
  "memGetInt buf i = bindE (mem_read buf (unat i) 4) (\<lambda>bs. Inr (u32_of bs))"

definition memGetDouble :: "u8 list \<Rightarrow> u32 \<Rightarrow> u64 result" where
  "memGetDouble buf i = bindE (mem_read buf (unat i) 8) (\<lambda>bs. Inr (u64_of bs))"

definition memGetPtr :: "u8 list \<Rightarrow> u32 \<Rightarrow> u64 result" where
  "memGetPtr buf i = bindE (mem_read buf (unat i) 8) (\<lambda>bs. Inr (u64_of bs))"

definition memGetLong64 :: "u8 list \<Rightarrow> u32 \<Rightarrow> u64 result" where
  "memGetLong64 buf i = bindE (mem_read buf (unat i) 8) (\<lambda>bs. Inr (u64_of bs))"

text \<open>
  The overload without a limit (no caller uses it): \<open>src\<close> is the buffer from \<^verbatim>\<open>bufferIndex\<close> on.
\<close>

fun memGetString_unbounded_loop :: "u8 list \<Rightarrow> u8 list \<Rightarrow> nat \<Rightarrow> u32 \<Rightarrow> (u8 list \<times> u32) result" where
  "memGetString_unbounded_loop [] dst off di = Inl OutOfBounds"
| "memGetString_unbounded_loop (c # src) dst off di =
     (if c = 0 then Inr (dst, di)
      else bindE (mem_write dst (off + unat di) [c]) (\<lambda>dst'. memGetString_unbounded_loop src dst' off (di + 1)))"

definition memGetString_unbounded :: "u8 list \<Rightarrow> u32 \<Rightarrow> u8 list \<Rightarrow> nat \<Rightarrow> (u8 list \<times> u32) result" where
  "memGetString_unbounded buf i dst off = memGetString_unbounded_loop (drop (unat i) buf) dst off 0"

text \<open>
  The overload with a limit. Its only caller passes a non-negative \<^verbatim>\<open>int\<close>, so \<^verbatim>\<open>di + 1\<close> cannot wrap and
  \<^verbatim>\<open>di\<close> is a natural number here. The result is the destination, \<^verbatim>\<open>di\<close> and the corruption counter.
\<close>

function memGetString_loop ::
  "u8 list \<Rightarrow> u32 \<Rightarrow> u8 list \<Rightarrow> nat \<Rightarrow> nat \<Rightarrow> nat \<Rightarrow> u32 \<Rightarrow> (u8 list \<times> nat \<times> u32) result" where
  "memGetString_loop buf i dst off di limit corrupted =
     bindE (mem_get buf (unat i)) (\<lambda>c.
       if c = 0 then Inr (dst, di, corrupted)
       else if di + 1 > limit then Inr (dst, di, corrupted + 1)
       else bindE (mem_write dst (off + di) [c]) (\<lambda>dst'.
         memGetString_loop buf (i + 1) dst' off (di + 1) limit corrupted))"
  by pat_completeness auto
termination
  by (relation "measure (\<lambda>(buf, i, dst, off, di, limit, corrupted). limit - di)") auto

declare memGetString_loop.simps [simp del]

definition memGetString :: "u8 list \<Rightarrow> u32 \<Rightarrow> u8 list \<Rightarrow> nat \<Rightarrow> u32 \<Rightarrow> u32 \<Rightarrow> (u8 list \<times> nat \<times> u32) result" where
  "memGetString buf i dst off limit corrupted = memGetString_loop buf i dst off 0 (unat limit) corrupted"

definition StringFormat_indexInc :: "u32 \<Rightarrow> u32 \<Rightarrow> u32" where
  "StringFormat_indexInc index v = index + v"

text \<open>\<^verbatim>\<open>strlcpy\<close>: the loop keeps the destination, the position \<^verbatim>\<open>d\<close> and what is left of \<^verbatim>\<open>n\<close>.\<close>

fun strlcpy_loop :: "string \<Rightarrow> nat \<Rightarrow> string \<Rightarrow> nat \<Rightarrow> (string \<times> nat \<times> nat) result" where
  "strlcpy_loop b d s 0 = Inr (b, d, 0)"
| "strlcpy_loop b d s (Suc n) =
     (if n = 0 then Inr (b, d, 0)
      else bindE (mem_write b d [cchar s 0]) (\<lambda>b'.
        if cchar s 0 = NUL then Inr (b', d + 1, n) else strlcpy_loop b' (d + 1) (tl s) n))"

definition strlcpy :: "string \<Rightarrow> string \<Rightarrow> nat \<Rightarrow> string result" where
  "strlcpy dst src siz =
     (if siz = 0 then Inr dst
      else bindE (strlcpy_loop dst 0 src siz) (\<lambda>(b, d, n). if n = 0 then mem_write b d [NUL] else Inr b))"

section \<open>The encoder\<close>

text \<open>What a directive stores or prints; \<open>CvPercent\<close> is \<^verbatim>\<open>%%\<close>.\<close>

datatype conv = CvWord | CvByte | CvInt | CvDouble | CvPtr | CvString | CvLong64 | CvPercent

text \<open>
  The outer switch at \<open>s\<close> with \<^verbatim>\<open>insidePercent\<close> just cleared: the argument stored, how far \<^verbatim>\<open>i\<close> moves (0 and 2
  are the two \<^verbatim>\<open>continue\<close> statements) and \<^verbatim>\<open>insidePercent\<close> afterwards.
\<close>

definition encode_switch :: "string \<Rightarrow> (conv option \<times> nat \<times> bool) result" where
  "encode_switch s =
     (let c = cchar s 0; c1 = cchar s 1; c2 = cchar s 2 in
      if c = CHR ''h'' then
        (if c1 \<in> set ''oxXu'' then Inr (Some CvWord, 1, False)
         else if c1 \<in> set ''di'' then Inr (Some CvWord, 1, False)
         else if c1 = CHR ''h'' \<and> c2 \<in> set ''xXuo'' then Inr (Some CvWord, 0, False)
         else Inr (None, 1, False))
      else if c = CHR ''c'' then Inr (Some CvByte, 1, False)
      else if c \<in> set ''duixX'' then Inr (Some CvInt, 1, False)
      else if c = CHR ''f'' then Inr (Some CvDouble, 1, False)
      else if c = CHR ''p'' then Inr (Some CvPtr, 1, False)
      else if c = CHR ''s'' then Inr (Some CvString, 1, False)
      else if c = CHR ''l'' then
        (if c1 = CHR ''l'' \<and> c2 \<in> set ''xXdiu'' then Inr (Some CvLong64, 2, False)
         else if c1 \<in> set ''xXdiu'' then Inr (Some CvInt, 1, False)
         else if c1 = CHR ''f'' then Inr (Some CvDouble, 1, False)
         else Inr (None, 1, False))
      else if c \<in> set ''-+ #.'' \<or> isdigit c then Inr (None, 1, True)
      else Inl AssertFailed)"

text \<open>Fetch one argument and store it at \<^verbatim>\<open>dst\<close>.\<close>

fun store_conv :: "cmem \<Rightarrow> conv \<Rightarrow> carg list \<Rightarrow> u8 list \<Rightarrow> nat \<Rightarrow> (carg list \<times> u8 list \<times> nat) result" where
  "store_conv M CvWord args b dst = bindE (va_int args) (\<lambda>(w, args').
     bindE (memSetWord b dst (ucast w)) (\<lambda>(b', n). Inr (args', b', dst + n)))"
| "store_conv M CvByte args b dst = bindE (va_int args) (\<lambda>(w, args').
     bindE (memSetByte b dst (ucast w)) (\<lambda>(b', n). Inr (args', b', dst + n)))"
| "store_conv M CvInt args b dst = bindE (va_int args) (\<lambda>(w, args').
     bindE (memSetInt b dst w) (\<lambda>(b', n). Inr (args', b', dst + n)))"
| "store_conv M CvDouble args b dst = bindE (va_double args) (\<lambda>(d, args').
     bindE (memSetDouble b dst d) (\<lambda>(b', n). Inr (args', b', dst + n)))"
| "store_conv M CvPtr args b dst = bindE (va_ptr args) (\<lambda>(p, args').
     bindE (memSetPtr b dst p) (\<lambda>(b', n). Inr (args', b', dst + n)))"
| "store_conv M CvString args b dst = bindE (va_ptr args) (\<lambda>(p, args').
     bindE (memSetString M b dst p) (\<lambda>(b', n). Inr (args', b', dst + n)))"
| "store_conv M CvLong64 args b dst = bindE (va_long args) (\<lambda>(w, args').
     bindE (memSetLong64 b dst w) (\<lambda>(b', n). Inr (args', b', dst + n)))"
| "store_conv M CvPercent args b dst = Inr (args, b, dst)"

lemma encode_switch_progress:
  "encode_switch s = Inr (cv, n, True) \<Longrightarrow> 0 < n"
  by (auto simp: encode_switch_def Let_def split: if_splits)

function encode_loop ::
  "cmem \<Rightarrow> string \<Rightarrow> bool \<Rightarrow> carg list \<Rightarrow> u8 list \<Rightarrow> nat \<Rightarrow> (u8 list \<times> nat) result" where
  "encode_loop M s insidePercent args b dst =
     (if cchar s 0 = NUL then Inr (b, dst)
      else if cchar s 0 = CHR ''%'' then encode_loop M (drop 1 s) (\<not> insidePercent) args b dst
      else if insidePercent then
        bindE (encode_switch s) (\<lambda>(cv, n, inside').
          case cv of
            None \<Rightarrow> encode_loop M (drop n s) inside' args b dst
          | Some cv \<Rightarrow> bindE (store_conv M cv args b dst) (\<lambda>(args', b', dst').
              encode_loop M (drop n s) inside' args' b' dst'))
      else encode_loop M (drop 1 s) False args b dst)"
  by pat_completeness auto
termination
proof (relation "measure (\<lambda>(M, s, inside, args, b, dst). 2 * length s + (if inside then 1 else 0))")
qed (auto simp: cchar_def neq_Nil_conv diff_less dest!: encode_switch_progress split: if_splits)

declare encode_loop.simps [simp del]

definition encodeToArgsBuffer :: "cmem \<Rightarrow> string \<Rightarrow> carg list \<Rightarrow> u8 list \<Rightarrow> nat \<Rightarrow> (u8 list \<times> nat) result" where
  "encodeToArgsBuffer M format args b dst = encode_loop M format False args b dst"

section \<open>The decoder\<close>

definition skip_flag :: "string \<Rightarrow> string" where
  "skip_flag s = (if cchar s 0 \<in> set ''0 #-+'' then tl s else s)"

definition skip_dot :: "string \<Rightarrow> string" where
  "skip_dot s = (if cchar s 0 = CHR ''.'' then tl s else s)"

definition decode_prefix :: "string \<Rightarrow> string" where
  "decode_prefix s = dropWhile isdigit (skip_dot (dropWhile isdigit (skip_flag (tl s))))"

text \<open>The switch after the prefix: the conversion and how many characters it takes.\<close>

definition decode_switch :: "string \<Rightarrow> (conv \<times> nat) option" where
  "decode_switch s =
     (let c = cchar s 0; c1 = cchar s 1; c2 = cchar s 2 in
      if c = CHR ''h'' then
        (if c1 \<in> set ''duxXoi'' then Some (CvWord, 2)
         else if c1 = CHR ''h'' \<and> c2 \<in> set ''xXuo'' then Some (CvWord, 3)
         else None)
      else if c = CHR ''c'' then Some (CvByte, 1)
      else if c \<in> set ''duixX'' then Some (CvInt, 1)
      else if c = CHR ''f'' then Some (CvDouble, 1)
      else if c = CHR ''p'' then Some (CvPtr, 1)
      else if c = CHR ''s'' then Some (CvString, 1)
      else if c = CHR ''l'' then
        (if c1 = CHR ''l'' then (if c2 \<in> set ''dixuX'' then Some (CvLong64, 3) else None)
         else if c1 \<in> set ''duixX'' then Some (CvInt, 2)
         else if c1 = CHR ''f'' then Some (CvDouble, 2)
         else None)
      else if c = CHR ''%'' then Some (CvPercent, 1)
      else None)"

definition decode_directive :: "string \<Rightarrow> (conv \<times> nat) option" where
  "decode_directive s =
     (case decode_switch (decode_prefix s) of
        None \<Rightarrow> None
      | Some (cv, k) \<Rightarrow> Some (cv, length s - length (decode_prefix s) + k))"

record decoder =
  dc_index :: u32         \<comment> \<open>\<^verbatim>\<open>argsBufferIndex\<close>\<close>
  dc_out :: "u8 list"     \<comment> \<open>the block \<^verbatim>\<open>outputString\<close> points into\<close>
  dc_pos :: nat           \<comment> \<open>and its offset\<close>
  dc_corrupted :: u32     \<comment> \<open>\<^verbatim>\<open>getStringCorruptedCount\<close>\<close>

text \<open>\<^verbatim>\<open>outputString += sprintf(outputString, ...)\<close>, with the terminator sprintf writes.\<close>

definition dc_emit :: "string \<Rightarrow> decoder \<Rightarrow> decoder result" where
  "dc_emit txt st =
     bindE (mem_write (dc_out st) (dc_pos st) (bytes_of txt @ [0])) (\<lambda>out.
       Inr (st\<lparr>dc_out := out, dc_pos := dc_pos st + length txt\<rparr>))"

text \<open>
  \<^verbatim>\<open>char tempFormat[32]\<close> is not initialised; only what \<^verbatim>\<open>strlcpy\<close> wrote is read, so its initial contents are
  irrelevant and zeros stand for them.
\<close>

definition tempFormat_of :: "string \<Rightarrow> nat \<Rightarrow> string result" where
  "tempFormat_of s n =
     bindE (strlcpy (replicate 32 NUL) s (n + 1)) (\<lambda>b. Inr (takeWhile (\<lambda>c. c \<noteq> NUL) b))"

definition dc_print :: "string \<Rightarrow> carg \<Rightarrow> u32 \<Rightarrow> decoder \<Rightarrow> decoder result" where
  "dc_print fmt a n st =
     bindE (c_sprintf fmt a) (\<lambda>txt. dc_emit txt (st\<lparr>dc_index := StringFormat_indexInc (dc_index st) n\<rparr>))"

text \<open>
  One directive of \<open>n\<close> characters at \<open>s\<close>; \<open>False\<close> is the \<^verbatim>\<open>return -1\<close> of the string case. The short and the
  single-byte value are promoted to \<^verbatim>\<open>int\<close> when passed to sprintf.
\<close>

definition decode_conv :: "u8 list \<Rightarrow> u32 \<Rightarrow> conv \<Rightarrow> string \<Rightarrow> nat \<Rightarrow> decoder \<Rightarrow> (bool \<times> decoder) result" where
  "decode_conv args maxLength cv s n st =
     (if cv = CvPercent then bindE (dc_emit ''%'' st) (\<lambda>st'. Inr (True, st'))
      else bindE (tempFormat_of s n) (\<lambda>fmt.
        let i = dc_index st in
        case cv of
          CvWord \<Rightarrow> bindE (memGetWord args i) (\<lambda>w. bindE (dc_print fmt (CInt (ucast w)) 2 st) (\<lambda>st'. Inr (True, st')))
        | CvByte \<Rightarrow> bindE (memGetByte args i) (\<lambda>w. bindE (dc_print fmt (CInt (ucast w)) 1 st) (\<lambda>st'. Inr (True, st')))
        | CvInt \<Rightarrow> bindE (memGetInt args i) (\<lambda>w. bindE (dc_print fmt (CInt w) 4 st) (\<lambda>st'. Inr (True, st')))
        | CvDouble \<Rightarrow> bindE (memGetDouble args i) (\<lambda>w. bindE (dc_print fmt (CDouble w) 8 st) (\<lambda>st'. Inr (True, st')))
        | CvPtr \<Rightarrow> bindE (memGetPtr args i) (\<lambda>w. bindE (dc_print fmt (CPtr w) 8 st) (\<lambda>st'. Inr (True, st')))
        | CvLong64 \<Rightarrow> bindE (memGetLong64 args i) (\<lambda>w. bindE (dc_print fmt (CLong w) 8 st) (\<lambda>st'. Inr (True, st')))
        | CvString \<Rightarrow>
            (let max_string = maxLength - i - 1 in
             if sint max_string < 0 then Inr (False, st\<lparr>dc_corrupted := dc_corrupted st + 1\<rparr>)
             else bindE (memGetString args i (dc_out st) (dc_pos st) max_string (dc_corrupted st))
               (\<lambda>(out, string_len, corrupted).
                 Inr (True, st\<lparr>dc_out := out, dc_pos := dc_pos st + string_len,
                              dc_index := StringFormat_indexInc i (word_of_nat string_len + 1),
                              dc_corrupted := corrupted\<rparr>)))
        | CvPercent \<Rightarrow> Inr (True, st)))"

lemma decode_switch_pos: "decode_switch s = Some (cv, k) \<Longrightarrow> 0 < k"
  by (auto simp: decode_switch_def Let_def split: if_splits)

lemma decode_directive_pos: "decode_directive s = Some (cv, n) \<Longrightarrow> 0 < n"
  by (auto simp: decode_directive_def split: option.splits dest: decode_switch_pos)

function decode_loop :: "u8 list \<Rightarrow> u32 \<Rightarrow> string \<Rightarrow> decoder \<Rightarrow> (bool \<times> decoder) result" where
  "decode_loop args maxLength s st =
     (if cchar s 0 = NUL then Inr (True, st)
      else case (if cchar s 0 = CHR ''%'' then decode_directive s else None) of
        Some (cv, n) \<Rightarrow>
          bindE (decode_conv args maxLength cv s n st) (\<lambda>(ok, st').
            if ok then decode_loop args maxLength (drop n s) st' else Inr (False, st'))
      | None \<Rightarrow>
          bindE (mem_write (dc_out st) (dc_pos st) [byte_of (cchar s 0)]) (\<lambda>out.
            decode_loop args maxLength (drop 1 s) (st\<lparr>dc_out := out, dc_pos := dc_pos st + 1\<rparr>)))"
  by pat_completeness auto
termination
  by (relation "measure (\<lambda>(args, maxLength, s, st). length s)")
    (auto simp: cchar_def dest: decode_directive_pos split: if_splits)

declare decode_loop.simps [simp del]

text \<open>
  \<^verbatim>\<open>decodeFromArgsBuffer\<close>: the value returned, \<^verbatim>\<open>*argsBufferIndexPtr\<close>, the output block and
  \<^verbatim>\<open>*outputStringLength\<close>, which keeps its value \<open>len0\<close> when nothing was printed.
\<close>

definition decodeFromArgsBuffer ::
  "stringformat \<Rightarrow> string \<Rightarrow> u8 list \<Rightarrow> u32 \<Rightarrow> u8 list \<Rightarrow> nat \<Rightarrow> u32 \<Rightarrow> int \<Rightarrow>
   (stringformat \<times> u32 \<times> u32 \<times> u8 list \<times> int) result" where
  "decodeFromArgsBuffer sf format args index out pos maxLength len0 =
     bindE (decode_loop args maxLength format
              \<lparr>dc_index = index, dc_out = out, dc_pos = pos, dc_corrupted = sf_getStringCorruptedCount sf\<rparr>)
       (\<lambda>(ok, st).
         let sf' = sf\<lparr>sf_getStringCorruptedCount := dc_corrupted st\<rparr> in
         if \<not> ok then Inr (sf', - 1, index, dc_out st, len0)
         else bindE (mem_write (dc_out st) (dc_pos st) [0]) (\<lambda>out'.
           Inr (sf', 0, dc_index st, out', if pos < dc_pos st then int (dc_pos st - pos) else len0)))"

end
