(* ===== verification/String_Roundtrip.thy ===== *)
theory String_Roundtrip
  imports String_Format
begin

text \<open>
  Encoder and decoder together: what the decoder prints from the stored bytes is what printf would have
  printed when the arguments were at hand, for the formats \<open>fmt_supported\<close> accepts; and what happens
  to the formats it does not accept.
\<close>

section \<open>The bytes of an argument list\<close>

fun arg32 :: "carg \<Rightarrow> u32" where
  "arg32 (CInt w) = w"
| "arg32 (CLong w) = ucast w"
| "arg32 _ = 0"

fun arg64 :: "carg \<Rightarrow> u64" where
  "arg64 (CLong w) = w"
| "arg64 (CDouble w) = w"
| "arg64 (CPtr w) = w"
| "arg64 (CInt w) = ucast w"

fun arg_text :: "cmem \<Rightarrow> carg \<Rightarrow> string" where
  "arg_text M (CPtr p) = (if p = 0 then ''(null)'' else case M p of None \<Rightarrow> '''' | Some s \<Rightarrow> s)"
| "arg_text M _ = ''''"

definition conv_image :: "cmem \<Rightarrow> conv \<Rightarrow> carg \<Rightarrow> u8 list" where
  "conv_image M cv a =
     (case cv of
        CvWord \<Rightarrow> u16_bytes (ucast (arg32 a))
      | CvByte \<Rightarrow> u8_bytes (ucast (arg32 a))
      | CvInt \<Rightarrow> u32_bytes (arg32 a)
      | CvDouble \<Rightarrow> u64_bytes (arg64 a)
      | CvPtr \<Rightarrow> u64_bytes (arg64 a)
      | CvString \<Rightarrow> bytes_of (arg_text M a) @ [0]
      | CvLong64 \<Rightarrow> u64_bytes (arg64 a)
      | CvPercent \<Rightarrow> [])"

text \<open>The bytes a trace call stores for its arguments.\<close>

function arg_bytes :: "cmem \<Rightarrow> string \<Rightarrow> carg list \<Rightarrow> u8 list" where
  "arg_bytes M s args =
     (case s of
        [] \<Rightarrow> []
      | c # cs \<Rightarrow>
          if c \<noteq> CHR ''%'' then arg_bytes M cs args
          else case decode_directive s of
            None \<Rightarrow> arg_bytes M cs args
          | Some (cv, n) \<Rightarrow>
              if cv = CvPercent then arg_bytes M (drop n s) args
              else (case args of [] \<Rightarrow> [] | a # as \<Rightarrow> conv_image M cv a @ arg_bytes M (drop n s) as))"
  by pat_completeness auto
termination
  by (relation "measure (\<lambda>(M, s, args). length s)") (auto dest: decode_directive_pos)

declare arg_bytes.simps [simp del]

text \<open>
  The formats with the round trip: every directive is one the decoder knows, fits \<^verbatim>\<open>tempFormat\<close>, and has
  neither a width or precision on \<open>%s\<close>, which the decoder ignores, nor a single \<open>l\<close> on an integer.
\<close>

definition directive_ok :: "conv \<Rightarrow> string \<Rightarrow> bool" where
  "directive_ok cv d \<longleftrightarrow>
     (cv = CvPercent \<or> length d \<le> 31) \<and>
     (cv = CvString \<longrightarrow> d = ''%s'') \<and>
     (cv = CvInt \<longrightarrow> CHR ''l'' \<notin> set d)"

function fmt_supported :: "string \<Rightarrow> bool" where
  "fmt_supported s =
     (case s of
        [] \<Rightarrow> True
      | c # cs \<Rightarrow>
          if c \<noteq> CHR ''%'' then fmt_supported cs
          else (case decode_directive s of
                  None \<Rightarrow> False
                | Some (cv, n) \<Rightarrow> directive_ok cv (take n s) \<and> fmt_supported (drop n s)))"
  by pat_completeness auto
termination
  by (relation "measure length") (auto dest: decode_directive_pos)

declare fmt_supported.simps [simp del]

definition cmem_ok :: "cmem \<Rightarrow> bool" where
  "cmem_ok M \<longleftrightarrow> (\<forall>s \<in> ran M. c_string s)"

section \<open>The shape of a directive\<close>

definition is_flag :: "char \<Rightarrow> bool" where
  "is_flag c \<longleftrightarrow> c \<in> set ''0 #-+''"

lemmas isdigit_simps = isdigit_def c_digits_def

definition keep_char :: "char \<Rightarrow> bool" where
  "keep_char c \<longleftrightarrow> c \<in> set ''-+ #.'' \<or> isdigit c"

definition directive_prefix :: "string \<Rightarrow> bool" where
  "directive_prefix pre \<longleftrightarrow>
     (\<exists>fl d1 d2. (pre = fl @ d1 \<or> pre = fl @ d1 @ ''.'' @ d2) \<and> (fl = [] \<or> (\<exists>c. fl = [c] \<and> is_flag c)) \<and>
        list_all isdigit d1 \<and> list_all isdigit d2)"

lemma takeWhile_list_all: "list_all P (takeWhile P xs)"
  by (auto simp: list_all_iff dest: set_takeWhileD)

lemma skip_flag_split: "\<exists>fl. s = fl @ skip_flag s \<and> (fl = [] \<or> (\<exists>c. fl = [c] \<and> is_flag c))"
proof (cases s)
  case Nil
  then show ?thesis by (simp add: skip_flag_def)
next
  case (Cons c t)
  then have s: "skip_flag s = (if is_flag c then t else s)"
    by (simp add: skip_flag_def is_flag_def)
  show ?thesis
  proof (cases "is_flag c")
    case True
    with s Cons show ?thesis by (intro exI [of _ "[c]"]) simp
  next
    case False
    with s show ?thesis by simp
  qed
qed

lemma skip_dot_split: "\<exists>dt. s = dt @ skip_dot s \<and> (dt = [] \<or> dt = ''.'')"
proof (cases "cchar s 0 = CHR ''.''")
  case True
  then have "s = ''.'' @ skip_dot s" by (cases s) (simp_all add: skip_dot_def)
  then show ?thesis by blast
next
  case False
  then show ?thesis by (simp add: skip_dot_def)
qed

lemma directive_prefixI:
  assumes "fl = [] \<or> (\<exists>c. fl = [c] \<and> is_flag c)" and "list_all isdigit d1"
  shows "directive_prefix (fl @ d1)"
    and "list_all isdigit d2 \<Longrightarrow> directive_prefix (fl @ d1 @ ''.'' @ d2)"
proof -
  have "list_all isdigit ([] :: string)" by simp
  then show "directive_prefix (fl @ d1)" using assms unfolding directive_prefix_def by blast
  show "list_all isdigit d2 \<Longrightarrow> directive_prefix (fl @ d1 @ ''.'' @ d2)"
    using assms unfolding directive_prefix_def by blast
qed

lemma decode_prefix_shape:
  "\<exists>pre. tl s = pre @ decode_prefix s \<and> directive_prefix pre"
proof -
  let ?s1 = "skip_flag (tl s)"
  let ?s2 = "dropWhile isdigit ?s1" and ?d1 = "takeWhile isdigit ?s1"
  let ?s3 = "skip_dot ?s2"
  let ?d2 = "takeWhile isdigit ?s3"
  obtain fl where fl: "tl s = fl @ ?s1" "fl = [] \<or> (\<exists>c. fl = [c] \<and> is_flag c)"
    using skip_flag_split by blast
  obtain dt where dt: "?s2 = dt @ ?s3" "dt = [] \<or> dt = ''.''"
    using skip_dot_split by blast
  have s1: "?s1 = ?d1 @ ?s2" and s3: "?s3 = ?d2 @ decode_prefix s"
    by (simp_all add: decode_prefix_def)
  have d: "list_all isdigit ?d1" "list_all isdigit ?d2"
    by (rule takeWhile_list_all)+
  show ?thesis
  proof (cases "dt = []")
    case True
    then have "tl s = (fl @ (?d1 @ ?d2)) @ decode_prefix s" using fl(1) s1 dt(1) s3 by simp
    moreover have "directive_prefix (fl @ (?d1 @ ?d2))"
      using fl(2) d by (intro directive_prefixI) simp_all
    ultimately show ?thesis by blast
  next
    case False
    then have "tl s = (fl @ ?d1 @ ''.'' @ ?d2) @ decode_prefix s"
      using fl(1) s1 dt s3 by (metis append.assoc)
    moreover have "directive_prefix (fl @ ?d1 @ ''.'' @ ?d2)"
      using fl(2) d by (intro directive_prefixI)
    ultimately show ?thesis by blast
  qed
qed

lemma keep_charI:
  "is_flag c \<Longrightarrow> keep_char c"
  "isdigit c \<Longrightarrow> keep_char c"
  "keep_char (CHR ''.'')"
  by (auto simp: keep_char_def is_flag_def isdigit_simps)

lemma directive_prefix_keep: "directive_prefix pre \<Longrightarrow> c \<in> set pre \<Longrightarrow> keep_char c"
  unfolding directive_prefix_def list_all_iff by (fastforce intro: keep_charI)

text \<open>After the prefix comes a character no prefix contains, so the standard's grammar stops there too.\<close>

definition stops :: "string \<Rightarrow> bool" where
  "stops t \<longleftrightarrow> \<not> keep_char (cchar t 0)"

lemma skip_width:
  assumes "list_all isdigit d" and "\<not> is_flag (cchar t 0)" and "\<not> isdigit (cchar t 0)"
  shows "dropWhile isdigit (dropWhile is_flag (d @ t)) = t"
  using assms(1)
proof (induction d)
  case Nil
  then show ?case using assms(2,3) by (cases t) auto
next
  case (Cons c d)
  then have d: "dropWhile isdigit (c # d @ t) = t"
    using assms(3) by (cases t) (auto simp: dropWhile_append3 list_all_iff dropWhile_append2)
  show ?case
  proof (cases "is_flag c")
    case True
    then show ?thesis using Cons by simp
  next
    case False
    then show ?thesis using d by simp
  qed
qed

lemma skip_digits: "list_all isdigit d \<Longrightarrow> \<not> isdigit (cchar t 0) \<Longrightarrow> dropWhile isdigit (d @ t) = t"
  by (cases t) (auto simp: list_all_iff dropWhile_append2)

definition std_tail :: "string \<Rightarrow> string" where
  "std_tail s =
     (let s2 = dropWhile isdigit (dropWhile is_flag s)
      in if cchar s2 0 = CHR ''.'' then dropWhile isdigit (tl s2) else s2)"

lemma std_tail_prefix:
  assumes "directive_prefix pre" and "stops t"
  shows "std_tail (pre @ t) = t"
proof -
  obtain fl d1 d2 where pre: "pre = fl @ d1 \<or> pre = fl @ d1 @ ''.'' @ d2"
      and fl: "fl = [] \<or> (\<exists>c. fl = [c] \<and> is_flag c)" and d: "list_all isdigit d1" "list_all isdigit d2"
    using assms(1) by (auto simp: directive_prefix_def)
  have t: "\<not> is_flag (cchar t 0)" "\<not> isdigit (cchar t 0)" "cchar t 0 \<noteq> CHR ''.''"
    using assms(2) keep_charI unfolding stops_def by metis+
  have drop_fl: "dropWhile is_flag (fl @ x) = dropWhile is_flag x" for x
    using fl by auto
  have dot: "\<not> is_flag (CHR ''.'')" "\<not> isdigit (CHR ''.'')"
    by (simp_all add: is_flag_def isdigit_simps)
  from pre show ?thesis
  proof
    assume "pre = fl @ d1"
    then show ?thesis
      using skip_width [OF d(1) t(1,2)] t(3) by (simp add: std_tail_def drop_fl)
  next
    assume p: "pre = fl @ d1 @ ''.'' @ d2"
    have "dropWhile isdigit (dropWhile is_flag (d1 @ (''.'' @ d2 @ t))) = ''.'' @ d2 @ t"
      using d(1) dot by (intro skip_width) simp_all
    then show ?thesis
      using p skip_digits [OF d(2) t(2)] by (simp add: std_tail_def drop_fl)
  qed
qed

text \<open>The conversions with the length modifier and conversion character each one comes from.\<close>

fun directive_kind :: "conv \<Rightarrow> string \<Rightarrow> char \<Rightarrow> bool" where
  "directive_kind CvWord len c \<longleftrightarrow> len = ''h'' \<and> c \<in> set ''duxXoi'' \<or> len = ''hh'' \<and> c \<in> set ''xXuo''"
| "directive_kind CvByte len c \<longleftrightarrow> len = '''' \<and> c = CHR ''c''"
| "directive_kind CvInt len c \<longleftrightarrow> (len = '''' \<or> len = ''l'') \<and> c \<in> set ''duixX''"
| "directive_kind CvDouble len c \<longleftrightarrow> (len = '''' \<or> len = ''l'') \<and> c = CHR ''f''"
| "directive_kind CvPtr len c \<longleftrightarrow> len = '''' \<and> c = CHR ''p''"
| "directive_kind CvString len c \<longleftrightarrow> len = '''' \<and> c = CHR ''s''"
| "directive_kind CvLong64 len c \<longleftrightarrow> len = ''ll'' \<and> c \<in> set ''dixuX''"
| "directive_kind CvPercent len c \<longleftrightarrow> len = '''' \<and> c = CHR ''%''"

lemma decode_switch_table:
  assumes "decode_switch r = Some (cv, k)"
  shows "directive_kind cv (take (k - 1) r) (cchar r (k - 1)) \<and> 0 < k \<and> k \<le> length r"
proof (cases r)
  case Nil
  then show ?thesis using assms by (simp add: decode_switch_def)
next
  case r: (Cons a r1)
  show ?thesis
  proof (cases r1)
    case Nil
    then show ?thesis using assms r by (auto simp: decode_switch_def Let_def split: if_splits)
  next
    case r1: (Cons b r2)
    show ?thesis
      using assms r r1 by (cases r2) (auto simp: decode_switch_def Let_def numeral_2_eq_2 split: if_splits)
  qed
qed

lemma directive_kind_hl:
  assumes "directive_kind cv len c"
  shows "takeWhile (\<lambda>c. c \<in> set ''hl'') (len @ c # t) = len"
    and "dropWhile (\<lambda>c. c \<in> set ''hl'') (len @ c # t) = c # t"
    and "stops (len @ c # t)"
  using assms by (cases cv; auto simp: stops_def keep_char_def isdigit_simps)+

lemma decode_directiveE:
  assumes "decode_directive (CHR ''%'' # t) = Some (cv, n)"
  obtains pre len c r where "t = pre @ len @ c # r" and "directive_prefix pre" and "directive_kind cv len c"
    and "n = length pre + length len + 2" and "decode_switch (len @ c # r) = Some (cv, length len + 1)"
proof -
  let ?s = "CHR ''%'' # t"
  obtain pre where pre: "t = pre @ decode_prefix ?s" "directive_prefix pre"
    using decode_prefix_shape [of ?s] by auto
  obtain k where k: "decode_switch (decode_prefix ?s) = Some (cv, k)"
      and n: "n = length ?s - length (decode_prefix ?s) + k"
    using assms by (auto simp: decode_directive_def split: option.splits)
  let ?r = "decode_prefix ?s"
  have tab: "directive_kind cv (take (k - 1) ?r) (cchar ?r (k - 1))" "0 < k" "k \<le> length ?r"
    using decode_switch_table [OF k] by auto
  let ?len = "take (k - 1) ?r" and ?c = "cchar ?r (k - 1)"
  have r: "?r = ?len @ ?c # drop k ?r"
  proof -
    have "k - 1 < length ?r" and "Suc (k - 1) = k" using tab(2,3) by linarith+
    then show ?thesis using id_take_nth_drop [of "k - 1" ?r] by (simp add: cchar_def)
  qed
  have len: "length ?len + 1 = k" using tab(2,3) by simp
  have "length t = length pre + length ?r" using pre(1) by (metis length_append)
  then have "n = length pre + length ?len + 2" using n len by simp
  moreover have "t = pre @ ?len @ ?c # drop k ?r" using pre(1) r by metis
  ultimately show ?thesis using that [of pre ?len ?c "drop k ?r"] pre(2) tab(1) k r len by metis
qed

lemma drop_takeWhile: "drop (length (takeWhile P xs)) xs = dropWhile P xs"
  by (simp add: dropWhile_eq_drop)

lemma is_flag_eq: "(\<lambda>c. c \<in> set ''0 #-+'') = is_flag"
  by (simp add: is_flag_def fun_eq_iff)

lemma directive_parse:
  assumes "directive_prefix pre" and "directive_kind cv len c"
  shows "pf_len (parse_directive (CHR ''%'' # pre @ len @ [c])) = len"
    and "pf_conv (parse_directive (CHR ''%'' # pre @ len @ [c])) = c"
    and "directive_length (CHR ''%'' # pre @ len @ c # r) = length pre + length len + 2"
proof -
  have tail: "std_tail (pre @ len @ c # x) = len @ c # x" for x
    using std_tail_prefix [OF assms(1) directive_kind_hl(3) [OF assms(2)]] .
  have parse: "pf_len (parse_directive (CHR ''%'' # s)) = takeWhile (\<lambda>c. c \<in> set ''hl'') (std_tail s) \<and>
      pf_conv (parse_directive (CHR ''%'' # s)) = cchar (dropWhile (\<lambda>c. c \<in> set ''hl'') (std_tail s)) 0" for s
    unfolding parse_directive_def std_tail_def Let_def drop_takeWhile list.sel is_flag_eq
    by (simp split: prod.split)
  show "pf_len (parse_directive (CHR ''%'' # pre @ len @ [c])) = len"
    and "pf_conv (parse_directive (CHR ''%'' # pre @ len @ [c])) = c"
    using parse [of "pre @ len @ [c]"] tail [of "[]"] directive_kind_hl(1,2) [OF assms(2), of "[]"] by simp_all
  have "directive_length (CHR ''%'' # s) =
      length s + 1 - length (dropWhile (\<lambda>c. c \<in> set ''hl'') (std_tail s)) + 1" for s
    unfolding directive_length_def std_tail_def Let_def list.sel is_flag_eq by simp
  then show "directive_length (CHR ''%'' # pre @ len @ c # r) = length pre + length len + 2"
    using tail [of r] directive_kind_hl(2) [OF assms(2), of r] by simp
qed

section \<open>The encoder on a supported format\<close>

lemma keep_char_switch:
  "keep_char c \<Longrightarrow> encode_switch (c # s) = Inr (None, 1, True) \<and> c \<noteq> NUL \<and> c \<noteq> CHR ''%''"
  by (auto simp: encode_switch_def keep_char_def isdigit_simps)

lemma encode_keep:
  "\<forall>c \<in> set pre. keep_char c \<Longrightarrow> encode_loop M (pre @ r) True args b dst = encode_loop M r True args b dst"
proof (induction pre)
  case Nil
  then show ?case by simp
next
  case (Cons c pre)
  then show ?case
    using keep_char_switch [of c "pre @ r"] by (simp add: encode_loop.simps [of M "c # pre @ r"])
qed

lemma encode_literal:
  "\<forall>c \<in> set xs. c \<noteq> NUL \<and> c \<noteq> CHR ''%'' \<Longrightarrow>
   encode_loop M (xs @ r) False args b dst = encode_loop M r False args b dst"
proof (induction xs)
  case Nil
  then show ?case by simp
next
  case (Cons c xs)
  then show ?case by (simp add: encode_loop.simps [of M "c # xs @ r"])
qed

lemma directive_kind_chars:
  "directive_kind cv len c \<Longrightarrow> cv \<noteq> CvPercent \<Longrightarrow> \<forall>x \<in> set (len @ [c]). x \<noteq> NUL \<and> x \<noteq> CHR ''%''"
  by (cases cv) auto

lemma directive_kind_switch:
  assumes "directive_kind cv len c" and "cv \<noteq> CvPercent"
  shows "\<exists>n \<le> length len + 1. encode_switch (len @ c # r) = Inr (Some cv, n, False)"
proof -
  have "encode_switch (len @ c # r) =
      Inr (Some cv, if cv = CvLong64 then 2 else if len = ''hh'' then 0 else 1, False)"
    using assms by (cases cv; simp; elim disjE conjE; simp add: encode_switch_def numeral_2_eq_2)
  moreover have "cv = CvLong64 \<Longrightarrow> 2 \<le> length len + 1"
    using assms by auto
  ultimately show ?thesis by (intro exI [of _ "if cv = CvLong64 then 2 else if len = ''hh'' then 0 else 1"]) simp
qed

lemma encode_conv:
  assumes "directive_kind cv len c" and "cv \<noteq> CvPercent"
  shows "encode_loop M (len @ c # r) True args b dst =
    bindE (store_conv M cv args b dst) (\<lambda>(args', b', dst'). encode_loop M r False args' b' dst')"
proof -
  obtain n where n: "n \<le> length len + 1" "encode_switch (len @ c # r) = Inr (Some cv, n, False)"
    using directive_kind_switch [OF assms] by blast
  have "len @ c # r = (len @ [c]) @ r" by simp
  then have rest: "drop n (len @ c # r) = drop n (len @ [c]) @ r"
    using n(1) by (simp only: drop_append) simp
  have "\<forall>x \<in> set (drop n (len @ [c])). x \<noteq> NUL \<and> x \<noteq> CHR ''%''"
    using directive_kind_chars [OF assms] in_set_dropD by metis
  then have lit: "encode_loop M (drop n (len @ c # r)) False a x d = encode_loop M r False a x d" for a x d
    unfolding rest by (rule encode_literal)
  have "cchar (len @ c # r) 0 \<in> set (len @ [c])" by (cases len) auto
  then have "cchar (len @ c # r) 0 \<noteq> NUL" "cchar (len @ c # r) 0 \<noteq> CHR ''%''"
    using directive_kind_chars [OF assms] by blast+
  then show ?thesis
    using n(2) by (subst encode_loop.simps) (simp add: lit split_def del: drop_append)
qed

lemma encode_directive:
  assumes "directive_prefix pre" and "directive_kind cv len c"
  shows "encode_loop M (CHR ''%'' # pre @ len @ c # r) False args b dst =
    (if cv = CvPercent then encode_loop M r False args b dst
     else bindE (store_conv M cv args b dst) (\<lambda>(args', b', dst'). encode_loop M r False args' b' dst'))"
proof -
  have "encode_loop M (CHR ''%'' # pre @ len @ c # r) False args b dst =
      encode_loop M (len @ c # r) True args b dst"
    using encode_keep [of pre M "len @ c # r"] directive_prefix_keep [OF assms(1)]
    by (simp add: encode_loop.simps [of M "CHR ''%'' # pre @ len @ c # r"])
  moreover have "encode_loop M (len @ c # r) True args b dst = encode_loop M r False args b dst" if "cv = CvPercent"
    using assms(2) that by (simp add: encode_loop.simps [of M "CHR ''%'' # r"])
  ultimately show ?thesis using encode_conv [OF assms(2)] by simp
qed

section \<open>Arguments that suit a directive\<close>

fun arg_fits :: "cmem \<Rightarrow> conv \<Rightarrow> carg \<Rightarrow> bool" where
  "arg_fits M CvLong64 a \<longleftrightarrow> (\<exists>w. a = CLong w)"
| "arg_fits M CvDouble a \<longleftrightarrow> (\<exists>w. a = CDouble w)"
| "arg_fits M CvPtr a \<longleftrightarrow> (\<exists>w. a = CPtr w)"
| "arg_fits M CvString a \<longleftrightarrow> (\<exists>p. a = CPtr p \<and> (p = 0 \<or> p \<in> dom M))"
| "arg_fits M CvPercent a \<longleftrightarrow> False"
| "arg_fits M cv a \<longleftrightarrow> (\<exists>w. a = CInt w) \<or> (\<exists>w. a = CLong w)"

lemma store_conv_fits:
  assumes "arg_fits M cv a" and "dst + length (conv_image M cv a) \<le> length b"
    and "length (conv_image M cv a) < 4294967296"
  shows "store_conv M cv (a # args) b dst =
    Inr (args, take dst b @ conv_image M cv a @ drop (dst + length (conv_image M cv a)) b,
         dst + length (conv_image M cv a))"
proof (cases cv)
  case CvString
  then obtain p where a: "a = CPtr p" and p: "p = 0 \<or> p \<in> dom M" using assms(1) by auto
  show ?thesis
  proof (cases "p = 0")
    case True
    then show ?thesis using assms(2) CvString a
      by (simp add: conv_image_def memSetString_def)
  next
    case False
    then obtain s where s: "M p = Some s" using p by auto
    have "unat (word_of_nat (length s) + 1 :: u32) = length s + 1"
      using assms(3) CvString a s False by (simp add: conv_image_def unat_add_u32 unat_of_nat)
    then show ?thesis using assms(2) CvString a s False
      by (simp add: conv_image_def memSetString_def deref_string_def)
  qed
qed (use assms in \<open>auto simp: conv_image_def memSetWord_def memSetByte_def memSetInt_def memSetDouble_def
        memSetPtr_def memSetLong64_def\<close>)

lemma ucast_chain [simp]:
  "(ucast (ucast (w :: u16) :: u32) :: u16) = w"
  "(ucast (ucast (v :: u8) :: u32) :: u8) = v"
  "(ucast (ucast (x :: u64) :: u32) :: u16) = ucast x"
  "(ucast (ucast (x :: u64) :: u32) :: u8) = ucast x"
  "(ucast (ucast (ucast (y :: u32) :: u16) :: u32) :: u8) = ucast y"
  "(ucast (ucast (ucast (x :: u64) :: u16) :: u32) :: u8) = ucast x"
  by (auto intro!: bit_word_eqI simp: bit_ucast_iff)

lemma c_sprintf_word:
  assumes "pf_len (parse_directive d) = len" and "pf_conv (parse_directive d) = c"
    and "directive_kind CvWord len c" and "arg_fits M CvWord a"
  shows "c_sprintf d (CInt (ucast (ucast (arg32 a) :: u16))) = c_sprintf d a"
proof -
  have arg: "int_arg len (CInt (ucast (ucast (arg32 a) :: u16))) = int_arg len a"
    using assms(3,4) by (elim arg_fits.elims; elim disjE exE) (auto simp: int_arg_def)
  have "c = CHR ''d'' \<or> c = CHR ''i'' \<or> c \<in> set ''uoxX''" using assms(3) by auto
  then show ?thesis unfolding c_sprintf_def assms(1,2) Let_def arg by (elim disjE) simp_all
qed

lemma c_format_fits:
  assumes "directive_kind cv len c" and "cv \<noteq> CvPercent"
    and "pf_len (parse_directive d) = len" and "pf_conv (parse_directive d) = c"
    and "c_format M d a = Inr x"
  shows "arg_fits M cv a"
proof -
  have int: "(\<exists>w. a = CInt w) \<or> (\<exists>w. a = CLong w)" if "bindE (int_arg l a) f = Inr x" for l f
    using that by (cases a) (auto simp: int_arg_def split: if_splits)
  have long: "\<exists>w. a = CLong w" if "bindE (int_arg ''ll'' a) f = Inr x" for f
    using that by (cases a) (auto simp: int_arg_def split: if_splits)
  show ?thesis
  proof (cases cv)
    case CvString
    then show ?thesis using assms
      by (auto simp: c_format_def deref_string_def split: carg.splits if_splits option.splits)
  next
    case CvLong64
    then show ?thesis
      using assms long unfolding c_format_def c_sprintf_def Let_def by (auto split: if_splits)
  qed (use assms int in \<open>auto simp: c_format_def c_sprintf_def Let_def split: if_splits carg.splits\<close>)
qed

section \<open>The decoder on a supported format\<close>

lemma strlcpy_loop_copy:
  "n \<le> length s \<Longrightarrow> NUL \<notin> set (take n s) \<Longrightarrow> d + n \<le> length b \<Longrightarrow>
   strlcpy_loop b d s (Suc n) = Inr (take d b @ take n s @ drop (d + n) b, d + n, 0)"
proof (induction n arbitrary: b d s)
  case 0
  then show ?case by simp
next
  case (Suc n)
  then obtain c t where s: "s = c # t" by (cases s) auto
  let ?b = "take d b @ c # drop (Suc d) b"
  have "strlcpy_loop ?b (Suc d) t (Suc n) = Inr (take (Suc d) ?b @ take n t @ drop (Suc d + n) ?b, Suc d + n, 0)"
    using Suc.prems s by (intro Suc.IH) auto
  moreover have "take (Suc d) ?b @ take n t @ drop (Suc d + n) ?b = take d b @ take (Suc n) s @ drop (d + Suc n) b"
    using Suc.prems s by (simp add: add.commute)
  moreover have "c \<noteq> NUL" using Suc.prems(2) s by auto
  ultimately show ?case using Suc.prems s by simp
qed

lemma takeWhile_before: "x \<notin> set xs \<Longrightarrow> takeWhile (\<lambda>c. c \<noteq> x) (xs @ x # ys) = xs"
  by (induction xs) auto

lemma tempFormat_of_copy:
  assumes "n \<le> 31" and "n \<le> length s" and "NUL \<notin> set (take n s)"
  shows "tempFormat_of s n = Inr (take n s)"
proof -
  let ?b = "replicate 32 NUL"
  have "strlcpy_loop ?b 0 s (Suc n) = Inr (take n s @ drop n ?b, n, 0)"
    using strlcpy_loop_copy [of n s 0 ?b] assms by simp
  then have "strlcpy ?b s (n + 1) = mem_write (take n s @ drop n ?b) n [NUL]"
    by (simp add: strlcpy_def)
  also have "\<dots> = Inr (take n s @ NUL # drop (Suc n) ?b)"
    using assms(1,2) by simp
  finally show ?thesis
    using assms(3) by (simp add: tempFormat_of_def takeWhile_before)
qed

lemma memGetString_loop_copy:
  assumes "held buf (unat i) (bytes_of str @ [0])" and "c_string str"
    and "unat i + length str < 4294967295" and "di + length str \<le> limit"
    and "off + di + length str < length dst"
  shows "\<exists>dst'. memGetString_loop buf i dst off di limit corr = Inr (dst', di + length str, corr) \<and>
    wrote dst (off + di) (bytes_of str) dst'"
  using assms
proof (induction str arbitrary: i dst di)
  case Nil
  then show ?case
    by (subst memGetString_loop.simps) (auto simp: held_get intro: wrote_Nil)
next
  case (Cons c str)
  let ?dst = "take (off + di) dst @ byte_of c # drop (Suc (off + di)) dst"
  have c: "byte_of c \<noteq> 0"
    using Cons.prems(2) by (auto simp: c_string_def)
  have i: "unat (i + 1) = unat i + 1"
    using Cons.prems(3) by (simp add: unat_add_u32)
  have "\<exists>dst'. memGetString_loop buf (i + 1) ?dst off (di + 1) limit corr = Inr (dst', di + 1 + length str, corr) \<and>
      wrote ?dst (off + (di + 1)) (bytes_of str) dst'"
    using Cons.prems i by (intro Cons.IH) (auto simp: held_Cons c_string_def)
  then obtain dst' where dst': "memGetString_loop buf (i + 1) ?dst off (di + 1) limit corr = Inr (dst', di + 1 + length str, corr)"
      "wrote ?dst (off + (di + 1)) (bytes_of str) dst'" by blast
  have w: "mem_write dst (off + di) [byte_of c] = Inr ?dst"
    using Cons.prems(5) by simp
  then have "wrote dst (off + di) [byte_of c] ?dst"
    using Cons.prems(5) by (intro wrote_literal) auto
  then have "wrote dst (off + di) ([byte_of c] @ bytes_of str) dst'"
    using dst'(2) by (intro wrote_trans) simp_all
  moreover have "mem_get buf (unat i) = Inr (byte_of c)"
    using Cons.prems(1) held_get by simp
  then have "memGetString_loop buf i dst off di limit corr = Inr (dst', di + 1 + length str, corr)"
    using c w dst'(1) Cons.prems(4) by (subst memGetString_loop.simps) simp
  ultimately show ?case by auto
qed

lemma dc_print_wrote:
  assumes "c_sprintf fmt a = Inr x" and "dc_pos st + length x < length (dc_out st)"
  shows "\<exists>out'. dc_print fmt a n st =
      Inr (st\<lparr>dc_index := dc_index st + n, dc_out := out', dc_pos := dc_pos st + length x\<rparr>) \<and>
    wrote (dc_out st) (dc_pos st) (bytes_of x) out'"
proof -
  obtain out' where "mem_write (dc_out st) (dc_pos st) (bytes_of x @ [0]) = Inr out'"
    using assms(2) by simp
  then have "dc_print fmt a n st =
      Inr (st\<lparr>dc_index := dc_index st + n, dc_out := out', dc_pos := dc_pos st + length x\<rparr>)"
      "wrote (dc_out st) (dc_pos st) (bytes_of x) out'"
    using assms wrote_emit [of "dc_pos st" "bytes_of x" "dc_out st" 0 out']
    by (simp_all add: dc_print_def dc_emit_def StringFormat_indexInc_def)
  then show ?thesis by blast
qed

text \<open>The effect of one directive that prints \<open>x\<close> and consumes \<open>n\<close> bytes.\<close>

definition printed :: "nat \<Rightarrow> string \<Rightarrow> decoder \<Rightarrow> decoder \<Rightarrow> bool" where
  "printed n x st st' \<longleftrightarrow>
     (\<exists>out'. st' = st\<lparr>dc_index := dc_index st + word_of_nat n, dc_out := out', dc_pos := dc_pos st + length x\<rparr> \<and>
        wrote (dc_out st) (dc_pos st) (bytes_of x) out')"

lemma printed_trans:
  assumes "printed m xs st st'" and "printed n ys st' st''"
  shows "printed (m + n) (xs @ ys) st st''"
  using assms unfolding printed_def
  by (auto simp: add.assoc intro!: wrote_trans)

lemma dc_print_printed:
  "c_sprintf fmt a = Inr x \<Longrightarrow> dc_pos st + length x < length (dc_out st) \<Longrightarrow> n = word_of_nat k \<Longrightarrow>
   \<exists>st'. dc_print fmt a n st = Inr st' \<and> printed k x st st'"
  using dc_print_wrote [of fmt a x st n] by (auto simp: printed_def)

lemma directive_kind_conv:
  "directive_kind cv len c \<Longrightarrow> cv \<noteq> CvString \<Longrightarrow> c \<noteq> CHR ''s''"
  by (cases cv) auto

lemma sint_nonneg: "unat (w :: u32) < 2 ^ 31 \<Longrightarrow> 0 \<le> sint w"
proof -
  assume "unat w < 2 ^ 31"
  then have "\<not> bit (unat w) 31" by (simp add: bit_iff_odd)
  then have "\<not> bit w 31" by (simp add: bit_unsigned_iff)
  then show ?thesis using bit_last_iff [of w] by simp
qed

lemma decode_conv_string:
  assumes "held args (unat (dc_index st)) (bytes_of str @ [0])" and "c_string str"
    and "unat (dc_index st) + length str + 1 \<le> unat maxLength" and "unat maxLength < 2 ^ 31"
    and "dc_pos st + length str < length (dc_out st)" and "tempFormat_of s n = Inr d"
  shows "\<exists>st'. decode_conv args maxLength CvString s n st = Inr (True, st') \<and> printed (length str + 1) str st st'"
proof -
  let ?i = "dc_index st"
  have "?i \<le> maxLength" using assms(3) by (simp add: word_le_nat_alt)
  then have "unat (maxLength - ?i) = unat maxLength - unat ?i" by (simp add: unat_sub)
  moreover have "1 \<le> maxLength - ?i" using assms(3) calculation by (simp add: word_le_nat_alt)
  ultimately have room: "unat (maxLength - ?i - 1) = unat maxLength - unat ?i - 1"
    by (simp add: unat_sub)
  then have nonneg: "0 \<le> sint (maxLength - ?i - 1)"
    using assms(4) by (intro sint_nonneg) simp
  have fit: "unat ?i + length str < 4294967295" "0 + length str \<le> unat (maxLength - ?i - 1)"
      "dc_pos st + 0 + length str < length (dc_out st)"
    using assms(3-5) room by simp_all
  obtain out' where out':
      "memGetString args ?i (dc_out st) (dc_pos st) (maxLength - ?i - 1) (dc_corrupted st) =
         Inr (out', length str, dc_corrupted st)"
      "wrote (dc_out st) (dc_pos st) (bytes_of str) out'"
    using memGetString_loop_copy [OF assms(1,2) fit, of "dc_corrupted st"] by (auto simp: memGetString_def)
  show ?thesis
    using assms(6) nonneg out' by (auto simp: decode_conv_def Let_def printed_def StringFormat_indexInc_def ac_simps)
qed

lemma decode_conv_fits:
  assumes kind: "directive_kind cv len c" and cv: "cv \<noteq> CvPercent" and cv_len: "cv = CvInt \<Longrightarrow> len = ''''"
    and d: "pf_len (parse_directive d) = len" "pf_conv (parse_directive d) = c"
    and temp: "tempFormat_of s n = Inr d" and str: "cv = CvString \<Longrightarrow> d = ''%s''"
    and fmt: "c_format M d a = Inr x" and M: "cmem_ok M"
    and held: "held args (unat (dc_index st)) (conv_image M cv a)"
    and max: "unat (dc_index st) + length (conv_image M cv a) \<le> unat maxLength" "unat maxLength < 2 ^ 31"
    and out: "dc_pos st + length x < length (dc_out st)"
  shows "\<exists>st'. decode_conv args maxLength cv s n st = Inr (True, st') \<and>
    printed (length (conv_image M cv a)) x st st'"
proof -
  have fits: "arg_fits M cv a" using c_format_fits [OF kind cv d fmt] .
  show ?thesis
  proof (cases "cv = CvString")
    case True
    then obtain p where a: "a = CPtr p" "p = 0 \<or> p \<in> dom M" using fits by auto
    have sp: "parse_directive ''%s'' = \<lparr>pf_flags = '''', pf_width = 0, pf_prec = None, pf_len = '''', pf_conv = CHR ''s''\<rparr>"
      by (simp add: parse_directive_def isdigit_simps digits_val_def)
    have x: "x = arg_text M a"
      using fmt str [OF True] a by (auto simp: c_format_def sp pad_def deref_string_def)
    then have "c_string x"
      using M a by (auto simp: cmem_ok_def ran_def c_string_def)
    then show ?thesis
      using decode_conv_string [of args st x maxLength s n d] held max out temp True x
      by (simp add: conv_image_def)
  next
    case False
    then have sprintf: "c_sprintf d a = Inr x"
      using fmt d(2) directive_kind_conv [OF kind] by (simp add: c_format_def)
    have print: "\<exists>st'. dc_print d b (word_of_nat k) st = Inr st' \<and> printed k x st st'"
      if "c_sprintf d b = Inr x" for b k
      using dc_print_printed [OF that out] by blast
    show ?thesis
    proof (cases cv)
      case CvWord
      then have "c_sprintf d (CInt (ucast (ucast (arg32 a) :: u16))) = Inr x"
        using c_sprintf_word [OF d] kind fits sprintf by simp
      from print [OF this, of 2] show ?thesis using held_read_n [OF held, of 2] CvWord temp
        by (auto simp: decode_conv_def conv_image_def memGetWord_def)
    next
      case CvByte
      then have "c = CHR ''c''" using kind by simp
      moreover obtain i k where "int_arg '''' (CInt (ucast (ucast (arg32 a) :: u8))) = Inr (i, k)"
        by (simp add: int_arg_def)
      moreover from this obtain i' k' where "int_arg '''' a = Inr (i', k')" "k' mod 256 = k mod 256"
        using fits CvByte by (auto simp: int_arg_def unsigned_ucast_eq take_bit_eq_mod unat_mod)
      moreover from this(2) have "(char_of k' :: char) = char_of k" by simp
      ultimately have "c_sprintf d (CInt (ucast (ucast (arg32 a) :: u8))) = Inr x"
        using sprintf d unfolding c_sprintf_def Let_def by (simp del: char_of_quasi_inj)
      from print [OF this, of 1] show ?thesis using held_read_n [OF held, of 1] CvByte temp
        by (auto simp: decode_conv_def conv_image_def memGetByte_def)
    next
      case CvInt
      then have "pf_len (parse_directive d) = ''''" using cv_len d by simp
      then have "c_sprintf d (CInt (arg32 a)) = Inr x"
        using sprintf fits CvInt kind d by (auto simp: c_sprintf_def int_arg_def)
      from print [OF this, of 4] show ?thesis using held_read_n [OF held, of 4] CvInt temp
        by (auto simp: decode_conv_def conv_image_def memGetInt_def)
    next
      case CvDouble
      then obtain w where "a = CDouble w" using fits by auto
      with print [OF sprintf, of 8] show ?thesis using held_read_n [OF held, of 8] CvDouble temp
        by (auto simp: decode_conv_def conv_image_def memGetDouble_def)
    next
      case CvPtr
      then obtain w where "a = CPtr w" using fits by auto
      with print [OF sprintf, of 8] show ?thesis using held_read_n [OF held, of 8] CvPtr temp
        by (auto simp: decode_conv_def conv_image_def memGetPtr_def)
    next
      case CvLong64
      then obtain w where "a = CLong w" using fits by auto
      with print [OF sprintf, of 8] show ?thesis using held_read_n [OF held, of 8] CvLong64 temp
        by (auto simp: decode_conv_def conv_image_def memGetLong64_def)
    qed (use False cv in auto)
  qed
qed

section \<open>One directive at a time\<close>

lemma spec_simps:
  "arg_bytes M [] args = []"
  "c \<noteq> CHR ''%'' \<Longrightarrow> arg_bytes M (c # cs) args = arg_bytes M cs args"
  "fmt_supported []"
  "c \<noteq> CHR ''%'' \<Longrightarrow> fmt_supported (c # cs) = fmt_supported cs"
  by (simp_all add: arg_bytes.simps [of M "[]"] arg_bytes.simps [of M "c # cs"]
        fmt_supported.simps [of "[]"] fmt_supported.simps [of "c # cs"])

lemma decode_directiveI:
  assumes "decode_directive (CHR ''%'' # t) = Some (cv, n)" and "t = pre @ len @ c # r"
    and "n = length pre + length len + 2"
  shows "take n (CHR ''%'' # t) = CHR ''%'' # pre @ len @ [c] \<and> drop n (CHR ''%'' # t) = r \<and> n \<le> length (CHR ''%'' # t)"
  using assms by simp

text \<open>A supported format that starts with a directive, taken apart once for both directions.\<close>

lemma supported_directive:
  assumes "fmt_supported (CHR ''%'' # t)" and "c_printf M (CHR ''%'' # t) args = Inr x" and "c_string (CHR ''%'' # t)"
  obtains (percent) pre r y where "t = pre @ ''%'' @ r" and "directive_prefix pre" and "fmt_supported r"
      and "decode_directive (CHR ''%'' # t) = Some (CvPercent, length pre + 2)" and "c_string r"
      and "c_printf M r args = Inr y" and "x = CHR ''%'' # y"
      and "arg_bytes M (CHR ''%'' # t) args = arg_bytes M r args"
  | (arg) pre len c r cv n a as x1 x2 where "t = pre @ len @ c # r" and "directive_prefix pre"
      and "directive_kind cv len c" and "cv \<noteq> CvPercent" and "cv = CvInt \<Longrightarrow> len = ''''"
      and "n = length pre + length len + 2" and "n \<le> 31"
      and "cv = CvString \<Longrightarrow> CHR ''%'' # pre @ len @ [c] = ''%s''"
      and "decode_directive (CHR ''%'' # t) = Some (cv, n)" and "c_string r"
      and "fmt_supported r" and "args = a # as" and "c_format M (CHR ''%'' # pre @ len @ [c]) a = Inr x1"
      and "c_printf M r as = Inr x2" and "x = x1 @ x2"
      and "arg_bytes M (CHR ''%'' # t) args = conv_image M cv a @ arg_bytes M r as"
proof -
  let ?s = "CHR ''%'' # t"
  obtain cv n where dd: "decode_directive ?s = Some (cv, n)"
      and ok: "directive_ok cv (take n ?s)" "fmt_supported (drop n ?s)"
    using assms(1) by (auto simp: fmt_supported.simps [of ?s] split: option.splits)
  obtain pre len c r where t: "t = pre @ len @ c # r" and pre: "directive_prefix pre"
      and kind: "directive_kind cv len c" and n: "n = length pre + length len + 2"
    using decode_directiveE [OF dd] by metis
  have parts: "take n ?s = CHR ''%'' # pre @ len @ [c]" "drop n ?s = r"
    using decode_directiveI [OF dd t n] by auto
  have parse: "pf_len (parse_directive (take n ?s)) = len" "pf_conv (parse_directive (take n ?s)) = c"
      "directive_length ?s = n"
    using directive_parse(1,2) [OF pre kind] directive_parse(3) [OF pre kind, of r] parts(1) t n by simp_all
  have bytes: "arg_bytes M ?s args = (if cv = CvPercent then arg_bytes M r args
      else case args of [] \<Rightarrow> [] | a # as \<Rightarrow> conv_image M cv a @ arg_bytes M r as)"
    using dd parts(2) by (simp add: arg_bytes.simps [of M ?s] cong: list.case_cong)
  have printf: "c_printf M ?s args =
      (if c = CHR ''%'' then bindE (c_printf M r args) (\<lambda>t. Inr (CHR ''%'' # t))
       else case args of [] \<Rightarrow> Inl BadVarArg
         | a # as \<Rightarrow> bindE (c_format M (take n ?s) a) (\<lambda>x. bindE (c_printf M r as) (\<lambda>t. Inr (x @ t))))"
    using parse parts(2) by (simp add: c_printf.simps [of M ?s] Let_def cong: list.case_cong)
  have r: "c_string r" using assms(3) t by (simp add: c_string_def)
  show thesis
  proof (cases "cv = CvPercent")
    case True
    then have "len = ''''" "c = CHR ''%''" using kind by simp_all
    then show thesis using percent [of pre r] t pre ok(2) parts(2) dd True n r bytes printf assms(2)
      by (auto simp: bindE_eq_Inr_iff)
  next
    case False
    then have "c \<noteq> CHR ''%''" using kind by (cases cv) auto
    then have "(case args of [] \<Rightarrow> Inl BadVarArg
        | a # as \<Rightarrow> bindE (c_format M (take n ?s) a) (\<lambda>x. bindE (c_printf M r as) (\<lambda>t. Inr (x @ t)))) = Inr x"
      using printf assms(2) by simp
    then obtain a as x1 x2 where "args = a # as" "c_format M (take n ?s) a = Inr x1" "c_printf M r as = Inr x2" "x = x1 @ x2"
      by (auto simp: bindE_eq_Inr_iff split: list.splits)
    moreover have "length (take n ?s) = n" using parts(1) n by simp
    then have "n \<le> 31" "cv = CvString \<Longrightarrow> take n ?s = ''%s''" "cv = CvInt \<Longrightarrow> len = ''''"
      using ok(1) False parts(1) kind unfolding directive_ok_def by auto
    ultimately show thesis
      using arg [of pre len c r cv n a as x1 x2] t pre kind False n dd r ok(2) parts bytes by simp
  qed
qed

lemma encode_supported:
  assumes "fmt_supported s" and "c_string s" and "c_printf M s args = Inr x"
    and "dst + length (arg_bytes M s args) \<le> length b" and "length (arg_bytes M s args) < 4294967296"
  shows "encode_loop M s False args b dst =
    Inr (take dst b @ arg_bytes M s args @ drop (dst + length (arg_bytes M s args)) b, dst + length (arg_bytes M s args))"
  using assms
proof (induction "length s" arbitrary: s args x b dst rule: less_induct)
  case less
  show ?case
  proof (cases s)
    case Nil
    then show ?thesis by (subst encode_loop.simps) (simp add: spec_simps)
  next
    case (Cons c t)
    show ?thesis
    proof (cases "c = CHR ''%''")
      case False
      then have s: "fmt_supported t" "c_string t" "arg_bytes M s args = arg_bytes M t args"
        using less.prems Cons by (simp_all add: spec_simps c_string_def)
      have c: "c \<noteq> NUL" using less.prems(2) Cons by (auto simp: c_string_def)
      obtain y where y: "c_printf M t args = Inr y"
        using less.prems(3) Cons False by (auto simp: c_printf_simps bindE_eq_Inr_iff)
      show ?thesis
        using less.hyps [of t, OF _ s(1,2) y] less.prems(4,5) Cons False c s(3)
        by (subst encode_loop.simps) simp
    next
      case True
      then have sup: "fmt_supported (CHR ''%'' # t)" "c_printf M (CHR ''%'' # t) args = Inr x" "c_string (CHR ''%'' # t)"
        using less.prems Cons by simp_all
      from sup show ?thesis
      proof (cases rule: supported_directive)
        case (percent pre r y)
        then show ?thesis
          using less.hyps [of r args y dst b] encode_directive [OF percent(2), of CvPercent "''''" "CHR ''%''" M r]
            less.prems(4,5) Cons True by simp
      next
        case (arg pre len c r cv n a as x1 x2)
        let ?img = "conv_image M cv a" and ?rest = "arg_bytes M r as"
        have d: "pf_len (parse_directive (CHR ''%'' # pre @ len @ [c])) = len"
            "pf_conv (parse_directive (CHR ''%'' # pre @ len @ [c])) = c"
          using directive_parse(1,2) [OF arg(2,3)] by auto
        have fits: "arg_fits M cv a" using c_format_fits [OF arg(3,4) d arg(13)] .
        let ?b = "take dst b @ ?img @ drop (dst + length ?img) b"
        have store: "store_conv M cv (a # as) b dst = Inr (as, ?b, dst + length ?img)"
          using store_conv_fits [OF fits] less.prems(4,5) Cons True arg(16) by simp
        have "encode_loop M r False as ?b (dst + length ?img) =
            Inr (take (dst + length ?img) ?b @ ?rest @ drop (dst + length ?img + length ?rest) ?b,
                 dst + length ?img + length ?rest)"
          using less.prems(4,5) Cons True arg by (intro less.hyps) auto
        moreover have "encode_loop M s False args b dst = encode_loop M r False as ?b (dst + length ?img)"
          using encode_directive [OF arg(2,3), of M r args b dst] arg(1,4,12) store Cons True by simp
        ultimately show ?thesis
          using less.prems(4) Cons True arg(16) by (simp add: ac_simps)
      qed
    qed
  qed
qed

lemma printed_fields:
  assumes "printed n x st st'" and "unat (dc_index st) + n < 4294967296"
  shows "unat (dc_index st') = unat (dc_index st) + n" and "dc_pos st' = dc_pos st + length x"
    and "length (dc_out st') = length (dc_out st)"
  using assms by (auto simp: printed_def wrote_def unat_add_u32 unat_of_nat)

lemma printed_literal:
  assumes "dc_pos st + 1 < length (dc_out st)"
  shows "\<exists>out. mem_write (dc_out st) (dc_pos st) [byte_of c] = Inr out \<and>
    printed 0 [c] st (st\<lparr>dc_out := out, dc_pos := dc_pos st + 1\<rparr>)"
proof -
  obtain out where out: "mem_write (dc_out st) (dc_pos st) [byte_of c] = Inr out" using assms by simp
  have "wrote (dc_out st) (dc_pos st) [byte_of c] out" using wrote_literal [OF assms out] .
  then show ?thesis using out unfolding printed_def by auto
qed

lemma printed_Nil: "dc_pos st < length (dc_out st) \<Longrightarrow> printed 0 '''' st st"
  unfolding printed_def by (intro exI [of _ "dc_out st"]) (simp add: wrote_Nil)

lemma decode_supported:
  assumes "fmt_supported s" and "c_string s" and "c_printf M s args = Inr x" and "cmem_ok M"
    and "held ab (unat (dc_index st)) (arg_bytes M s args)"
    and "unat (dc_index st) + length (arg_bytes M s args) \<le> unat maxLength" and "unat maxLength < 2 ^ 31"
    and "dc_pos st + length x < length (dc_out st)"
  shows "\<exists>st'. decode_loop ab maxLength s st = Inr (True, st') \<and>
    printed (length (arg_bytes M s args)) x st st'"
  using assms
proof (induction "length s" arbitrary: s args x st rule: less_induct)
  case less
  show ?case
  proof (cases s)
    case Nil
    then show ?thesis using less.prems printed_Nil by (subst decode_loop.simps) (simp add: spec_simps c_printf_simps)
  next
    case (Cons c t)
    show ?thesis
    proof (cases "c = CHR ''%''")
      case False
      then have s: "fmt_supported t" "c_string t" "arg_bytes M s args = arg_bytes M t args"
        using less.prems Cons by (simp_all add: spec_simps c_string_def)
      have c: "c \<noteq> NUL" using less.prems(2) Cons by (auto simp: c_string_def)
      obtain y where y: "c_printf M t args = Inr y" "x = c # y"
        using less.prems(3) Cons False by (auto simp: c_printf_simps bindE_eq_Inr_iff)
      obtain out where out: "mem_write (dc_out st) (dc_pos st) [byte_of c] = Inr out"
          "printed 0 [c] st (st\<lparr>dc_out := out, dc_pos := dc_pos st + 1\<rparr>)"
        using printed_literal [of st c] less.prems(8) y by auto
      let ?st = "st\<lparr>dc_out := out, dc_pos := dc_pos st + 1\<rparr>"
      have "\<exists>st'. decode_loop ab maxLength t ?st = Inr (True, st') \<and> printed (length (arg_bytes M t args)) y ?st st'"
        using less.prems Cons s y mem_write_length [OF out(1)] by (intro less.hyps) auto
      then obtain st' where st': "decode_loop ab maxLength t ?st = Inr (True, st')"
          "printed (length (arg_bytes M t args)) y ?st st'" by blast
      have "decode_loop ab maxLength s st = decode_loop ab maxLength t ?st"
        using Cons False c out(1) by (subst decode_loop.simps) simp
      then show ?thesis using st' printed_trans [OF out(2) st'(2)] s(3) y(2) by simp
    next
      case True
      then have sup: "fmt_supported (CHR ''%'' # t)" "c_printf M (CHR ''%'' # t) args = Inr x" "c_string (CHR ''%'' # t)"
        using less.prems Cons by simp_all
      have step: "decode_loop ab maxLength s st = decode_loop ab maxLength (drop n s) st'"
        if "decode_directive s = Some (cv, n)" "decode_conv ab maxLength cv s n st = Inr (True, st')" for cv n st'
        using that Cons True by (subst decode_loop.simps) simp
      from sup show ?thesis
      proof (cases rule: supported_directive)
        case (percent pre r y)
        obtain out where out: "mem_write (dc_out st) (dc_pos st) (bytes_of ''%'' @ [0]) = Inr out"
          using less.prems(8) percent(7) by simp
        let ?st = "st\<lparr>dc_out := out, dc_pos := dc_pos st + 1\<rparr>"
        have "wrote (dc_out st) (dc_pos st) (bytes_of ''%'') out"
          using wrote_emit [OF _ out] less.prems(8) percent(7) by simp
        then have p: "printed 0 ''%'' st ?st" unfolding printed_def by auto
        have "\<exists>st'. decode_loop ab maxLength r ?st = Inr (True, st') \<and> printed (length (arg_bytes M r args)) y ?st st'"
          using less.prems Cons True percent mem_write_length [OF out] by (intro less.hyps) auto
        then obtain st' where st': "decode_loop ab maxLength r ?st = Inr (True, st')"
            "printed (length (arg_bytes M r args)) y ?st st'" by blast
        have "decode_loop ab maxLength s st = decode_loop ab maxLength r ?st"
          using step [OF _, of CvPercent "length pre + 2" ?st] percent(1,4) out Cons True
          by (simp add: decode_conv_def dc_emit_def)
        then show ?thesis using st' printed_trans [OF p st'(2)] percent(7,8) Cons True by simp
      next
        case (arg pre len c' r cv n a as x1 x2)
        let ?img = "conv_image M cv a" and ?rest = "arg_bytes M r as"
        have parts: "take n s = CHR ''%'' # pre @ len @ [c']" "drop n s = r" "n \<le> length s"
          using decode_directiveI [OF arg(9,1,6)] Cons True by auto
        have d: "pf_len (parse_directive (CHR ''%'' # pre @ len @ [c'])) = len"
            "pf_conv (parse_directive (CHR ''%'' # pre @ len @ [c'])) = c'"
          using directive_parse(1,2) [OF arg(2,3)] by auto
        have "NUL \<notin> set (take n s)" using less.prems(2) by (auto simp: c_string_def dest: in_set_takeD)
        then have temp: "tempFormat_of s n = Inr (CHR ''%'' # pre @ len @ [c'])"
          using tempFormat_of_copy [OF arg(7) parts(3)] parts(1) by simp
        have prems: "held ab (unat (dc_index st)) (?img @ ?rest)"
            "unat (dc_index st) + length ?img + length ?rest \<le> unat maxLength"
            "dc_pos st + length x1 + length x2 < length (dc_out st)"
          using less.prems(5,6,8) arg(15,16) Cons True by simp_all
        have here: "held ab (unat (dc_index st)) ?img" "unat (dc_index st) + length ?img \<le> unat maxLength"
            "dc_pos st + length x1 < length (dc_out st)"
          using prems by (simp_all add: held_append)
        obtain st1 where st1: "decode_conv ab maxLength cv s n st = Inr (True, st1)" "printed (length ?img) x1 st st1"
          using decode_conv_fits [OF arg(3,4,5) d temp arg(8,13) less.prems(4), of ab st maxLength] here less.prems(7)
          by auto
        have "unat (dc_index st) + length ?img < 4294967296"
          using prems(2) less.prems(7) by simp
        note f = printed_fields [OF st1(2) this]
        have "\<exists>st'. decode_loop ab maxLength r st1 = Inr (True, st') \<and> printed (length ?rest) x2 st1 st'"
          using prems less.prems(4,7) Cons True arg(1,10,11,14) f by (intro less.hyps) (auto simp: held_append)
        then obtain st' where st': "decode_loop ab maxLength r st1 = Inr (True, st')" "printed (length ?rest) x2 st1 st'"
          by blast
        have "decode_loop ab maxLength s st = decode_loop ab maxLength r st1"
          using step [OF _ st1(1)] arg(9) Cons True parts(2) by simp
        then show ?thesis using st' printed_trans [OF st1(2) st'(2)] arg(15,16) Cons True by simp
      qed
    qed
  qed
qed

section \<open>Properties\<close>

lemmas format_eval = fmt_supported.simps arg_bytes.simps decode_directive_def decode_prefix_def skip_flag_def
  skip_dot_def isdigit_simps decode_switch_def directive_ok_def

lemma parse_directive_d:
  "parse_directive ''%d'' = \<lparr>pf_flags = '''', pf_width = 0, pf_prec = None, pf_len = '''', pf_conv = CHR ''d''\<rparr>"
  by (simp add: parse_directive_def isdigit_simps digits_val_def)

lemma parse_directive_s:
  "parse_directive ''%s'' = \<lparr>pf_flags = '''', pf_width = 0, pf_prec = None, pf_len = '''', pf_conv = CHR ''s''\<rparr>"
  by (simp add: parse_directive_def isdigit_simps digits_val_def)

lemma c_sprintf_digit:
  "c_sprintf ''%d'' (CInt 7) = Inr ''7''"
  "c_sprintf ''%d'' (CInt 1) = Inr ''1''"
  by (simp_all add: parse_directive_d c_sprintf_def int_arg_def fmt_signed_def pad_def sign_text_def int_digits_def
      digits_of.simps digit_char_def)

lemma c_printf_example:
  "c_printf [1 \<mapsto> ''up''] ''%d %s'' [CInt 7, CPtr 1] = Inr ''7 up''"
  by (simp add: c_printf.simps directive_length_def isdigit_simps c_format_def parse_directive_d parse_directive_s
      c_sprintf_digit pad_def deref_string_def)

lemma fmt_supported_example: "fmt_supported ''%d %s''"
  by (simp add: format_eval)

lemma arg_bytes_example:
  "arg_bytes [1 \<mapsto> ''up''] ''%d %s'' [CInt 7, CPtr 1] = [7, 0, 0, 0, 117, 112, 0]"
  by (simp add: format_eval conv_image_def u32_bytes_def le_bytes_numeral byte_of_def)

lemma cmem_ok_example: "cmem_ok [1 \<mapsto> ''up'']"
  by (simp add: cmem_ok_def c_string_def)

text \<open>
  C3. What the logger prints later is what printf would have printed at the call. For a supported format and
  arguments printf accepts, the encoder stores the argument bytes at \<open>dst\<close> and nothing else, and the decoder
  run on that buffer returns 0, ends right behind those bytes, and leaves in the output block exactly printf's
  text with a terminator, without touching another byte or the corruption counter.
\<close>

theorem encode_decode_printf:
  assumes "fmt_supported fmt" and "c_string fmt" and "cmem_ok M" and "c_printf M fmt args = Inr x"
    and "dst + length (arg_bytes M fmt args) \<le> length b"
    and "dst + length (arg_bytes M fmt args) \<le> unat maxLength" and "unat maxLength < 2 ^ 31"
    and "pos + length x < length out"
  shows "\<exists>b'. encodeToArgsBuffer M fmt args b dst = Inr (b', dst + length (arg_bytes M fmt args)) \<and>
    mem_write b dst (arg_bytes M fmt args) = Inr b' \<and>
    decodeFromArgsBuffer sf fmt b' (word_of_nat dst) out pos maxLength len0 =
      Inr (sf, 0, word_of_nat (dst + length (arg_bytes M fmt args)),
           take pos out @ bytes_of x @ [0] @ drop (pos + length x + 1) out,
           if x = '''' then len0 else int (length x))"
proof -
  let ?img = "arg_bytes M fmt args"
  let ?b = "take dst b @ ?img @ drop (dst + length ?img) b"
  have small: "length ?img < 4294967296" and dst: "unat (word_of_nat dst :: u32) = dst"
    using assms(6,7) by (simp_all add: unat_of_nat)
  have enc: "encodeToArgsBuffer M fmt args b dst = Inr (?b, dst + length ?img)"
    using encode_supported [OF assms(1,2,4,5) small] by (simp add: encodeToArgsBuffer_def)
  have w: "mem_write b dst ?img = Inr ?b" using assms(5) by simp
  let ?st = "\<lparr>dc_index = word_of_nat dst, dc_out = out, dc_pos = pos, dc_corrupted = sf_getStringCorruptedCount sf\<rparr>"
  have "\<exists>st'. decode_loop ?b maxLength fmt ?st = Inr (True, st') \<and> printed (length ?img) x ?st st'"
    using decode_supported [OF assms(1,2,4,3), of ?b ?st maxLength] held_write [OF w] assms(6-8) dst by simp
  then obtain out1 where dec: "decode_loop ?b maxLength fmt ?st = Inr (True, \<lparr>dc_index = word_of_nat (dst + length ?img),
        dc_out = out1, dc_pos = pos + length x, dc_corrupted = sf_getStringCorruptedCount sf\<rparr>)"
      and wr: "wrote out pos (bytes_of x) out1"
    by (auto simp: printed_def)
  have "mem_write out1 (pos + length x) [0] = mem_write out pos (bytes_of x @ [0])"
    using wrote_terminate [OF wr] by simp
  then show ?thesis
    using enc w dec assms(8) by (intro exI [of _ ?b]) (simp add: decodeFromArgsBuffer_def)
qed

theorem encode_decode_printf_witness:
  "\<exists>b'. encodeToArgsBuffer [1 \<mapsto> ''up''] ''%d %s'' [CInt 7, CPtr 1] [9, 9, 9, 9, 9, 9, 9, 9, 9, 9] 2 = Inr (b', 9) \<and>
     decodeFromArgsBuffer \<lparr>sf_getStringCorruptedCount = 0\<rparr> ''%d %s'' b' 2 [9, 9, 9, 9, 9, 9] 0 10 0 =
       Inr (\<lparr>sf_getStringCorruptedCount = 0\<rparr>, 0, 9, bytes_of ''7 up'' @ [0, 9], 4)"
  using encode_decode_printf [OF fmt_supported_example _ cmem_ok_example c_printf_example, where dst = 2
      and b = "[9, 9, 9, 9, 9, 9, 9, 9, 9, 9]" and maxLength = 10 and pos = 0 and out = "[9, 9, 9, 9, 9, 9]"
      and sf = "\<lparr>sf_getStringCorruptedCount = 0\<rparr>" and ?len0.0 = 0]
  by (auto simp: arg_bytes_example c_string_def)

text \<open>
  C31. A directive whose conversion the encoder does not know aborts the process: after any prefix the encoder
  skips, a character that is no conversion, length modifier or percent sign reaches \<^verbatim>\<open>assert(0)\<close>, whatever the
  arguments are.
\<close>

theorem encode_unknown_aborts:
  assumes "\<forall>c \<in> set lit. c \<noteq> NUL \<and> c \<noteq> CHR ''%''" and "\<forall>c \<in> set pre. keep_char c"
    and "c \<noteq> NUL" and "\<not> keep_char c" and "c \<notin> set ''hcduixXfpsl%''"
  shows "encodeToArgsBuffer M (lit @ CHR ''%'' # pre @ c # rest) args b dst = Inl AssertFailed"
proof -
  have "encode_switch (c # rest) = Inl AssertFailed"
    using assms(4,5) by (simp add: encode_switch_def keep_char_def)
  then have "encode_loop M (c # rest) True args b dst = Inl AssertFailed"
    using assms(3,5) by (subst encode_loop.simps) simp
  then have "encode_loop M (pre @ c # rest) True args b dst = Inl AssertFailed"
    using encode_keep [OF assms(2)] by simp
  then have "encode_loop M (CHR ''%'' # pre @ c # rest) False args b dst = Inl AssertFailed"
    by (subst encode_loop.simps) simp
  then show ?thesis using encode_literal [OF assms(1)] by (simp add: encodeToArgsBuffer_def)
qed

theorem encode_unknown_aborts_witness:
  "encodeToArgsBuffer (\<lambda>p. None) ''n=%08zu'' [CLong 7] (replicate 16 0) 0 = Inl AssertFailed"
  using encode_unknown_aborts [of "''n=''" "''08''" "CHR ''z''" "\<lambda>p. None" "''u''" "[CLong 7]" "replicate 16 0" 0]
  by (simp add: keep_char_def isdigit_simps)

lemma memGetString_loop_spec:
  assumes "unat i + (limit - di) < length buf" and "unat i + (limit - di) < 4294967295" and "di \<le> limit"
    and "off + limit \<le> length dst"
  shows "\<exists>n \<le> limit - di.
    memGetString_loop buf i dst off di limit corr =
      Inr (take (off + di) dst @ take n (drop (unat i) buf) @ drop (off + di + n) dst, di + n,
           if buf ! (unat i + n) = 0 then corr else corr + 1) \<and>
    (\<forall>k < n. buf ! (unat i + k) \<noteq> 0) \<and> (n < limit - di \<longrightarrow> buf ! (unat i + n) = 0)"
  using assms
proof (induction "limit - di" arbitrary: di i dst)
  case 0
  then have "di = limit" by simp
  then show ?case using 0
    by (subst memGetString_loop.simps) (simp add: mem_get_def)
next
  case (Suc m)
  let ?c = "buf ! unat i"
  show ?case
  proof (cases "?c = 0")
    case True
    then show ?thesis using Suc.prems
      by (subst memGetString_loop.simps) (auto simp: mem_get_def intro!: exI [of _ 0])
  next
    case False
    let ?dst = "take (off + di) dst @ [?c] @ drop (off + di + 1) dst"
    have i: "unat (i + 1) = unat i + 1" using Suc.prems(2) by (simp add: unat_add_u32)
    have len: "length ?dst = length dst" using Suc by auto
    have m: "m = limit - (di + 1)" "m = limit - di - 1" using Suc.hyps(2) by simp_all
    have pre: "unat (i + 1) + (limit - (di + 1)) < length buf" "unat (i + 1) + (limit - (di + 1)) < 4294967295"
        "di + 1 \<le> limit" "off + limit \<le> length ?dst"
      using Suc.prems Suc.hyps(2) i len by linarith+
    obtain n where n: "n \<le> limit - (di + 1)"
        "memGetString_loop buf (i + 1) ?dst off (di + 1) limit corr =
          Inr (take (off + (di + 1)) ?dst @ take n (drop (unat (i + 1)) buf) @ drop (off + (di + 1) + n) ?dst, di + 1 + n,
             if buf ! (unat (i + 1) + n) = 0 then corr else corr + 1)"
        "\<forall>k < n. buf ! (unat (i + 1) + k) \<noteq> 0" "n < limit - (di + 1) \<longrightarrow> buf ! (unat (i + 1) + n) = 0"
      using Suc.hyps(1) [OF m(1) pre] by blast
    have w: "mem_write dst (off + di) [?c] = Inr ?dst" using Suc.prems Suc.hyps(2) by simp
    have step: "memGetString_loop buf i dst off di limit corr = memGetString_loop buf (i + 1) ?dst off (di + 1) limit corr"
    proof -
      have "unat i < length buf" "\<not> limit < Suc di" using Suc.prems(1) Suc.hyps(2) by linarith+
      then show ?thesis using False w by (subst memGetString_loop.simps) (simp add: mem_get_def)
    qed
    have lt: "off + di < length dst" "unat i < length buf" using Suc.prems Suc.hyps(2) by linarith+
    have "take (off + (di + 1)) ?dst = take (off + di) dst @ [?c]"
      and "drop (off + (di + 1) + n) ?dst = drop (off + di + Suc n) dst"
      using lt(1) by (simp_all add: ac_simps)
    moreover have "take (Suc n) (drop (unat i) buf) = ?c # take n (drop (unat i + 1) buf)"
      using lt(2) by (simp flip: Cons_nth_drop_Suc)
    moreover have "\<forall>k < Suc n. buf ! (unat i + k) \<noteq> 0"
      using False n(3) i by (auto simp: less_Suc_eq_0_disj)
    moreover have "Suc n \<le> limit - di" using n(1) Suc.hyps(2) by linarith
    ultimately show ?thesis
      using n(2,4) step i m by (intro exI [of _ "Suc n"]) (simp add: ac_simps)
  qed
qed

text \<open>
  C29. A string field is safe to decode from any bytes. On a buffer that holds \<open>limit + 1\<close> bytes from
  the index on, \<^verbatim>\<open>memGetString\<close> copies the longest run of non-zero bytes of at most \<open>limit\<close>, changes no other
  cell of the destination, and raises the corruption counter exactly when no terminator was found.
\<close>

theorem memGetString_spec:
  assumes "unat i + unat limit < length buf" and "unat i + unat limit < 4294967295"
    and "off + unat limit \<le> length dst"
  shows "\<exists>n \<le> unat limit.
    memGetString buf i dst off limit corr =
      Inr (take off dst @ take n (drop (unat i) buf) @ drop (off + n) dst, n,
           if buf ! (unat i + n) = 0 then corr else corr + 1) \<and>
    (\<forall>k < n. buf ! (unat i + k) \<noteq> 0) \<and> (n < unat limit \<longrightarrow> buf ! (unat i + n) = 0)"
  using memGetString_loop_spec [of i "unat limit" 0 buf off dst corr] assms by (simp add: memGetString_def)

theorem memGetString_spec_witness:
  "\<exists>n \<le> 2. memGetString [7, 65, 66, 67, 0] 1 [0, 0, 0] 0 2 5 =
    Inr (take n [65, 66, 67, 0] @ drop n [0, 0, 0], n, if [7, 65, 66, 67, 0] ! (1 + n) = (0 :: u8) then 5 else 6)"
  using memGetString_spec [of 1 2 "[7, 65, 66, 67, 0]" 0 "[0, 0, 0]" 5] by auto

lemma strlcpy_loop_short:
  "length s < n \<Longrightarrow> c_string s \<Longrightarrow> d + length s < length b \<Longrightarrow>
   strlcpy_loop b d s (Suc n) = Inr (take d b @ s @ [NUL] @ drop (d + length s + 1) b, d + length s + 1, n - length s)"
proof (induction s arbitrary: b d n)
  case Nil
  then show ?case by simp
next
  case (Cons c s)
  then obtain m where n: "n = Suc m" "length s < m" by (cases n) auto
  let ?b = "take d b @ c # drop (Suc d) b"
  have c: "c \<noteq> NUL" "c_string s" using Cons.prems(2) by (auto simp: c_string_def)
  have "strlcpy_loop ?b (Suc d) s (Suc m) =
      Inr (take (Suc d) ?b @ s @ [NUL] @ drop (Suc d + length s + 1) ?b, Suc d + length s + 1, m - length s)"
    using Cons.prems(3) n c by (intro Cons.IH) auto
  moreover have "take (Suc d) ?b = take d b @ [c]" "drop (Suc d + length s + 1) ?b = drop (d + length (c # s) + 1) b"
    using Cons.prems(3) by (simp_all add: ac_simps)
  ultimately show ?case using Cons.prems n c(1) by simp
qed

text \<open>
  C30. \<^verbatim>\<open>strlcpy\<close> copies what fits and always terminates it: at most \<open>siz - 1\<close> characters of the source, then a NUL,
  and nothing behind that.
\<close>

theorem strlcpy_spec:
  assumes "0 < siz" and "siz \<le> length dst" and "c_string src"
  shows "strlcpy dst src siz = Inr (take (siz - 1) src @ [NUL] @ drop (min siz (length src + 1)) dst)"
proof (cases "length src < siz - 1")
  case True
  then have "strlcpy_loop dst 0 src siz = Inr (src @ [NUL] @ drop (length src + 1) dst, length src + 1, siz - 1 - length src)"
    using strlcpy_loop_short [of src "siz - 1" 0 dst] assms by simp
  then show ?thesis using True assms(1) by (simp add: strlcpy_def min_def)
next
  case False
  have "NUL \<notin> set (take (siz - 1) src)" using assms(3) by (auto simp: c_string_def dest: in_set_takeD)
  then have "strlcpy_loop dst 0 src siz = Inr (take (siz - 1) src @ drop (siz - 1) dst, siz - 1, 0)"
    using strlcpy_loop_copy [of "siz - 1" src 0 dst] False assms(1,2) by simp
  moreover have "min siz (length src + 1) = siz" using False by linarith
  ultimately show ?thesis using assms(1,2) by (simp add: strlcpy_def)
qed

theorem strlcpy_spec_witness:
  "strlcpy ''......'' ''%-6x rest'' 5 = Inr (''%-6x'' @ [NUL] @ ''.'')"
  using strlcpy_spec [of 5 "''......''" "''%-6x rest''"] by (simp add: c_string_def eval_nat_numeral)

text \<open>
  C33. The decoder copies a directive to \<^verbatim>\<open>tempFormat[32]\<close> without checking its length: a directive of 32 characters or
  more, other than a percent sign, writes behind the array. The encoder accepts such a format.
\<close>

theorem decode_long_directive_overflows:
  assumes "decode_directive s = Some (cv, n)" and "cchar s 0 = CHR ''%''" and "cv \<noteq> CvPercent" and "32 \<le> n"
    and "n \<le> length s" and "c_string s"
  shows "decode_loop ab maxLength s st = Inl OutOfBounds"
proof -
  have full: "strlcpy_loop b d t m = Inl OutOfBounds" if "length b - d < m - 1" "m - 1 \<le> length t" "NUL \<notin> set t" "d \<le> length b" for b d t m
    using that
  proof (induction b d t m rule: strlcpy_loop.induct)
    case (2 b d t m)
    then obtain c t' where t: "t = c # t'" by (cases t) auto
    show ?case
    proof (cases "d < length b")
      case False
      then show ?thesis using 2 by (simp add: mem_write_out)
    next
      case True
      then have w: "mem_write b d [c] = Inr (take d b @ [c] @ drop (d + 1) b)" by simp
      have "strlcpy_loop (take d b @ [c] @ drop (d + 1) b) (d + 1) t' m = Inl OutOfBounds"
        using 2(1) [of "take d b @ [c] @ drop (d + 1) b"] 2(2-) True t w by auto
      moreover have "c \<noteq> NUL" "m \<noteq> 0" using 2 t by auto
      ultimately show ?thesis using t w by simp
    qed
  qed simp
  have "strlcpy_loop (replicate 32 NUL) 0 s (n + 1) = Inl OutOfBounds" if "n \<noteq> 32"
    using full [of "replicate 32 NUL" 0 "n + 1" s] assms(4-6) that by (simp add: c_string_def del: strlcpy_loop.simps)
  then have "strlcpy (replicate 32 NUL) s (n + 1) = Inl OutOfBounds" if "n \<noteq> 32"
    using that by (simp add: strlcpy_def del: strlcpy_loop.simps)
  moreover have "strlcpy (replicate 32 NUL) s (n + 1) = Inl OutOfBounds" if "n = 32"
  proof -
    have "NUL \<notin> set (take 32 s)" using assms(6) by (auto simp: c_string_def dest: in_set_takeD)
    then have "strlcpy_loop (replicate 32 NUL) 0 s (Suc 32) = Inr (take 32 s, 32, 0)"
      using strlcpy_loop_copy [of 32 s 0 "replicate 32 NUL"] assms(5) that by simp
    moreover have "length (take 32 s) = 32" using assms(5) that by simp
    ultimately show ?thesis using that by (simp add: strlcpy_def mem_write_out)
  qed
  ultimately have "strlcpy (replicate 32 NUL) s (n + 1) = Inl OutOfBounds" by blast
  then have "decode_conv ab maxLength cv s n st = Inl OutOfBounds"
    using assms(3) by (simp add: decode_conv_def tempFormat_of_def)
  then show ?thesis using assms(1,2) by (subst decode_loop.simps) simp
qed

theorem decode_long_directive_overflows_witness:
  "decode_loop [1, 0, 0, 0] 100 ''%0000000000000000000000000000012d''
     \<lparr>dc_index = 0, dc_out = [], dc_pos = 0, dc_corrupted = 0\<rparr> = Inl OutOfBounds"
  using decode_long_directive_overflows [of "''%0000000000000000000000000000012d''" CvInt 33]
  by (simp add: format_eval c_string_def)

lemma decode_literal_char:
  assumes "c \<noteq> NUL" and "c \<noteq> CHR ''%'' \<or> decode_directive (c # s) = None" and "dc_pos st < length (dc_out st)"
  shows "decode_loop buf maxLength (c # s) st =
    decode_loop buf maxLength s (st\<lparr>dc_out := (dc_out st)[dc_pos st := byte_of c], dc_pos := dc_pos st + 1\<rparr>)"
  using assms by (subst decode_loop.simps) (auto simp: mem_write_def upd_conv_take_nth_drop)

lemma decode_literal_chars:
  assumes "\<forall>c \<in> set lit. c \<noteq> NUL \<and> c \<noteq> CHR ''%''" and "dc_pos st + length lit \<le> length (dc_out st)"
  shows "decode_loop buf maxLength (lit @ s) st =
    decode_loop buf maxLength s (st\<lparr>dc_out := take (dc_pos st) (dc_out st) @ bytes_of lit @ drop (dc_pos st + length lit) (dc_out st),
      dc_pos := dc_pos st + length lit\<rparr>)"
  using assms
proof (induction lit arbitrary: st)
  case (Cons c lit)
  have "take (dc_pos st + 1) ((dc_out st)[dc_pos st := byte_of c]) = take (dc_pos st) (dc_out st) @ [byte_of c]"
    using Cons.prems(2) by (simp add: take_Suc_conv_app_nth)
  then show ?case using Cons decode_literal_char [of c "lit @ s" st] by (simp add: bytes_of_def)
qed simp

text \<open>
  C34. Encoder and decoder disagree on flags: the encoder skips any run of them, the decoder knows one. For every
  directive of two flags (the second one not 0, which the decoder reads as a width) and a conversion \<open>c\<close> of one
  character that takes an argument, the encoder fetches the argument, stores it and goes on behind it; the decoder
  copies the directive into the output as it stands and goes on with its index unchanged, so the next conversion in the
  format is given the argument of this one. The argument has to be of the kind the conversion takes and to fit the
  buffer (\<open>store_conv\<close> succeeds), the output has to have room for four characters.
\<close>

theorem decode_flags_misaligned:
  assumes "f \<in> set ''0 #-+''" and "g \<in> set '' #-+''" and "c \<in> set ''cduixXfps''"
    and "encode_switch (c # rest) = Inr (Some cv, 1, False)" and "store_conv M cv args b dst = Inr (args', b', dst')"
    and "dc_pos st + 4 \<le> length (dc_out st)"
  shows "encodeToArgsBuffer M (CHR ''%'' # f # g # c # rest) args b dst = encode_loop M rest False args' b' dst' \<and>
    decode_loop buf maxLength (CHR ''%'' # f # g # c # rest) st =
      decode_loop buf maxLength rest
        (st\<lparr>dc_out := take (dc_pos st) (dc_out st) @ bytes_of [CHR ''%'', f, g, c] @ drop (dc_pos st + 4) (dc_out st),
           dc_pos := dc_pos st + 4, dc_index := dc_index st\<rparr>)"
proof
  have keep: "\<forall>x \<in> set [f, g]. keep_char x" using assms(1,2) by (auto simp: keep_char_def isdigit_simps)
  have "encode_loop M (c # rest) True args b dst = encode_loop M rest False args' b' dst'"
    using assms(3-5) by (subst encode_loop.simps) auto
  then have "encode_loop M ([f, g] @ c # rest) True args b dst = encode_loop M rest False args' b' dst'"
    using encode_keep [OF keep] by simp
  then show "encodeToArgsBuffer M (CHR ''%'' # f # g # c # rest) args b dst = encode_loop M rest False args' b' dst'"
    by (simp add: encodeToArgsBuffer_def) (subst encode_loop.simps, simp)
next
  have "decode_prefix (CHR ''%'' # f # g # c # rest) = g # c # rest"
    using assms(1,2) by (auto simp: decode_prefix_def skip_flag_def skip_dot_def isdigit_simps)
  moreover have "decode_switch (g # c # rest) = None" using assms(2) by (auto simp: decode_switch_def)
  ultimately have none: "decode_directive (CHR ''%'' # f # g # c # rest) = None" by (simp add: decode_directive_def)
  let ?st = "st\<lparr>dc_out := (dc_out st)[dc_pos st := byte_of (CHR ''%'')], dc_pos := dc_pos st + 1\<rparr>"
  have pos: "dc_pos st < length (dc_out st)" using assms(6) by simp
  have "decode_loop buf maxLength (CHR ''%'' # f # g # c # rest) st = decode_loop buf maxLength ([f, g, c] @ rest) ?st"
    using decode_literal_char [of "CHR ''%''" "f # g # c # rest" st] none pos by simp
  also have "\<dots> = decode_loop buf maxLength rest (?st\<lparr>dc_out := take (dc_pos ?st) (dc_out ?st) @ bytes_of [f, g, c] @
      drop (dc_pos ?st + length [f, g, c]) (dc_out ?st), dc_pos := dc_pos ?st + length [f, g, c]\<rparr>)"
    using assms(1-3,6) by (intro decode_literal_chars) auto
  also have "take (dc_pos ?st) (dc_out ?st) = take (dc_pos st) (dc_out st) @ [byte_of (CHR ''%'')]"
    using pos by (simp add: take_Suc_conv_app_nth)
  finally show "decode_loop buf maxLength (CHR ''%'' # f # g # c # rest) st =
      decode_loop buf maxLength rest
        (st\<lparr>dc_out := take (dc_pos st) (dc_out st) @ bytes_of [CHR ''%'', f, g, c] @ drop (dc_pos st + 4) (dc_out st),
           dc_pos := dc_pos st + 4, dc_index := dc_index st\<rparr>)"
    by (simp add: bytes_of_def eval_nat_numeral)
qed

text \<open>The format \<open>%+-d%d\<close> with the argument 1 stored first: the directive comes out as text, and the index is still 0.\<close>

theorem decode_flags_misaligned_witness:
  "encodeToArgsBuffer (\<lambda>p. None) ''%+-d%d'' [CInt 1, CInt 7] [9, 9, 9, 9, 9, 9, 9, 9] 0 =
     encode_loop (\<lambda>p. None) ''%d'' False [CInt 7] [1, 0, 0, 0, 9, 9, 9, 9] 4 \<and>
   decode_loop [1, 0, 0, 0, 7, 0, 0, 0] 8 ''%+-d%d'' \<lparr>dc_index = 0, dc_out = replicate 9 0, dc_pos = 0, dc_corrupted = 0\<rparr> =
     decode_loop [1, 0, 0, 0, 7, 0, 0, 0] 8 ''%d''
       \<lparr>dc_index = 0, dc_out = bytes_of ''%+-d'' @ replicate 5 0, dc_pos = 4, dc_corrupted = 0\<rparr>"
proof -
  let ?st = "\<lparr>dc_index = 0, dc_out = replicate 9 0, dc_pos = 0, dc_corrupted = 0\<rparr>"
  have f: "CHR ''+'' \<in> set ''0 #-+''" and g: "CHR ''-'' \<in> set '' #-+''" and c: "CHR ''d'' \<in> set ''cduixXfps''" by simp_all
  have store: "store_conv (\<lambda>p. None) CvInt [CInt 1, CInt 7] [9, 9, 9, 9, 9, 9, 9, 9] 0 = Inr ([CInt 7], [1, 0, 0, 0, 9, 9, 9, 9], 4)"
    by (simp add: memSetInt_def u32_bytes_def le_bytes_numeral)
  have switch: "encode_switch (CHR ''d'' # ''%d'') = Inr (Some CvInt, 1, False)" by (simp add: encode_switch_def)
  have room: "dc_pos ?st + 4 \<le> length (dc_out ?st)" by simp
  have end_state: "?st\<lparr>dc_out := take (dc_pos ?st) (dc_out ?st) @ bytes_of ''%+-d'' @ drop (dc_pos ?st + 4) (dc_out ?st),
      dc_pos := dc_pos ?st + 4, dc_index := dc_index ?st\<rparr> =
    \<lparr>dc_index = 0, dc_out = bytes_of ''%+-d'' @ replicate 5 0, dc_pos = 4, dc_corrupted = 0\<rparr>"
    by simp
  show ?thesis
    by (rule decode_flags_misaligned [OF f g c switch store room, of "[1, 0, 0, 0, 7, 0, 0, 0]" 8, unfolded end_state])
qed

end
