(* ===== verification/Out_Stream.thy ===== *)
theory Out_Stream
  imports C_Format
begin

text \<open>
  \<^verbatim>\<open>Stream\<close>, \<^verbatim>\<open>StreamBuffered\<close> and \<^verbatim>\<open>CompressedBuffered\<close> (stream.h, stream.cpp). C++ objects of the three classes
  are records that extend one another, virtual calls are dispatched on the datatype \<open>stream_obj\<close>. The
  stdio calls the sources make act on a table of open files.
\<close>

section \<open>stdio\<close>

text \<open>
  An open file: the bytes its device has, those still in the buffer of the library, how many more the device takes,
  and the sticky error flag of \<^verbatim>\<open>ferror\<close>. When the library passes bytes on is its own affair (\<^verbatim>\<open>setvbuf\<close>,
  terminals, the size of the buffer): \<open>cf_keep\<close> says for the bytes it holds after a write how many of the last ones
  stay in the buffer, none for an unbuffered file.
\<close>

record cfile =
  cf_data :: "u8 list"
  cf_pending :: "u8 list"
  cf_keep :: "u8 list \<Rightarrow> nat"
  cf_room :: nat
  cf_error :: bool

text \<open>Files are addressed by their \<^verbatim>\<open>FILE\<close> pointers; the null pointer and closed files have no entry.\<close>

type_synonym files = "u64 \<Rightarrow> cfile option"

text \<open>
  The library passes \<open>xs\<close> on and empties its buffer. A device without the room takes a prefix; the error flag is set
  and, as in glibc, the rest is gone.
\<close>

definition cf_drain :: "cfile \<Rightarrow> u8 list \<Rightarrow> cfile" where
  "cf_drain f xs = f\<lparr>cf_data := cf_data f @ take (cf_room f) xs, cf_pending := [], cf_room := cf_room f - length xs,
     cf_error := (cf_error f \<or> cf_room f < length xs)\<rparr>"

text \<open>The result also has the number of bytes \<^verbatim>\<open>fwrite\<close> reports and what \<^verbatim>\<open>ferror\<close> says afterwards.\<close>

definition fwrite :: "files \<Rightarrow> u64 \<Rightarrow> u8 list \<Rightarrow> (files \<times> nat \<times> bool) result" where
  "fwrite fs p xs =
     (case fs p of
        None \<Rightarrow> Inl NullDeref
      | Some f \<Rightarrow>
          let held = cf_pending f @ xs;
              n = length held - cf_keep f held;
              f' = cf_drain f (take n held)
          in if cf_room f < n
             then Inr (fs(p \<mapsto> f'), cf_room f - length (cf_pending f), True)
             else Inr (fs(p \<mapsto> f'\<lparr>cf_pending := drop n held\<rparr>), length xs, cf_error f'))"

text \<open>\<^verbatim>\<open>fflush\<close> answers \<^verbatim>\<open>EOF\<close>, which is -1, when the device does not take all.\<close>

definition fflush :: "files \<Rightarrow> u64 \<Rightarrow> (files \<times> int) result" where
  "fflush fs p =
     (case fs p of
        None \<Rightarrow> Inl NullDeref
      | Some f \<Rightarrow> Inr (fs(p \<mapsto> cf_drain f (cf_pending f)), if cf_room f < length (cf_pending f) then - 1 else 0))"

definition fclose :: "files \<Rightarrow> u64 \<Rightarrow> files result" where
  "fclose fs p = (case fs p of None \<Rightarrow> Inl NullDeref | Some f \<Rightarrow> Inr (fs(p := None)))"

section \<open>Classes\<close>

record stream_stats =
  ss_zlibErrorNo :: u32
  ss_zlibError :: u32
  ss_zlibDeflateInitError :: u32
  ss_zlibDeflateError :: u32
  ss_ioErrorNo :: u32
  ss_ioError :: u32
  ss_ioWriteError :: u32
  ss_ioReadError :: u32
  ss_ioSeekError :: u32
  ss_compressError :: u32
  ss_flushWriteCount :: u32

datatype compressed_mode = UNCOMPRESSED | BUFFERED_UNCOMPRESS

definition LOG_STREAM_BUFFER_SIZE :: u32 where
  "LOG_STREAM_BUFFER_SIZE = 1048576"

definition LOG_STREAM_COMPRESSED_BUFFER_SIZE :: u32 where
  "LOG_STREAM_COMPRESSED_BUFFER_SIZE = 1048576"

record stream =
  st_stats :: stream_stats
  st_fileHandle :: u64

text \<open>\<open>None\<close> is a null \<^verbatim>\<open>buffer\<close>.\<close>

record stream_buffered = stream +
  sb_buffer :: "u8 list option"
  sb_bufferSize :: u32
  sb_bufferIdx :: u32

record compressed_buffered = stream +
  cb_compressedBuffer :: "u8 list option"
  cb_compressedBufferSize :: u32

datatype stream_obj =
    PlainStream stream
  | BufferedStream stream_buffered
  | CompressedStream compressed_buffered

section \<open>Stream\<close>

text \<open>
  The constructor initialises \<^verbatim>\<open>fileHandle_\<close> only: \<^verbatim>\<open>stats\<close> keeps what the memory held, here \<open>junk\<close>.
\<close>

definition Stream_new :: "stream_stats \<Rightarrow> stream" where
  "Stream_new junk = \<lparr>st_stats = junk, st_fileHandle = 0\<rparr>"

definition count_write_error :: "stream_stats \<Rightarrow> stream_stats" where
  "count_write_error s = s\<lparr>ss_ioWriteError := ss_ioWriteError s + 1\<rparr>"

text \<open>\<open>s\<close> is the block the \<^verbatim>\<open>char\<close> pointer points to, \<open>len\<close> the number of its bytes to write.\<close>

definition Stream_write :: "'a stream_scheme \<Rightarrow> files \<Rightarrow> u8 list \<Rightarrow> u32 \<Rightarrow> ('a stream_scheme \<times> files) result" where
  "Stream_write st fs s len =
     bindE (mem_read s 0 (unat len)) (\<lambda>xs.
     bindE (fwrite fs (st_fileHandle st) xs) (\<lambda>(fs', written, err).
       Inr (if written \<noteq> unat len \<or> err then st\<lparr>st_stats := count_write_error (st_stats st)\<rparr> else st, fs')))"

text \<open>What \<^verbatim>\<open>fflush\<close> answers is not looked at.\<close>

definition Stream_flush :: "'a stream_scheme \<Rightarrow> files \<Rightarrow> ('a stream_scheme \<times> files \<times> int) result" where
  "Stream_flush st fs =
     (if st_fileHandle st \<noteq> 0 then bindE (fflush fs (st_fileHandle st)) (\<lambda>(fs', r). Inr (st, fs', 0))
      else Inr (st, fs, 0))"

definition Stream_getStats :: "'a stream_scheme \<Rightarrow> stream_stats" where
  "Stream_getStats st = st_stats st"

definition stream_lines :: "stream_stats \<Rightarrow> string list" where
  "stream_lines s =
     [nl,
      ''Stream stats:'' @ nl,
      ''Zlib error: '' @ u_text (ss_zlibError s) @ nl,
      ''Zlib error no: '' @ d_text (ss_zlibErrorNo s) @ nl,
      ''Zlib deflate init error: '' @ u_text (ss_zlibDeflateInitError s) @ nl,
      ''Zlib deflate error: '' @ u_text (ss_zlibDeflateError s) @ nl,
      ''IO error no: '' @ u_text (ss_ioErrorNo s) @ nl,
      ''IO error: '' @ u_text (ss_ioError s) @ nl,
      ''IO write error: '' @ u_text (ss_ioWriteError s) @ nl,
      ''IO read error: '' @ u_text (ss_ioReadError s) @ nl,
      ''IO seek error: '' @ u_text (ss_ioSeekError s) @ nl,
      ''Compress error: '' @ u_text (ss_compressError s) @ nl,
      ''Flush write count: '' @ u_text (ss_flushWriteCount s) @ nl]"

text \<open>The length of the buffer is a parameter that the code does not use.\<close>

definition Stream_dumpState :: "'a stream_scheme \<Rightarrow> u8 list \<Rightarrow> int \<Rightarrow> u8 list result" where
  "Stream_dumpState st buffer bufferLen = bindE (sprintf_lines buffer 0 (stream_lines (st_stats st))) (\<lambda>(b, pos). Inr b)"

section \<open>StreamBuffered\<close>

text \<open>
  \<^verbatim>\<open>new char(buffer_size)\<close> allocates one character, initialised to the low byte of 1048576, which is 0.
  \<^verbatim>\<open>bufferSize\<close> is never set: \<open>size0\<close> is what the memory held.
\<close>

definition StreamBuffered_new :: "stream_stats \<Rightarrow> u32 \<Rightarrow> stream_buffered" where
  "StreamBuffered_new junk size0 =
     \<lparr>st_stats = junk, st_fileHandle = 0, sb_buffer = Some [ucast LOG_STREAM_BUFFER_SIZE],
      sb_bufferSize = size0, sb_bufferIdx = 0\<rparr>"

definition StreamBuffered_getBufferSize :: "stream_buffered \<Rightarrow> u32" where
  "StreamBuffered_getBufferSize st = sb_bufferSize st"

definition StreamBuffered_bufferHasRoom :: "stream_buffered \<Rightarrow> u32 \<Rightarrow> bool" where
  "StreamBuffered_bufferHasRoom st len = (let left = sb_bufferSize st - sb_bufferIdx st in len \<le> left)"

definition StreamBuffered_availableData :: "stream_buffered \<Rightarrow> u32" where
  "StreamBuffered_availableData st = sb_bufferIdx st"

definition StreamBuffered_empty :: "stream_buffered \<Rightarrow> bool" where
  "StreamBuffered_empty st \<longleftrightarrow> sb_bufferIdx st = 0"

definition deref_buffer :: "'a option \<Rightarrow> 'a result" where
  "deref_buffer p = (case p of None \<Rightarrow> Inl NullDeref | Some b \<Rightarrow> Inr b)"

definition StreamBuffered_flush :: "stream_buffered \<Rightarrow> files \<Rightarrow> (stream_buffered \<times> files \<times> int) result" where
  "StreamBuffered_flush st fs =
     (let dataInBuffer = unat (StreamBuffered_availableData st) in
      if st_fileHandle st = 0 then Inr (st, fs, 0)
      else
        let st1 = st\<lparr>st_stats := (st_stats st)\<lparr>ss_flushWriteCount := ss_flushWriteCount (st_stats st) + 1\<rparr>\<rparr> in
        bindE (deref_buffer (sb_buffer st)) (\<lambda>b.
        bindE (mem_read b 0 dataInBuffer) (\<lambda>xs.
        bindE (fwrite fs (st_fileHandle st) xs) (\<lambda>(fs', written, err).
          if written \<noteq> dataInBuffer \<or> err
          then Inr (st1\<lparr>st_stats := count_write_error ((st_stats st1)\<lparr>ss_ioErrorNo := 0\<rparr>)\<rparr>, fs', - 1)
          else Inr (st1\<lparr>sb_bufferIdx := 0\<rparr>, fs', 0)))))"

definition StreamBuffered_write :: "stream_buffered \<Rightarrow> files \<Rightarrow> u8 list \<Rightarrow> u32 \<Rightarrow> (stream_buffered \<times> files) result" where
  "StreamBuffered_write st fs s len =
     (if len > StreamBuffered_getBufferSize st then Inl Thrown
      else
        bindE (if StreamBuffered_bufferHasRoom st len then Inr (st, fs)
               else bindE (StreamBuffered_flush st fs) (\<lambda>(st', fs', ret). Inr (st', fs'))) (\<lambda>(st1, fs1).
        bindE (deref_buffer (sb_buffer st1)) (\<lambda>b.
        bindE (mem_read s 0 (unat len)) (\<lambda>xs.
        bindE (mem_write b (unat (sb_bufferIdx st1)) xs) (\<lambda>b'.
          Inr (st1\<lparr>sb_buffer := Some b', sb_bufferIdx := sb_bufferIdx st1 + len\<rparr>, fs1))))))"

definition StreamBuffered_cleanup :: "stream_buffered \<Rightarrow> stream_buffered" where
  "StreamBuffered_cleanup st = (if sb_buffer st \<noteq> None then st\<lparr>sb_buffer := None\<rparr> else st)"

section \<open>CompressedBuffered\<close>

definition CompressedBuffered_new :: "stream_stats \<Rightarrow> u8 list \<Rightarrow> compressed_buffered" where
  "CompressedBuffered_new junk mem =
     \<lparr>st_stats = junk, st_fileHandle = 0,
      cb_compressedBuffer = Some (take (unat LOG_STREAM_COMPRESSED_BUFFER_SIZE) mem),
      cb_compressedBufferSize = LOG_STREAM_COMPRESSED_BUFFER_SIZE\<rparr>"

definition CompressedBuffered_cleanup :: "compressed_buffered \<Rightarrow> compressed_buffered" where
  "CompressedBuffered_cleanup st = (if cb_compressedBuffer st \<noteq> None then st\<lparr>cb_compressedBuffer := None\<rparr> else st)"

section \<open>Virtual calls\<close>

fun obj_fileHandle :: "stream_obj \<Rightarrow> u64" where
  "obj_fileHandle (PlainStream st) = st_fileHandle st"
| "obj_fileHandle (BufferedStream st) = st_fileHandle st"
| "obj_fileHandle (CompressedStream st) = st_fileHandle st"

fun obj_setHandle :: "stream_obj \<Rightarrow> u64 \<Rightarrow> stream_obj" where
  "obj_setHandle (PlainStream st) p = PlainStream (st\<lparr>st_fileHandle := p\<rparr>)"
| "obj_setHandle (BufferedStream st) p = BufferedStream (st\<lparr>st_fileHandle := p\<rparr>)"
| "obj_setHandle (CompressedStream st) p = CompressedStream (st\<lparr>st_fileHandle := p\<rparr>)"

fun stream_write :: "stream_obj \<Rightarrow> files \<Rightarrow> u8 list \<Rightarrow> u32 \<Rightarrow> (stream_obj \<times> files) result" where
  "stream_write (PlainStream st) fs s len = bindE (Stream_write st fs s len) (\<lambda>(st', fs'). Inr (PlainStream st', fs'))"
| "stream_write (BufferedStream st) fs s len =
     bindE (StreamBuffered_write st fs s len) (\<lambda>(st', fs'). Inr (BufferedStream st', fs'))"
| "stream_write (CompressedStream st) fs s len =
     bindE (Stream_write st fs s len) (\<lambda>(st', fs'). Inr (CompressedStream st', fs'))"

fun stream_flush :: "stream_obj \<Rightarrow> files \<Rightarrow> (stream_obj \<times> files \<times> int) result" where
  "stream_flush (PlainStream st) fs = bindE (Stream_flush st fs) (\<lambda>(st', fs', r). Inr (PlainStream st', fs', r))"
| "stream_flush (BufferedStream st) fs =
     bindE (StreamBuffered_flush st fs) (\<lambda>(st', fs', r). Inr (BufferedStream st', fs', r))"
| "stream_flush (CompressedStream st) fs =
     bindE (Stream_flush st fs) (\<lambda>(st', fs', r). Inr (CompressedStream st', fs', r))"

fun stream_dumpState :: "stream_obj \<Rightarrow> u8 list \<Rightarrow> int \<Rightarrow> u8 list result" where
  "stream_dumpState (PlainStream st) b n = Stream_dumpState st b n"
| "stream_dumpState (BufferedStream st) b n = Stream_dumpState st b n"
| "stream_dumpState (CompressedStream st) b n = Stream_dumpState st b n"

text \<open>\<^verbatim>\<open>Stream::cleanup\<close> calls the virtual \<^verbatim>\<open>flush\<close>; the derived classes override \<^verbatim>\<open>cleanup\<close> and free their buffer.\<close>

definition Stream_cleanup :: "'a stream_scheme \<Rightarrow> files \<Rightarrow> ('a stream_scheme \<times> files) result" where
  "Stream_cleanup st fs = bindE (Stream_flush st fs) (\<lambda>(st', fs', r). Inr (st'\<lparr>st_fileHandle := 0\<rparr>, fs'))"

fun stream_cleanup :: "stream_obj \<Rightarrow> files \<Rightarrow> (stream_obj \<times> files) result" where
  "stream_cleanup (PlainStream st) fs = bindE (Stream_cleanup st fs) (\<lambda>(st', fs'). Inr (PlainStream st', fs'))"
| "stream_cleanup (BufferedStream st) fs = Inr (BufferedStream (StreamBuffered_cleanup st), fs)"
| "stream_cleanup (CompressedStream st) fs = Inr (CompressedStream (CompressedBuffered_cleanup st), fs)"

text \<open>
  The destructor runs when the derived part is gone, so its call of \<^verbatim>\<open>cleanup\<close> is \<^verbatim>\<open>Stream::cleanup\<close> with
  \<^verbatim>\<open>Stream::flush\<close> whatever the class was. The object does not exist afterwards.
\<close>

fun Stream_destroy :: "stream_obj \<Rightarrow> files \<Rightarrow> files result" where
  "Stream_destroy (PlainStream st) fs = bindE (Stream_cleanup st fs) (\<lambda>(st', fs'). Inr fs')"
| "Stream_destroy (BufferedStream st) fs = bindE (Stream_cleanup st fs) (\<lambda>(st', fs'). Inr fs')"
| "Stream_destroy (CompressedStream st) fs = bindE (Stream_cleanup st fs) (\<lambda>(st', fs'). Inr fs')"

definition Stream_setFile :: "stream_obj \<Rightarrow> files \<Rightarrow> u64 \<Rightarrow> (stream_obj \<times> files \<times> int) result" where
  "Stream_setFile x fs file =
     (if file = obj_fileHandle x then Inr (x, fs, 0)
      else bindE (if obj_fileHandle x \<noteq> 0 then stream_flush x fs else Inr (x, fs, 0))
        (\<lambda>(x', fs', r). Inr (obj_setHandle x' file, fs', 0)))"

text \<open>\<open>None\<close> is the null \<^verbatim>\<open>shared_ptr\<close>; make_shared throws when memory runs out and never yields null.\<close>

definition Stream_create ::
  "stream_stats \<Rightarrow> u32 \<Rightarrow> files \<Rightarrow> u64 \<Rightarrow> compressed_mode \<Rightarrow> (stream_obj option \<times> files) result" where
  "Stream_create junk size0 fs file mode =
     (let ctx = (case mode of
            UNCOMPRESSED \<Rightarrow> PlainStream (Stream_new junk)
          | BUFFERED_UNCOMPRESS \<Rightarrow> BufferedStream (StreamBuffered_new junk size0))
      in bindE (Stream_setFile ctx fs file) (\<lambda>(ctx', fs', ret).
           Inr (if ret \<noteq> 0 then None else Some ctx', fs')))"

text \<open>The static \<^verbatim>\<open>stdoutStream\<close>, created by the first call. \<open>out\<close> is the pointer \<^verbatim>\<open>stdout\<close>.\<close>

definition Stream_getStdoutStream ::
  "stream_stats \<Rightarrow> u64 \<Rightarrow> stream_obj option \<Rightarrow> files \<Rightarrow> (stream_obj option \<times> files) result" where
  "Stream_getStdoutStream junk out stdoutStream fs =
     (if stdoutStream = None then Stream_create junk 0 fs out UNCOMPRESSED else Inr (stdoutStream, fs))"

section \<open>The contract of a byte sink\<close>

text \<open>
  What a client of a stream relies on: as long as there is room, a write appends its bytes to what the stream
  stands for, a flush changes nothing of that, and neither touches another file.
\<close>

locale byte_sink =
  fixes put :: "'s \<Rightarrow> files \<Rightarrow> u8 list \<Rightarrow> u32 \<Rightarrow> ('s \<times> files) result"
    and flush :: "'s \<Rightarrow> files \<Rightarrow> ('s \<times> files \<times> int) result"
    and handle :: "'s \<Rightarrow> u64"
    and ok :: "'s \<Rightarrow> files \<Rightarrow> bool"
    and contents :: "'s \<Rightarrow> files \<Rightarrow> u8 list"
    and room :: "'s \<Rightarrow> files \<Rightarrow> nat"
    and chunk :: "'s \<Rightarrow> nat"
  assumes put_law: "ok s fs \<Longrightarrow> unat len \<le> length xs \<Longrightarrow> unat len \<le> chunk s \<Longrightarrow> unat len \<le> room s fs \<Longrightarrow>
      \<exists>s' fs'. put s fs xs len = Inr (s', fs') \<and> ok s' fs' \<and> contents s' fs' = contents s fs @ take (unat len) xs \<and>
        room s' fs' = room s fs - unat len \<and> chunk s' = chunk s \<and> handle s' = handle s \<and>
        (\<forall>p. p \<noteq> handle s \<longrightarrow> fs' p = fs p)"
    and flush_law: "ok s fs \<Longrightarrow>
      \<exists>s' fs'. flush s fs = Inr (s', fs', 0) \<and> ok s' fs' \<and> contents s' fs' = contents s fs \<and>
        room s' fs' = room s fs \<and> chunk s' = chunk s \<and> handle s' = handle s \<and>
        (\<forall>p. p \<noteq> handle s \<longrightarrow> fs' p = fs p)"
begin

fun put_all :: "'s \<Rightarrow> files \<Rightarrow> u8 list list \<Rightarrow> ('s \<times> files) result" where
  "put_all s fs [] = Inr (s, fs)"
| "put_all s fs (xs # xss) = bindE (put s fs xs (word_of_nat (length xs))) (\<lambda>(s', fs'). put_all s' fs' xss)"

lemma put_law_list:
  assumes "ok s fs" and "length xs \<le> chunk s" and "length xs \<le> room s fs" and "length xs < 2 ^ 32"
  shows "\<exists>s' fs'. put s fs xs (word_of_nat (length xs)) = Inr (s', fs') \<and> ok s' fs' \<and>
    contents s' fs' = contents s fs @ xs \<and> room s' fs' = room s fs - length xs \<and> chunk s' = chunk s \<and>
    handle s' = handle s \<and> (\<forall>p. p \<noteq> handle s \<longrightarrow> fs' p = fs p)"
proof -
  have "unat (word_of_nat (length xs) :: u32) = length xs" using assms(4) by (simp add: unat_of_nat)
  then show ?thesis using put_law [OF assms(1), of "word_of_nat (length xs)" xs] assms(2,3) by simp
qed

lemma put_all_contents:
  assumes "ok s fs" and "\<forall>xs \<in> set xss. length xs \<le> chunk s \<and> length xs < 2 ^ 32" and "length (concat xss) \<le> room s fs"
  shows "\<exists>s' fs'. put_all s fs xss = Inr (s', fs') \<and> ok s' fs' \<and> contents s' fs' = contents s fs @ concat xss \<and>
    handle s' = handle s \<and> (\<forall>p. p \<noteq> handle s \<longrightarrow> fs' p = fs p)"
  using assms
proof (induction xss arbitrary: s fs)
  case Nil
  then show ?case by simp
next
  case (Cons xs xss)
  obtain s1 fs1 where s1: "put s fs xs (word_of_nat (length xs)) = Inr (s1, fs1)" "ok s1 fs1"
      "contents s1 fs1 = contents s fs @ xs" "room s1 fs1 = room s fs - length xs" "chunk s1 = chunk s"
      "handle s1 = handle s" "\<forall>p. p \<noteq> handle s \<longrightarrow> fs1 p = fs p"
    using put_law_list [of s fs xs] Cons.prems by auto
  have fits: "\<forall>xs \<in> set xss. length xs \<le> chunk s1 \<and> length xs < 2 ^ 32" "length (concat xss) \<le> room s1 fs1"
    using Cons.prems s1 by simp_all
  obtain s2 fs2 where "put_all s1 fs1 xss = Inr (s2, fs2)" "ok s2 fs2" "contents s2 fs2 = contents s1 fs1 @ concat xss"
      "handle s2 = handle s1" "\<forall>p. p \<noteq> handle s1 \<longrightarrow> fs2 p = fs1 p"
    using Cons.IH [OF s1(2)] fits by blast
  then show ?case using s1 by auto
qed

lemma put_all_flush:
  assumes "ok s fs" and "\<forall>xs \<in> set xss. length xs \<le> chunk s \<and> length xs < 2 ^ 32" and "length (concat xss) \<le> room s fs"
  shows "\<exists>s' fs'. bindE (put_all s fs xss) (\<lambda>(s1, fs1). flush s1 fs1) = Inr (s', fs', 0) \<and> ok s' fs' \<and>
    contents s' fs' = contents s fs @ concat xss \<and> (\<forall>p. p \<noteq> handle s \<longrightarrow> fs' p = fs p)"
proof -
  obtain s1 fs1 where s1: "put_all s fs xss = Inr (s1, fs1)" "ok s1 fs1" "contents s1 fs1 = contents s fs @ concat xss"
      "handle s1 = handle s" "\<forall>p. p \<noteq> handle s \<longrightarrow> fs1 p = fs p"
    using put_all_contents [OF assms] by blast
  then show ?thesis using flush_law [OF s1(2)] by force
qed

end

section \<open>Streams are byte sinks\<close>

definition file_ok :: "files \<Rightarrow> u64 \<Rightarrow> bool" where
  "file_ok fs p \<longleftrightarrow> p \<noteq> 0 \<and> (case fs p of None \<Rightarrow> False | Some f \<Rightarrow> \<not> cf_error f \<and> length (cf_pending f) \<le> cf_room f)"

text \<open>What the file was given, on its device or still in the library's buffer, and what the device has.\<close>

definition file_data :: "files \<Rightarrow> u64 \<Rightarrow> u8 list" where
  "file_data fs p = (case fs p of None \<Rightarrow> [] | Some f \<Rightarrow> cf_data f @ cf_pending f)"

definition on_device :: "files \<Rightarrow> u64 \<Rightarrow> u8 list" where
  "on_device fs p = (case fs p of None \<Rightarrow> [] | Some f \<Rightarrow> cf_data f)"

definition file_room :: "files \<Rightarrow> u64 \<Rightarrow> nat" where
  "file_room fs p = (case fs p of None \<Rightarrow> 0 | Some f \<Rightarrow> cf_room f - length (cf_pending f))"

text \<open>What is still in the buffer of a \<^verbatim>\<open>StreamBuffered\<close>.\<close>

fun pending :: "stream_obj \<Rightarrow> u8 list" where
  "pending (BufferedStream st) = (case sb_buffer st of None \<Rightarrow> [] | Some b \<Rightarrow> take (unat (sb_bufferIdx st)) b)"
| "pending _ = []"

fun stream_buffer_ok :: "stream_obj \<Rightarrow> bool" where
  "stream_buffer_ok (BufferedStream st) \<longleftrightarrow>
     (case sb_buffer st of None \<Rightarrow> False | Some b \<Rightarrow> length b = unat (sb_bufferSize st)) \<and> sb_bufferIdx st \<le> sb_bufferSize st"
| "stream_buffer_ok _ \<longleftrightarrow> True"

definition stream_ok :: "stream_obj \<Rightarrow> files \<Rightarrow> bool" where
  "stream_ok x fs \<longleftrightarrow> file_ok fs (obj_fileHandle x) \<and> stream_buffer_ok x \<and>
     length (pending x) \<le> file_room fs (obj_fileHandle x)"

definition stream_contents :: "stream_obj \<Rightarrow> files \<Rightarrow> u8 list" where
  "stream_contents x fs = file_data fs (obj_fileHandle x) @ pending x"

definition stream_room :: "stream_obj \<Rightarrow> files \<Rightarrow> nat" where
  "stream_room x fs = file_room fs (obj_fileHandle x) - length (pending x)"

fun stream_chunk :: "stream_obj \<Rightarrow> nat" where
  "stream_chunk (BufferedStream st) = unat (sb_bufferSize st)"
| "stream_chunk _ = 2 ^ 32"

lemma fwrite_ok:
  assumes "file_ok fs p" and "length xs \<le> file_room fs p"
  shows "\<exists>fs'. fwrite fs p xs = Inr (fs', length xs, False) \<and> file_ok fs' p \<and> file_data fs' p = file_data fs p @ xs \<and>
    file_room fs' p = file_room fs p - length xs \<and> (\<forall>q. q \<noteq> p \<longrightarrow> fs' q = fs q)"
proof -
  obtain f where f: "p \<noteq> 0" "fs p = Some f" "\<not> cf_error f" "length (cf_pending f) \<le> cf_room f"
    using assms(1) by (auto simp: file_ok_def split: option.splits)
  let ?h = "cf_pending f @ xs"
  define n where "n = length ?h - cf_keep f ?h"
  define out where "out = take n ?h"
  define rest where "rest = drop n ?h"
  define g where "g = (cf_drain f out)\<lparr>cf_pending := rest\<rparr>"
  have split: "out @ rest = ?h" unfolding out_def rest_def by (rule append_take_drop_id)
  have "length out = n" by (simp add: out_def n_def)
  note split = split this
  have room: "length ?h \<le> cf_room f" using assms(2) f by (simp add: file_room_def)
  moreover have "length out + length rest = length ?h" using split(1) by (metis length_append)
  ultimately have len: "n \<le> cf_room f" "length rest + n = length ?h" using split(2) by linarith+
  have g: "cf_data g @ cf_pending g = cf_data f @ ?h" "cf_room g = cf_room f - n" "length (cf_pending g) = length ?h - n" "\<not> cf_error g"
    using split len f(3) by (simp_all add: g_def cf_drain_def)
  have "fwrite fs p xs = Inr (fs(p \<mapsto> g), length xs, cf_error (cf_drain f out))"
    using f(2) len(1) by (simp add: fwrite_def Let_def g_def out_def rest_def n_def)
  moreover have "\<not> cf_error (cf_drain f out)" using f(3) len(1) split(2) by (simp add: cf_drain_def)
  moreover have "length ?h - n \<le> cf_room f - n" "cf_room f - n - (length ?h - n) = cf_room f - length ?h"
    using len room by linarith+
  ultimately show ?thesis
    using f(1,2) g by (simp add: file_ok_def file_data_def file_room_def)
qed

lemma fflush_ok:
  assumes "file_ok fs p"
  shows "\<exists>fs'. fflush fs p = Inr (fs', 0) \<and> file_ok fs' p \<and> file_data fs' p = file_data fs p \<and>
    on_device fs' p = file_data fs p \<and> file_room fs' p = file_room fs p \<and> (\<forall>q. q \<noteq> p \<longrightarrow> fs' q = fs q)"
  using assms by (auto simp: fflush_def cf_drain_def file_ok_def file_data_def on_device_def file_room_def split: option.splits)

lemma Stream_write_ok:
  assumes "file_ok fs (st_fileHandle st)" and "unat len \<le> length xs" and "unat len \<le> file_room fs (st_fileHandle st)"
  shows "\<exists>fs'. Stream_write st fs xs len = Inr (st, fs') \<and> file_ok fs' (st_fileHandle st) \<and>
    file_data fs' (st_fileHandle st) = file_data fs (st_fileHandle st) @ take (unat len) xs \<and>
    file_room fs' (st_fileHandle st) = file_room fs (st_fileHandle st) - unat len \<and>
    (\<forall>q. q \<noteq> st_fileHandle st \<longrightarrow> fs' q = fs q)"
  using fwrite_ok [OF assms(1), of "take (unat len) xs"] assms(2,3) by (auto simp: Stream_write_def min_absorb2)

lemma StreamBuffered_flush_ok:
  assumes "stream_ok (BufferedStream st) fs"
  shows "\<exists>st' fs'. StreamBuffered_flush st fs = Inr (st', fs', 0) \<and> stream_ok (BufferedStream st') fs' \<and>
    sb_bufferIdx st' = 0 \<and> sb_buffer st' = sb_buffer st \<and> sb_bufferSize st' = sb_bufferSize st \<and>
    st_fileHandle st' = st_fileHandle st \<and>
    file_data fs' (st_fileHandle st) = stream_contents (BufferedStream st) fs \<and>
    file_room fs' (st_fileHandle st) = stream_room (BufferedStream st) fs \<and>
    (\<forall>q. q \<noteq> st_fileHandle st \<longrightarrow> fs' q = fs q)"
proof -
  let ?p = "st_fileHandle st" and ?n = "unat (sb_bufferIdx st)"
  obtain b where b: "sb_buffer st = Some b" "length b = unat (sb_bufferSize st)" "?n \<le> length b"
    using assms by (auto simp: stream_ok_def word_le_nat_alt split: option.splits)
  have p: "file_ok fs ?p" "?p \<noteq> 0" "length (take ?n b) \<le> file_room fs ?p"
    using assms b by (auto simp: stream_ok_def file_ok_def)
  obtain fs' where fs': "fwrite fs ?p (take ?n b) = Inr (fs', length (take ?n b), False)" "file_ok fs' ?p"
      "file_data fs' ?p = file_data fs ?p @ take ?n b" "file_room fs' ?p = file_room fs ?p - length (take ?n b)"
      "\<forall>q. q \<noteq> ?p \<longrightarrow> fs' q = fs q"
    using fwrite_ok [OF p(1,3)] by blast
  then show ?thesis using b p
    by (simp add: StreamBuffered_flush_def StreamBuffered_availableData_def deref_buffer_def Let_def
        stream_ok_def stream_contents_def stream_room_def min_absorb2)
qed

text \<open>A buffered write of a chunk that fits the free part of the buffer.\<close>

lemma StreamBuffered_append:
  assumes "stream_ok (BufferedStream st) fs" and "unat (sb_bufferIdx st) + unat len \<le> unat (sb_bufferSize st)"
    and "unat len \<le> length xs" and "unat len \<le> stream_room (BufferedStream st) fs" and "sb_buffer st = Some b"
  shows "mem_write b (unat (sb_bufferIdx st)) (take (unat len) xs) =
      Inr (take (unat (sb_bufferIdx st)) b @ take (unat len) xs @ drop (unat (sb_bufferIdx st) + unat len) b) \<and>
    (let st' = st\<lparr>sb_buffer := Some (take (unat (sb_bufferIdx st)) b @ take (unat len) xs @
                    drop (unat (sb_bufferIdx st) + unat len) b), sb_bufferIdx := sb_bufferIdx st + len\<rparr>
     in stream_ok (BufferedStream st') fs \<and>
        stream_contents (BufferedStream st') fs = stream_contents (BufferedStream st) fs @ take (unat len) xs \<and>
        stream_room (BufferedStream st') fs = stream_room (BufferedStream st) fs - unat len)"
proof -
  let ?i = "unat (sb_bufferIdx st)" and ?n = "unat len"
  have b: "length b = unat (sb_bufferSize st)" using assms(1,5) by (simp add: stream_ok_def)
  have i: "unat (sb_bufferIdx st + len) = ?i + ?n"
    using assms(2) unat_u32_bound [of "sb_bufferSize st"] by (simp add: unat_add_u32)
  have "?i \<le> file_room fs (st_fileHandle st)"
    using assms(1,2,5) b by (simp add: stream_ok_def)
  then show ?thesis
    using assms b i by (simp add: stream_ok_def stream_contents_def stream_room_def word_le_nat_alt)
qed

lemma StreamBuffered_hasRoom_iff:
  assumes "sb_bufferIdx st \<le> sb_bufferSize st"
  shows "StreamBuffered_bufferHasRoom st len \<longleftrightarrow> unat (sb_bufferIdx st) + unat len \<le> unat (sb_bufferSize st)"
  using assms by (auto simp: StreamBuffered_bufferHasRoom_def word_le_nat_alt unat_sub)

lemma StreamBuffered_write_ok:
  assumes ok: "stream_ok (BufferedStream st) fs" and len: "unat len \<le> length xs"
    and fit: "unat len \<le> unat (sb_bufferSize st)" "unat len \<le> stream_room (BufferedStream st) fs"
  shows "\<exists>st' fs'. StreamBuffered_write st fs xs len = Inr (st', fs') \<and> stream_ok (BufferedStream st') fs' \<and>
    stream_contents (BufferedStream st') fs' = stream_contents (BufferedStream st) fs @ take (unat len) xs \<and>
    stream_room (BufferedStream st') fs' = stream_room (BufferedStream st) fs - unat len \<and>
    sb_bufferSize st' = sb_bufferSize st \<and> st_fileHandle st' = st_fileHandle st \<and>
    (\<forall>q. q \<noteq> st_fileHandle st \<longrightarrow> fs' q = fs q)"
proof -
  have le: "\<not> StreamBuffered_getBufferSize st < len" using fit(1) by (simp add: StreamBuffered_getBufferSize_def word_less_nat_alt)
  have idx: "sb_bufferIdx st \<le> sb_bufferSize st" and b: "\<exists>b. sb_buffer st = Some b"
    using ok by (auto simp: stream_ok_def split: option.splits)
  show ?thesis
  proof (cases "StreamBuffered_bufferHasRoom st len")
    case True
    then show ?thesis
      using StreamBuffered_append [OF ok _ len fit(2)] b le len StreamBuffered_hasRoom_iff [OF idx]
      by (auto simp: StreamBuffered_write_def deref_buffer_def Let_def)
  next
    case False
    obtain st1 fs1 where f: "StreamBuffered_flush st fs = Inr (st1, fs1, 0)" "stream_ok (BufferedStream st1) fs1"
        "sb_bufferIdx st1 = 0" "sb_buffer st1 = sb_buffer st" "sb_bufferSize st1 = sb_bufferSize st"
        "st_fileHandle st1 = st_fileHandle st"
        "file_data fs1 (st_fileHandle st) = stream_contents (BufferedStream st) fs"
        "file_room fs1 (st_fileHandle st) = stream_room (BufferedStream st) fs"
        "\<forall>q. q \<noteq> st_fileHandle st \<longrightarrow> fs1 q = fs q"
      using StreamBuffered_flush_ok [OF ok] by auto
    then have c: "stream_contents (BufferedStream st1) fs1 = stream_contents (BufferedStream st) fs"
        "stream_room (BufferedStream st1) fs1 = stream_room (BufferedStream st) fs"
      using b by (auto simp: stream_contents_def stream_room_def)
    show ?thesis
      using StreamBuffered_append [OF f(2) _ len, unfolded c, OF _ fit(2)] b le False f c len fit
      by (auto simp: StreamBuffered_write_def deref_buffer_def Let_def)
  qed
qed

interpretation sink: byte_sink stream_write stream_flush obj_fileHandle stream_ok stream_contents stream_room stream_chunk
proof unfold_locales
  fix s fs and len :: u32 and xs :: "u8 list"
  assume "stream_ok s fs" and "unat len \<le> length xs" and "unat len \<le> stream_chunk s" and "unat len \<le> stream_room s fs"
  then show "\<exists>s' fs'. stream_write s fs xs len = Inr (s', fs') \<and> stream_ok s' fs' \<and>
      stream_contents s' fs' = stream_contents s fs @ take (unat len) xs \<and>
      stream_room s' fs' = stream_room s fs - unat len \<and> stream_chunk s' = stream_chunk s \<and>
      obj_fileHandle s' = obj_fileHandle s \<and> (\<forall>p. p \<noteq> obj_fileHandle s \<longrightarrow> fs' p = fs p)"
  proof (cases s)
    case (BufferedStream st)
    then show ?thesis
      using StreamBuffered_write_ok [of st fs len xs] \<open>stream_ok s fs\<close> \<open>unat len \<le> length xs\<close>
        \<open>unat len \<le> stream_chunk s\<close> \<open>unat len \<le> stream_room s fs\<close> by fastforce
  next
    case (PlainStream st)
    then show ?thesis
      using Stream_write_ok [of fs st len xs] \<open>stream_ok s fs\<close> \<open>unat len \<le> length xs\<close> \<open>unat len \<le> stream_room s fs\<close>
      by (auto simp: stream_ok_def stream_contents_def stream_room_def)
  next
    case (CompressedStream st)
    then show ?thesis
      using Stream_write_ok [of fs st len xs] \<open>stream_ok s fs\<close> \<open>unat len \<le> length xs\<close> \<open>unat len \<le> stream_room s fs\<close>
      by (auto simp: stream_ok_def stream_contents_def stream_room_def)
  qed
next
  fix s fs
  assume ok: "stream_ok s fs"
  then have p: "file_ok fs (obj_fileHandle s)" by (simp add: stream_ok_def)
  show "\<exists>s' fs'. stream_flush s fs = Inr (s', fs', 0) \<and> stream_ok s' fs' \<and>
      stream_contents s' fs' = stream_contents s fs \<and> stream_room s' fs' = stream_room s fs \<and>
      stream_chunk s' = stream_chunk s \<and> obj_fileHandle s' = obj_fileHandle s \<and>
      (\<forall>p. p \<noteq> obj_fileHandle s \<longrightarrow> fs' p = fs p)"
  proof (cases s)
    case (BufferedStream st)
    obtain st' fs' where f: "StreamBuffered_flush st fs = Inr (st', fs', 0)" "stream_ok (BufferedStream st') fs'"
        "sb_bufferIdx st' = 0" "sb_bufferSize st' = sb_bufferSize st" "st_fileHandle st' = st_fileHandle st"
        "file_data fs' (st_fileHandle st) = stream_contents (BufferedStream st) fs"
        "file_room fs' (st_fileHandle st) = stream_room (BufferedStream st) fs"
        "\<forall>q. q \<noteq> st_fileHandle st \<longrightarrow> fs' q = fs q"
      using StreamBuffered_flush_ok ok BufferedStream by blast
    then have "pending (BufferedStream st') = []" by (simp split: option.splits)
    then show ?thesis using f BufferedStream by (simp add: stream_contents_def stream_room_def)
  qed (use fflush_ok [OF p] p ok in \<open>auto simp: Stream_flush_def stream_ok_def stream_contents_def stream_room_def file_ok_def\<close>)
qed

section \<open>Properties\<close>

text \<open>A client that writes its chunks one after the other.\<close>

fun stream_write_all :: "stream_obj \<Rightarrow> files \<Rightarrow> u8 list list \<Rightarrow> (stream_obj \<times> files) result" where
  "stream_write_all x fs [] = Inr (x, fs)"
| "stream_write_all x fs (xs # xss) =
     bindE (stream_write x fs xs (word_of_nat (length xs))) (\<lambda>(x', fs'). stream_write_all x' fs' xss)"

lemma stream_write_all_sink: "stream_write_all x fs xss = sink.put_all x fs xss"
  by (induction x fs xss rule: stream_write_all.induct) (auto simp: bindE_def split: sum.split)

text \<open>
  After a flush nothing is left in the stream. A plain stream has also passed everything on to the device; the \<^verbatim>\<open>flush\<close>
  of a buffered one does not call \<^verbatim>\<open>fflush\<close>.
\<close>

definition flushed :: "stream_obj \<Rightarrow> files \<Rightarrow> bool" where
  "flushed x fs \<longleftrightarrow> pending x = [] \<and>
     (case x of BufferedStream st \<Rightarrow> True | _ \<Rightarrow> on_device fs (obj_fileHandle x) = file_data fs (obj_fileHandle x))"

lemma stream_flush_flushed:
  assumes "stream_ok x fs" and "stream_flush x fs = Inr (x', fs', r)"
  shows "flushed x' fs'"
proof (cases x)
  case (BufferedStream st)
  then show ?thesis using StreamBuffered_flush_ok [of st fs] assms by (auto simp: flushed_def split: option.splits)
qed (use assms fflush_ok [of fs "obj_fileHandle x"] in
    \<open>auto simp: bindE_eq_Inr_iff Stream_flush_def flushed_def stream_ok_def file_ok_def\<close>)

lemma flushed_contents: "flushed x fs \<Longrightarrow> file_data fs (obj_fileHandle x) = stream_contents x fs"
  by (simp add: flushed_def stream_contents_def)

text \<open>A stream that takes chunks of any length has no buffer of its own.\<close>

lemma flushed_device:
  assumes "flushed x fs" and "stream_chunk x = 2 ^ 32"
  shows "on_device fs (obj_fileHandle x) = stream_contents x fs"
proof (cases x)
  case (BufferedStream st)
  then show ?thesis using assms(2) unat_u32_bound [of "sb_bufferSize st"] by simp
qed (use assms(1) in \<open>simp_all add: flushed_def stream_contents_def\<close>)

text \<open>
  C10. What is written to a stream as \<^verbatim>\<open>Stream::create\<close> makes it for the log (mode \<^verbatim>\<open>UNCOMPRESSED\<close>) and then flushed is on
  the file's device, complete and in order, behind what the file was given before, however the C library buffers
  it; no write counts an error, and no other file changes. The file has to be open without an error, the chunks
  shorter than 4 GiB, and the device has to have the room for all of them.
\<close>

theorem stream_writes_reach_file:
  assumes "file_ok fs p" and "\<forall>xs \<in> set xss. length xs < 2 ^ 32" and "length (concat xss) \<le> file_room fs p"
  shows "\<exists>fs'. bindE (Stream_create junk size0 fs p UNCOMPRESSED) (\<lambda>(x, fs0).
        bindE (stream_write_all (the x) fs0 xss) (\<lambda>(x1, fs1). stream_flush x1 fs1)) =
      Inr (PlainStream \<lparr>st_stats = junk, st_fileHandle = p\<rparr>, fs', 0) \<and>
    on_device fs' p = file_data fs p @ concat xss \<and> file_ok fs' p \<and> (\<forall>q. q \<noteq> p \<longrightarrow> fs' q = fs q)"
proof -
  let ?x = "PlainStream \<lparr>st_stats = junk, st_fileHandle = p\<rparr>"
  have p: "p \<noteq> 0" using assms(1) by (simp add: file_ok_def)
  then have create: "Stream_create junk size0 fs p UNCOMPRESSED = Inr (Some ?x, fs)"
    by (simp add: Stream_create_def Stream_setFile_def Stream_new_def Let_def)
  have w: "\<exists>fs1. stream_write_all ?x fs xss = Inr (?x, fs1) \<and> file_ok fs1 p \<and> file_data fs1 p = file_data fs p @ concat xss \<and>
      (\<forall>q. q \<noteq> p \<longrightarrow> fs1 q = fs q)"
    using assms
  proof (induction xss arbitrary: fs)
    case (Cons xs xss)
    have len: "unat (word_of_nat (length xs) :: u32) = length xs" using Cons.prems(2) by (simp add: unat_of_nat)
    obtain fs1 where fs1: "Stream_write \<lparr>st_stats = junk, st_fileHandle = p\<rparr> fs xs (word_of_nat (length xs)) =
          Inr (\<lparr>st_stats = junk, st_fileHandle = p\<rparr>, fs1)" "file_ok fs1 p" "file_data fs1 p = file_data fs p @ xs"
        "file_room fs1 p = file_room fs p - length xs" "\<forall>q. q \<noteq> p \<longrightarrow> fs1 q = fs q"
      using Stream_write_ok [of fs "\<lparr>st_stats = junk, st_fileHandle = p\<rparr>" "word_of_nat (length xs)" xs] Cons.prems len by auto
    have "\<forall>xs \<in> set xss. length xs < 2 ^ 32" "length (concat xss) \<le> file_room fs1 p" using Cons.prems(2,3) fs1(4) by simp_all
    then show ?case using Cons.IH [OF fs1(2)] fs1 by auto
  qed simp
  then obtain fs1 where fs1: "stream_write_all ?x fs xss = Inr (?x, fs1)" "file_ok fs1 p"
      "file_data fs1 p = file_data fs p @ concat xss" "\<forall>q. q \<noteq> p \<longrightarrow> fs1 q = fs q"
    by blast
  obtain fs2 where "fflush fs1 p = Inr (fs2, 0)" "file_ok fs2 p" "on_device fs2 p = file_data fs1 p" "\<forall>q. q \<noteq> p \<longrightarrow> fs2 q = fs1 q"
    using fflush_ok [OF fs1(2)] by blast
  then show ?thesis using create fs1 p by (simp add: Stream_flush_def)
qed

definition zero_stats :: stream_stats where
  "zero_stats = \<lparr>ss_zlibErrorNo = 0, ss_zlibError = 0, ss_zlibDeflateInitError = 0, ss_zlibDeflateError = 0,
     ss_ioErrorNo = 0, ss_ioError = 0, ss_ioWriteError = 0, ss_ioReadError = 0, ss_ioSeekError = 0,
     ss_compressError = 0, ss_flushWriteCount = 0\<rparr>"

text \<open>A new file on a device with room for \<open>n\<close> bytes, buffered by 4096 bytes.\<close>

definition empty_file :: "nat \<Rightarrow> cfile" where
  "empty_file n = \<lparr>cf_data = [], cf_pending = [], cf_keep = (\<lambda>xs. if length xs \<le> 4096 then length xs else 0), cf_room = n, cf_error = False\<rparr>"

theorem stream_writes_reach_file_witness:
  "\<exists>fs'. bindE (Stream_create zero_stats 0 [3 \<mapsto> empty_file 9] 3 UNCOMPRESSED) (\<lambda>(x, fs0).
        bindE (stream_write_all (the x) fs0 [[1, 2, 3], [4, 5], [6]]) (\<lambda>(x1, fs1). stream_flush x1 fs1)) =
      Inr (PlainStream \<lparr>st_stats = zero_stats, st_fileHandle = 3\<rparr>, fs', 0) \<and> on_device fs' 3 = [1, 2, 3, 4, 5, 6]"
  using stream_writes_reach_file [of "[3 \<mapsto> empty_file 9]" 3 "[[1, 2, 3], [4, 5], [6]]" zero_stats 0]
  by (auto simp: file_ok_def file_room_def file_data_def empty_file_def)

text \<open>Writes the library's buffer takes in.\<close>

lemma stream_write_all_kept:
  assumes "fs (st_fileHandle st) = Some f" and "\<not> cf_error f" and "\<forall>xs \<in> set xss. length xs < 2 ^ 32"
    and "\<forall>ys. length ys \<le> length (cf_pending f @ concat xss) \<longrightarrow> length ys \<le> cf_keep f ys"
  shows "stream_write_all (PlainStream st) fs xss =
    Inr (PlainStream st, if xss = [] then fs else fs(st_fileHandle st \<mapsto> f\<lparr>cf_pending := cf_pending f @ concat xss\<rparr>))"
  using assms
proof (induction xss arbitrary: fs f)
  case (Cons xs xss)
  let ?f = "f\<lparr>cf_pending := cf_pending f @ xs\<rparr>"
  have len: "unat (word_of_nat (length xs) :: u32) = length xs" using Cons.prems(3) by (simp add: unat_of_nat)
  have "length (cf_pending f @ xs) \<le> cf_keep f (cf_pending f @ xs)" by (rule Cons.prems(4) [rule_format]) simp
  then have "Stream_write st fs xs (word_of_nat (length xs)) = Inr (st, fs(st_fileHandle st \<mapsto> ?f))"
    using Cons.prems(1,2) len by (cases f) (simp add: Stream_write_def fwrite_def cf_drain_def Let_def)
  moreover have "stream_write_all (PlainStream st) (fs(st_fileHandle st \<mapsto> ?f)) xss =
      Inr (PlainStream st, if xss = [] then fs(st_fileHandle st \<mapsto> ?f)
        else (fs(st_fileHandle st \<mapsto> ?f))(st_fileHandle st \<mapsto> ?f\<lparr>cf_pending := cf_pending ?f @ concat xss\<rparr>))"
    using Cons.prems by (intro Cons.IH) simp_all
  ultimately show ?case by (auto simp: fun_eq_iff)
qed simp

text \<open>
  C36. A full device is noticed too late. Chunks that the buffer of the C library takes in are counted as written; when
  the device then has not the room for them, \<^verbatim>\<open>Stream::flush\<close> ignores that \<^verbatim>\<open>fflush\<close> fails: it answers 0, the
  statistics of the stream are those from before the first write, and the bytes behind the prefix the device took
  are lost.
\<close>

theorem Stream_flush_hides_full_device:
  assumes "fs (st_fileHandle st) = Some f" and "st_fileHandle st \<noteq> 0" and "\<not> cf_error f" and "\<forall>xs \<in> set xss. length xs < 2 ^ 32"
    and "\<forall>ys. length ys \<le> length (cf_pending f @ concat xss) \<longrightarrow> length ys \<le> cf_keep f ys"
    and "cf_room f < length (cf_pending f @ concat xss)"
  shows "\<exists>fs1 fs2. stream_write_all (PlainStream st) fs xss = Inr (PlainStream st, fs1) \<and>
    (\<exists>fs2'. fflush fs1 (st_fileHandle st) = Inr (fs2', - 1)) \<and> stream_flush (PlainStream st) fs1 = Inr (PlainStream st, fs2, 0) \<and>
    on_device fs2 (st_fileHandle st) = cf_data f @ take (cf_room f) (cf_pending f @ concat xss) \<and>
    file_data fs2 (st_fileHandle st) = on_device fs2 (st_fileHandle st)"
proof -
  let ?fs1 = "if xss = [] then fs else fs(st_fileHandle st \<mapsto> f\<lparr>cf_pending := cf_pending f @ concat xss\<rparr>)"
  let ?f1 = "f\<lparr>cf_pending := cf_pending f @ concat xss\<rparr>"
  have "stream_write_all (PlainStream st) fs xss = Inr (PlainStream st, ?fs1)" using assms(1,3-5) by (intro stream_write_all_kept)
  moreover have "?fs1 (st_fileHandle st) = Some ?f1" using assms(1) by simp
  then have "fflush ?fs1 (st_fileHandle st) = Inr (?fs1(st_fileHandle st \<mapsto> cf_drain ?f1 (cf_pending ?f1)), - 1)"
    using assms(6) by (simp add: fflush_def)
  ultimately show ?thesis
    using assms(2) by (auto simp: Stream_flush_def on_device_def file_data_def cf_drain_def)
qed

theorem Stream_flush_hides_full_device_witness:
  "\<exists>fs1 fs2. stream_write_all (PlainStream \<lparr>st_stats = zero_stats, st_fileHandle = 3\<rparr>) [3 \<mapsto> empty_file 4] [[1, 2, 3], [4, 5]] =
      Inr (PlainStream \<lparr>st_stats = zero_stats, st_fileHandle = 3\<rparr>, fs1) \<and>
    stream_flush (PlainStream \<lparr>st_stats = zero_stats, st_fileHandle = 3\<rparr>) fs1 =
      Inr (PlainStream \<lparr>st_stats = zero_stats, st_fileHandle = 3\<rparr>, fs2, 0) \<and> on_device fs2 3 = [1, 2, 3, 4]"
  using Stream_flush_hides_full_device [of "[3 \<mapsto> empty_file 4]" "\<lparr>st_stats = zero_stats, st_fileHandle = 3\<rparr>" "empty_file 4"
      "[[1, 2, 3], [4, 5]]"]
  by (auto simp: empty_file_def simp del: stream_write_all.simps stream_flush.simps)

text \<open>
  C37. A buffered stream as the constructor leaves it cannot hold two bytes: the array has one character and
  \<^verbatim>\<open>bufferSize\<close> is whatever was in memory, so the first write of two bytes or more throws or writes behind
  the array, whatever that value is.
\<close>

theorem StreamBuffered_new_unusable:
  assumes "2 \<le> unat len" and "unat len \<le> length xs"
  shows "bindE (Stream_create junk size0 fs p BUFFERED_UNCOMPRESS) (\<lambda>(x, fs'). stream_write (the x) fs' xs len) =
    Inl (if size0 < len then Thrown else OutOfBounds)"
proof -
  have room: "StreamBuffered_bufferHasRoom ((StreamBuffered_new junk size0)\<lparr>st_fileHandle := q\<rparr>) len" if "\<not> size0 < len" for q
    using that by (simp add: StreamBuffered_bufferHasRoom_def StreamBuffered_new_def)
  have one: "sb_buffer (StreamBuffered_new junk size0) = Some [0]"
    by (simp add: StreamBuffered_new_def LOG_STREAM_BUFFER_SIZE_def)
  have create: "Stream_create junk size0 fs p BUFFERED_UNCOMPRESS =
      Inr (Some (BufferedStream ((StreamBuffered_new junk size0)\<lparr>st_fileHandle := p\<rparr>)), fs)"
    by (simp add: Stream_create_def Stream_setFile_def StreamBuffered_new_def Let_def)
  show ?thesis
    using assms room [of p] one unfolding create
    by (auto simp: StreamBuffered_write_def StreamBuffered_getBufferSize_def deref_buffer_def mem_write_out
        StreamBuffered_new_def)
qed

theorem StreamBuffered_new_unusable_witness:
  "bindE (Stream_create zero_stats 1048576 (\<lambda>p. None) 3 BUFFERED_UNCOMPRESS) (\<lambda>(x, fs'). stream_write (the x) fs' [104, 105] 2) =
    Inl OutOfBounds"
  using StreamBuffered_new_unusable [of 2 "[104, 105]" zero_stats 1048576 "\<lambda>p. None" 3] by simp

text \<open>
  C38. \<^verbatim>\<open>StreamBuffered::write\<close> ignores a failing \<^verbatim>\<open>flush\<close>: when \<^verbatim>\<open>fwrite\<close> falls short of the buffered bytes or the file
  has an error, the bytes stay in the buffer and the new ones are copied behind its end.
\<close>

theorem StreamBuffered_write_after_failed_flush:
  assumes "sb_buffer st = Some b" and "length b = unat (sb_bufferSize st)" and "sb_bufferIdx st \<le> sb_bufferSize st"
    and "st_fileHandle st \<noteq> 0" and "fwrite fs (st_fileHandle st) (take (unat (sb_bufferIdx st)) b) = Inr (fs', n, err)"
    and "n < unat (sb_bufferIdx st) \<or> err" and "len \<le> sb_bufferSize st" and "unat len \<le> length xs"
    and "unat (sb_bufferSize st) < unat (sb_bufferIdx st) + unat len"
  shows "StreamBuffered_write st fs xs len = Inl OutOfBounds"
proof -
  have "\<not> StreamBuffered_bufferHasRoom st len" using StreamBuffered_hasRoom_iff [OF assms(3)] assms(9) by simp
  moreover have "unat (sb_bufferIdx st) \<le> length b" using assms(2,3) by (simp add: word_le_nat_alt)
  then have "\<exists>st' fs'. StreamBuffered_flush st fs = Inr (st', fs', - 1) \<and> sb_buffer st' = Some b \<and> sb_bufferIdx st' = sb_bufferIdx st"
    using assms(1,4-6)
    by (auto simp: StreamBuffered_flush_def StreamBuffered_availableData_def deref_buffer_def Let_def)
  ultimately show ?thesis
    using assms(1,2,7-9) by (auto simp: StreamBuffered_write_def StreamBuffered_getBufferSize_def deref_buffer_def mem_write_out)
qed

text \<open>The error flag of the file is set, by an earlier flush on a full device for instance.\<close>

theorem StreamBuffered_write_after_failed_flush_witness:
  "StreamBuffered_write \<lparr>st_stats = zero_stats, st_fileHandle = 3, sb_buffer = Some [1, 2, 3, 0],
      sb_bufferSize = 4, sb_bufferIdx = 3\<rparr> [3 \<mapsto> (empty_file 0)\<lparr>cf_error := True\<rparr>] [7, 8] 2 = Inl OutOfBounds"
  using StreamBuffered_write_after_failed_flush [of "\<lparr>st_stats = zero_stats, st_fileHandle = 3, sb_buffer = Some [1, 2, 3, 0],
      sb_bufferSize = 4, sb_bufferIdx = 3\<rparr>" "[1, 2, 3, 0]" "[3 \<mapsto> (empty_file 0)\<lparr>cf_error := True\<rparr>]"
      "[3 \<mapsto> (empty_file 0)\<lparr>cf_error := True, cf_pending := [1, 2, 3]\<rparr>]" 3 True 2 "[7, 8]"]
  by (simp add: empty_file_def fwrite_def cf_drain_def)

text \<open>
  C39. Destroying a buffered stream loses what its buffer still holds: the destructor runs \<^verbatim>\<open>Stream::cleanup\<close>
  with \<^verbatim>\<open>Stream::flush\<close>, so the file ends with the bytes flushed before.
\<close>

theorem StreamBuffered_destroy_loses_pending:
  assumes "stream_ok (BufferedStream st) fs"
  shows "\<exists>fs'. Stream_destroy (BufferedStream st) fs = Inr fs' \<and>
    file_data fs' (st_fileHandle st) @ pending (BufferedStream st) = stream_contents (BufferedStream st) fs"
  using fflush_ok [of fs "st_fileHandle st"] assms
  by (auto simp: stream_ok_def Stream_cleanup_def Stream_flush_def stream_contents_def file_ok_def)

theorem StreamBuffered_destroy_loses_pending_witness:
  "\<exists>fs'. Stream_destroy (BufferedStream \<lparr>st_stats = zero_stats, st_fileHandle = 3, sb_buffer = Some [1, 2, 3, 0],
      sb_bufferSize = 4, sb_bufferIdx = 3\<rparr>) [3 \<mapsto> empty_file 9] = Inr fs' \<and> file_data fs' 3 = []"
  using StreamBuffered_destroy_loses_pending [of "\<lparr>st_stats = zero_stats, st_fileHandle = 3, sb_buffer = Some [1, 2, 3, 0],
      sb_bufferSize = 4, sb_bufferIdx = 3\<rparr>" "[3 \<mapsto> empty_file 9]"]
  by (auto simp: stream_ok_def file_ok_def file_room_def file_data_def empty_file_def stream_contents_def)

end
