(* ===== verification/Log_State.thy ===== *)
theory Log_State
  imports Ring_Buffer String_Format Out_Stream
begin

text \<open>
  The state of \<^verbatim>\<open>Log\<close> (log.h), the layout of a record in the ring, and the operations that write: identifiers,
  the header, \<^verbatim>\<open>traceVargs\<close>, the trace file (log.cpp).
\<close>

section \<open>Constants and levels\<close>

definition DEFAULT_BUFFER_SIZE :: u32 where
  "DEFAULT_BUFFER_SIZE = 20 * 1024 * 1024"

definition LOG_MARKER :: u64 where
  "LOG_MARKER = 0xaf1cfeefbeefae0d"

definition LOG_VERSION :: u32 where
  "LOG_VERSION = 1"

definition START_PATTERN :: u32 where
  "START_PATTERN = 0xbeedface"

definition END_PATTERN :: u32 where
  "END_PATTERN = 0xfadebeef"

definition LOG_MAX_LOG_TRACE_LINE :: u32 where
  "LOG_MAX_LOG_TRACE_LINE = 4096"

datatype Level = Level_off | Level_debug | Level_info | Level_warn | Level_error | Level_fatal | Level_trace | Level_all

text \<open>The enumeration is unscoped, so levels compare by their numbers.\<close>

primrec level_number :: "Level \<Rightarrow> nat" where
  "level_number Level_off = 0"
| "level_number Level_debug = 1"
| "level_number Level_info = 2"
| "level_number Level_warn = 3"
| "level_number Level_error = 4"
| "level_number Level_fatal = 5"
| "level_number Level_trace = 6"
| "level_number Level_all = 7"

lemma level_number_inj: "level_number a = level_number b \<Longrightarrow> a = b"
  by (cases a; cases b; simp)

instantiation Level :: linorder
begin

definition less_eq_Level :: "Level \<Rightarrow> Level \<Rightarrow> bool" where
  "less_eq_Level a b \<longleftrightarrow> level_number a \<le> level_number b"

definition less_Level :: "Level \<Rightarrow> Level \<Rightarrow> bool" where
  "less_Level a b \<longleftrightarrow> level_number a < level_number b"

instance
  by standard (auto simp: less_eq_Level_def less_Level_def intro: level_number_inj)

end

section \<open>Header and trailer\<close>

text \<open>
  \<^verbatim>\<open>struct Header\<close> as gcc lays it out, padding included, so that copying 56 bytes copies the record:
  \<open>hd_pad\<close> is the gap before the first pointer, the \<open>hd_unused\<close> fields are \<^verbatim>\<open>char unused[3]\<close>.
\<close>

record header =
  hd_pattern :: u32
  hd_location :: u32
  hd_id :: u32
  hd_pad :: u32
  hd_format :: u64
  hd_functionName :: u64
  hd_lineNumber :: u16
  hd_length :: u16
  hd_tag :: u8
  hd_unused0 :: u8
  hd_unused1 :: u16
  hd_tv_sec :: u64
  hd_tv_nsec :: u64

definition header_bytes :: "header \<Rightarrow> u8 list" where
  "header_bytes h =
     u32_bytes (hd_pattern h) @ u32_bytes (hd_location h) @ u32_bytes (hd_id h) @ u32_bytes (hd_pad h) @
     u64_bytes (hd_format h) @ u64_bytes (hd_functionName h) @ u16_bytes (hd_lineNumber h) @ u16_bytes (hd_length h) @
     u8_bytes (hd_tag h) @ u8_bytes (hd_unused0 h) @ u16_bytes (hd_unused1 h) @
     u64_bytes (hd_tv_sec h) @ u64_bytes (hd_tv_nsec h)"

definition header_of :: "u8 list \<Rightarrow> header" where
  "header_of bs =
     \<lparr>hd_pattern = u32_of (take 4 bs), hd_location = u32_of (take 4 (drop 4 bs)), hd_id = u32_of (take 4 (drop 8 bs)),
      hd_pad = u32_of (take 4 (drop 12 bs)), hd_format = u64_of (take 8 (drop 16 bs)),
      hd_functionName = u64_of (take 8 (drop 24 bs)), hd_lineNumber = u16_of (take 2 (drop 32 bs)),
      hd_length = u16_of (take 2 (drop 34 bs)), hd_tag = u8_of (take 1 (drop 36 bs)),
      hd_unused0 = u8_of (take 1 (drop 37 bs)), hd_unused1 = u16_of (take 2 (drop 38 bs)),
      hd_tv_sec = u64_of (take 8 (drop 40 bs)), hd_tv_nsec = u64_of (take 8 (drop 48 bs))\<rparr>"

record trailer =
  tr_id :: u32
  tr_pattern :: u32

definition trailer_bytes :: "trailer \<Rightarrow> u8 list" where
  "trailer_bytes t = u32_bytes (tr_id t) @ u32_bytes (tr_pattern t)"

definition trailer_of :: "u8 list \<Rightarrow> trailer" where
  "trailer_of bs = \<lparr>tr_id = u32_of (take 4 bs), tr_pattern = u32_of (take 4 (drop 4 bs))\<rparr>"

definition sizeof_Header :: u32 where
  "sizeof_Header = 56"

definition sizeof_Trailer :: u32 where
  "sizeof_Trailer = 8"



interpretation hdc: full_codec header_bytes header_of 56
proof unfold_locales
  fix h
  show "length (header_bytes h) = 56" by (simp add: header_bytes_def)
  show "header_of (header_bytes h) = h" by (simp add: header_bytes_def header_of_def)
next
  fix bs :: "u8 list" assume len: "length bs = 56"
  have w: "u32_bytes (u32_of (take 4 (drop k bs))) = take 4 (drop k bs)" if "k + 4 \<le> 56" for k
    using that len by (intro u32c.enc_dec) simp
  have d: "u64_bytes (u64_of (take 8 (drop k bs))) = take 8 (drop k bs)" if "k + 8 \<le> 56" for k
    using that len by (intro u64c.enc_dec) simp
  have s: "u16_bytes (u16_of (take 2 (drop k bs))) = take 2 (drop k bs)" if "k + 2 \<le> 56" for k
    using that len by (intro u16c.enc_dec) simp
  have b: "u8_bytes (u8_of (take 1 (drop k bs))) = take 1 (drop k bs)" if "k + 1 \<le> 56" for k
    using that len by (intro u8c.enc_dec) simp
  have "header_bytes (header_of bs) = take 4 (drop 0 bs) @ take 4 (drop 4 bs) @ take 4 (drop 8 bs) @ take 4 (drop 12 bs) @
      take 8 (drop 16 bs) @ take 8 (drop 24 bs) @ take 2 (drop 32 bs) @ take 2 (drop 34 bs) @ take 1 (drop 36 bs) @
      take 1 (drop 37 bs) @ take 2 (drop 38 bs) @ take 8 (drop 40 bs) @ take 8 (drop 48 bs)"
    using w [of 0] w [of 4] w [of 8] w [of 12] d [of 16] d [of 24] s [of 32] s [of 34] b [of 36] b [of 37] s [of 38]
      d [of 40] d [of 48] by (simp add: header_bytes_def header_of_def)
  also have "\<dots> = take 56 bs"
    unfolding append_assoc [symmetric] by (simp add: take_add [symmetric] add.commute)
  finally show "header_bytes (header_of bs) = bs" using len by simp
qed

interpretation trc: full_codec trailer_bytes trailer_of 8
proof unfold_locales
  fix t
  show "length (trailer_bytes t) = 8" by (simp add: trailer_bytes_def)
  show "trailer_of (trailer_bytes t) = t" by (simp add: trailer_bytes_def trailer_of_def)
next
  fix bs :: "u8 list" assume "length bs = 8"
  then have "u32_bytes (u32_of (take 4 bs)) = take 4 bs" "u32_bytes (u32_of (drop 4 bs)) = drop 4 bs"
    by (simp_all add: u32c.enc_dec)
  then show "trailer_bytes (trailer_of bs) = bs"
    using \<open>length bs = 8\<close> by (simp add: trailer_bytes_def trailer_of_def)
qed

lemmas record_codecs [simp] = hdc.enc_length hdc.dec_enc trc.enc_length trc.dec_enc

section \<open>The state\<close>

text \<open>
  The shared pointers to the ring, the stream and the formatter are owned by the log and are parts of its
  state; the collector is an object of its own.
\<close>

record log =
  lg_marker :: u64
  lg_version :: u32
  lg_ringBuffer :: ringbuffer
  lg_stream :: stream_obj
  lg_redirectStd :: bool
  lg_fileHandle :: u64
  lg_filename :: "u8 list"
  lg_globalId :: u32
  lg_bufLastWrittenIndex :: u32
  lg_getStringCorruptedCount :: u32
  lg_glideCount :: u32
  lg_lostCollectCount :: u64
  lg_printFallCount :: u32
  lg_getNextHeaderFailCount :: u32
  lg_lastPrintedId :: u32
  lg_collectCount :: u64
  lg_freopenFailedCount :: u32
  lg_fwriteFailCount :: u32
  lg_fwriteEwouldblockCount :: u32
  lg_fwriteEintrCount :: u32
  lg_fwriteZeroCount :: u32
  lg_fwriteErrno :: u32
  lg_debugLastHeader :: header
  lg_debugState1 :: u32
  lg_debugState2 :: u32
  lg_debugState3 :: u32
  lg_fullBufLenErr :: u32
  lg_hdrPatErr :: u32
  lg_hdrLenErr :: u32
  lg_hdrTailErr :: u32
  lg_debugIndex :: u32
  lg_debugTrailer :: trailer
  lg_debugHdr :: header
  lg_stringFormat :: stringformat

section \<open>Writing a record\<close>

definition allocateId :: "log \<Rightarrow> log \<times> u32" where
  "allocateId lg =
     (let ident = lg_globalId lg;
          lg1 = lg\<lparr>lg_globalId := lg_globalId lg + 1\<rparr>;
          lg2 = (if lg_globalId lg1 = START_PATTERN \<or> lg_globalId lg1 = END_PATTERN
                 then lg1\<lparr>lg_globalId := lg_globalId lg1 + 1\<rparr> else lg1)
      in (lg2, ident))"

text \<open>
  \<^verbatim>\<open>setHeader\<close> on the block \<open>b\<close> with \<^verbatim>\<open>dst\<close> at offset \<open>off\<close>; \<open>now\<close> is what \<^verbatim>\<open>clock_gettime\<close> returns. The padding
  and \<^verbatim>\<open>unused\<close> keep what the block held.
\<close>

definition setHeader ::
  "log \<Rightarrow> u64 \<times> u64 \<Rightarrow> u8 list \<Rightarrow> nat \<Rightarrow> u64 \<Rightarrow> u16 \<Rightarrow> u8 \<Rightarrow> u64 \<Rightarrow> bool \<Rightarrow> u16 \<Rightarrow> u32 \<Rightarrow> u32 \<Rightarrow> (u8 list \<times> u32) result" where
  "setHeader lg now b off function_name lineNumber tag s withTs len location ident =
     bindE (mem_read b off 56) (\<lambda>bs.
     bindE (RingBuffer_normalize (lg_ringBuffer lg) location) (\<lambda>loc.
       let hdr = (header_of bs)
             \<lparr>hd_tv_sec := (if withTs then fst now else 0), hd_tv_nsec := (if withTs then snd now else 0),
              hd_pattern := START_PATTERN, hd_id := ident, hd_length := len, hd_functionName := function_name,
              hd_lineNumber := lineNumber, hd_tag := tag, hd_location := loc, hd_format := s\<rparr>
       in bindE (mem_write b off (header_bytes hdr)) (\<lambda>b'. Inr (b', sizeof_Header))))"

definition setLastWrittenIndex :: "log \<Rightarrow> u32 \<Rightarrow> log" where
  "setLastWrittenIndex lg index = lg\<lparr>lg_bufLastWrittenIndex := index\<rparr>"

definition getLastWrittenIndex :: "log \<Rightarrow> u32" where
  "getLastWrittenIndex lg = lg_bufLastWrittenIndex lg"

definition LOG_MEM_ALIGN :: "u32 \<Rightarrow> u32" where
  "LOG_MEM_ALIGN ret = ret"

definition Log_indexInc :: "u32 \<Rightarrow> u32 \<Rightarrow> u32" where
  "Log_indexInc index v = index + v"

text \<open>
  \<open>stack\<close> is what the array \<^verbatim>\<open>char buffer[LOG_MAX_LOG_TRACE_LINE + 1]\<close> holds on entry, a block of 4097 bytes.
\<close>

definition traceVargs ::
  "cmem \<Rightarrow> u8 list \<Rightarrow> u64 \<times> u64 \<Rightarrow> log \<Rightarrow> bool \<Rightarrow> u64 \<Rightarrow> u32 \<Rightarrow> u8 \<Rightarrow> u64 \<Rightarrow> carg list \<Rightarrow> log result" where
  "traceVargs M stack now lg withTs functionName lineNumber tag format args =
     bindE (deref_string M format) (\<lambda>fmt.
     bindE (encodeToArgsBuffer M fmt args stack (unat sizeof_Header)) (\<lambda>(buffer, dst).
       let buffer_len0 = word_of_nat dst :: u32;
           (lg1, ident) = allocateId lg;
           marker = \<lparr>tr_id = ident, tr_pattern = END_PATTERN\<rparr>
       in
       bindE (mem_write buffer dst (trailer_bytes marker)) (\<lambda>buffer1.
       let buffer_len = buffer_len0 + sizeof_Trailer;
           allignedBufferLen = LOG_MEM_ALIGN buffer_len;
           aligned_padding = allignedBufferLen - buffer_len
       in
       bindE (if 0 < sint aligned_padding
              then bindE (mem_write buffer1 (unat buffer_len) (replicate (unat (allignedBufferLen - buffer_len)) 0)) (\<lambda>b.
                   bindE (ensure (allignedBufferLen - buffer_len < 8) AssertFailed) (\<lambda>u. Inr b))
              else Inr buffer1) (\<lambda>buffer2.
       bindE (ensure (allignedBufferLen \<le> LOG_MAX_LOG_TRACE_LINE) AssertFailed) (\<lambda>u.
       bindE (RingBuffer_allocate (lg_ringBuffer lg1) allignedBufferLen) (\<lambda>(rb, location).
       let lg2 = lg1\<lparr>lg_ringBuffer := rb\<rparr> in
       bindE (setHeader lg2 now buffer2 0 functionName (ucast lineNumber) tag format withTs (ucast buffer_len) location ident)
         (\<lambda>(buffer3, n).
       bindE (RingBuffer_set rb location buffer3 allignedBufferLen) (\<lambda>rb'.
       Inr (setLastWrittenIndex (lg2\<lparr>lg_ringBuffer := rb'\<rparr>) (RingBuffer_getCurrentIndex rb'))))))))))"

section \<open>The trace file\<close>

text \<open>
  The outcome of a call that opens a file: the pointer and the file it denotes, or a null pointer.
\<close>

type_synonym opened = "(u64 \<times> cfile) option"

definition open_file :: "files \<Rightarrow> opened \<Rightarrow> files \<times> u64" where
  "open_file fs res = (case res of None \<Rightarrow> (fs, 0) | Some (p, f) \<Rightarrow> (fs(p \<mapsto> f), p))"

text \<open>\<^verbatim>\<open>freopen(filename, "a", f)\<close>: the old file is closed even when the new one cannot be opened.\<close>

definition reopen_file :: "files \<Rightarrow> u64 \<Rightarrow> cfile option \<Rightarrow> files \<times> bool" where
  "reopen_file fs p res = (fs(p := res), res \<noteq> None)"

text \<open>\<open>so\<close> and \<open>se\<close> are the pointers \<^verbatim>\<open>stdout\<close> and \<^verbatim>\<open>stderr\<close>; \<open>res\<close>, \<open>res_out\<close> and \<open>res_err\<close> the outcomes of the three calls.\<close>

definition createTracefile ::
  "u64 \<Rightarrow> u64 \<Rightarrow> opened \<Rightarrow> cfile option \<Rightarrow> cfile option \<Rightarrow> log \<Rightarrow> files \<Rightarrow> bool \<Rightarrow> log \<times> files \<times> u64" where
  "createTracefile so se res res_out res_err lg fs redirStd =
     (let (fs1, fileHandle) = open_file fs res in
      if redirStd
      then (let (fs2, ok_out) = reopen_file fs1 so res_out;
                lg2 = (if ok_out then lg else lg\<lparr>lg_freopenFailedCount := lg_freopenFailedCount lg + 1\<rparr>);
                (fs3, ok_err) = reopen_file fs2 se res_err;
                lg3 = (if ok_err then lg2 else lg2\<lparr>lg_freopenFailedCount := lg_freopenFailedCount lg2 + 1\<rparr>)
            in (lg3, fs3, fileHandle))
      else (lg, fs1, fileHandle))"

text \<open>\<^verbatim>\<open>strncpy\<close> into an array of \<open>n\<close> bytes: no terminator when the string fills it.\<close>

definition c_strncpy :: "nat \<Rightarrow> string \<Rightarrow> u8 list" where
  "c_strncpy n s = take n (bytes_of s @ replicate n 0)"

definition getTraceFilename :: "log \<Rightarrow> u8 list" where
  "getTraceFilename lg = lg_filename lg"

end
