(* ===== verification/Log_Read.thy ===== *)
theory Log_Read
  imports Log_State
begin

text \<open>
  The operations of log.cpp that read records back: \<^verbatim>\<open>getLog\<close> and its validation, the scan for the next
  valid header, the comparison of headers, the first line to print.
\<close>

section \<open>Validating one record\<close>

text \<open>
  \<^verbatim>\<open>getLog\<close> reads the ring twice, first the header and then the whole record, and producers run all the while. The two
  calls of \<^verbatim>\<open>RingBuffer::get\<close> are parameters of \<open>getLog_between\<close>; \<open>getLog\<close> is the call with a ring at rest. \<open>buf\<close> is the
  caller's block; the booleans of the code are the first component of the result.
\<close>

definition getLog_fail :: "log \<Rightarrow> u32 \<Rightarrow> u32 \<Rightarrow> u32 \<Rightarrow> u32 \<Rightarrow> log" where
  "getLog_fail lg index s1 s2 s3 =
     lg\<lparr>lg_debugIndex := index, lg_debugState1 := s1, lg_debugState2 := s2, lg_debugState3 := s3\<rparr>"

definition getLog_between ::
  "(u32 \<Rightarrow> u32 \<Rightarrow> u8 list result) \<Rightarrow> (u32 \<Rightarrow> u32 \<Rightarrow> u8 list result) \<Rightarrow> log \<Rightarrow> u32 \<Rightarrow> u8 list \<Rightarrow> (bool \<times> log \<times> u8 list) result" where
  "getLog_between get1 get2 lg index0 buf =
     bindE (RingBuffer_normalize (lg_ringBuffer lg) index0) (\<lambda>index.
     bindE (get1 index sizeof_Header) (\<lambda>read_bytes.
       let read_hdr = header_of read_bytes; lg1 = lg\<lparr>lg_debugHdr := read_hdr\<rparr> in
       if hd_pattern read_hdr \<noteq> START_PATTERN
       then Inr (False, getLog_fail (lg1\<lparr>lg_hdrPatErr := lg_hdrPatErr lg1 + 1\<rparr>) index 1 0 0, buf)
       else if ucast (hd_length read_hdr) < sizeof_Header + sizeof_Trailer \<or>
               ucast (hd_length read_hdr) > LOG_MAX_LOG_TRACE_LINE
       then Inr (False, getLog_fail (lg1\<lparr>lg_fullBufLenErr := lg_fullBufLenErr lg1 + 1\<rparr>) index 0 1 0, buf)
       else
         let len = ucast (hd_length read_hdr) :: u32; ident = hd_id read_hdr in
         bindE (get2 index len) (\<lambda>bytes.
         bindE (mem_write buf 0 bytes) (\<lambda>buf1.
         bindE (mem_read buf1 0 56) (\<lambda>hdr_bytes.
           if read_bytes \<noteq> hdr_bytes
           then Inr (False, getLog_fail (lg1\<lparr>lg_hdrLenErr := lg_hdrLenErr lg1 + 1\<rparr>) index 2 0 0, buf1)
           else
             bindE (mem_read buf1 (unat len - 8) 8) (\<lambda>trailer_image.
               if trailer_image \<noteq> trailer_bytes \<lparr>tr_id = ident, tr_pattern = END_PATTERN\<rparr>
               then Inr (False, getLog_fail (lg1\<lparr>lg_debugTrailer := trailer_of trailer_image,
                                              lg_hdrTailErr := lg_hdrTailErr lg1 + 1\<rparr>) index 0 0 1, buf1)
               else Inr (True, lg1, buf1)))))))"

definition getLog :: "log \<Rightarrow> u32 \<Rightarrow> u8 list \<Rightarrow> (bool \<times> log \<times> u8 list) result" where
  "getLog lg index buf = getLog_between (RingBuffer_get (lg_ringBuffer lg)) (RingBuffer_get (lg_ringBuffer lg)) lg index buf"

text \<open>
  \<^verbatim>\<open>RingBuffer::get\<close> while producers write: the copy is a memcpy, which other threads see as one read per byte, in no
  order. \<open>rbs k\<close> is the ring at the moment when byte \<open>k\<close> is read.
\<close>

fun racing_bytes :: "(nat \<Rightarrow> ringbuffer) \<Rightarrow> u32 \<Rightarrow> u32 \<Rightarrow> nat list \<Rightarrow> u8 list result" where
  "racing_bytes rbs index len [] = Inr []"
| "racing_bytes rbs index len (k # ks) =
     bindE (RingBuffer_get (rbs k) index len) (\<lambda>bytes.
     bindE (racing_bytes rbs index len ks) (\<lambda>rest. Inr (bytes ! k # rest)))"

definition RingBuffer_get_racing :: "(nat \<Rightarrow> ringbuffer) \<Rightarrow> u32 \<Rightarrow> u32 \<Rightarrow> u8 list result" where
  "RingBuffer_get_racing rbs index len =
     bindE (RingBuffer_normalize (rbs 0) index) (\<lambda>i. racing_bytes rbs index len [0..<unat len])"

text \<open>
  A null \<open>buf\<close> stands for the local \<^verbatim>\<open>scratch_buffer\<close> of 8192 bytes, which is not initialised; \<^verbatim>\<open>getLog\<close> reads
  only what it has written there, so zeros stand for its contents.
\<close>

definition scratch_block :: "u8 list" where
  "scratch_block = replicate 8192 0"

definition isEntryValid :: "log \<Rightarrow> u32 \<Rightarrow> u8 list option \<Rightarrow> (bool \<times> log \<times> u8 list option) result" where
  "isEntryValid lg index buf =
     bindE (getLog lg index (case buf of None \<Rightarrow> scratch_block | Some b \<Rightarrow> b)) (\<lambda>(ok, lg', b).
       Inr (ok, lg', case buf of None \<Rightarrow> None | Some _ \<Rightarrow> Some b))"

text \<open>None of the reads changes the ring.\<close>

lemma getLog_fail_ring [simp]: "lg_ringBuffer (getLog_fail lg i a b c) = lg_ringBuffer lg"
  by (simp add: getLog_fail_def)

lemma if_Inr_E: "(if c then x else y) = z \<Longrightarrow> (c \<Longrightarrow> x = z \<Longrightarrow> P) \<Longrightarrow> (\<not> c \<Longrightarrow> y = z \<Longrightarrow> P) \<Longrightarrow> P"
  by (cases c) simp_all

lemma getLog_ring:
  assumes "getLog lg i b = Inr (ok, lg', b')"
  shows "lg_ringBuffer lg' = lg_ringBuffer lg"
  using assms unfolding getLog_def getLog_between_def Let_def
  by (elim bindE_eq_InrE if_Inr_E) (clarsimp simp del: mem_read_in mem_write_in)+

lemma isEntryValid_ring: "isEntryValid lg i b = Inr (ok, lg', b') \<Longrightarrow> lg_ringBuffer lg' = lg_ringBuffer lg"
  by (auto simp: isEntryValid_def bindE_eq_Inr_iff dest: getLog_ring)

lemma next_candidate_ring:
  "(if diff \<noteq> 0 then Inr (False, lg, buf) else isEntryValid lg i buf) = Inr (valid, lg1, buf1) \<Longrightarrow>
   lg_ringBuffer lg1 = lg_ringBuffer lg"
  by (cases "diff = 0") (auto dest: isEntryValid_ring)

section \<open>The next header\<close>

text \<open>
  The two nested loops as one: each round either accepts the index or moves on, and gives up when \<^verbatim>\<open>loop\<close>
  exceeds the ring size. \<open>loop\<close> counts unbounded; \<^verbatim>\<open>uint32_t\<close> differs on a ring of \<open>2 ^ 32 - 1\<close> bytes only.
\<close>

function getNextHeader_loop :: "log \<Rightarrow> u32 \<Rightarrow> u8 list option \<Rightarrow> nat \<Rightarrow> (log \<times> u32 \<times> u8 list option) result" where
  "getNextHeader_loop lg index buf loop =
     bindE (RingBuffer_compare (lg_ringBuffer lg) index (u32_bytes START_PATTERN) 4) (\<lambda>diff.
     bindE (if diff \<noteq> 0 then Inr (False, lg, buf) else isEntryValid lg index buf) (\<lambda>(valid, lg1, buf1).
       if valid then Inr (lg1\<lparr>lg_glideCount := word_of_nat loop\<rparr>, index, buf1)
       else if loop + 1 > unat (rb_size (lg_ringBuffer lg))
       then Inr (lg1\<lparr>lg_getNextHeaderFailCount := lg_getNextHeaderFailCount lg1 + 1\<rparr>, 0, buf1)
       else getNextHeader_loop lg1 (index + 1) buf1 (loop + 1)))"
  by pat_completeness auto

termination
proof (relation "measure (\<lambda>(lg, index, buf, loop). unat (rb_size (lg_ringBuffer lg)) - loop)", goal_cases)
  case 1
  then show ?case by simp
next
  case (2 lg index buf loop diff r valid p lg1 buf1)
  then have "lg_ringBuffer lg1 = lg_ringBuffer lg" using next_candidate_ring by metis
  then show ?case using 2 by simp
qed

declare getNextHeader_loop.simps [simp del]

definition getNextHeader :: "log \<Rightarrow> u32 \<Rightarrow> u8 list option \<Rightarrow> (log \<times> u32 \<times> u8 list option) result" where
  "getNextHeader lg index buf = getNextHeader_loop lg index buf 0"

definition getNextHeaderIndex :: "log \<Rightarrow> u32 \<Rightarrow> (log \<times> u32) result" where
  "getNextHeaderIndex lg index = bindE (getNextHeader lg index None) (\<lambda>(lg', i, b). Inr (lg', i))"

section \<open>Comparing headers\<close>

text \<open>The \<^verbatim>\<open>uint32_t\<close> results are converted to \<^verbatim>\<open>int\<close> on return.\<close>

definition cmpHeader :: "header \<Rightarrow> header \<Rightarrow> int" where
  "cmpHeader entry1 entry2 =
     (let id1 = hd_id entry1; id2 = hd_id entry2 in
      if id1 = id2 then 0
      else if id1 < id2 then
        (if id2 - id1 > 0x7FFFFFFF then sint ((0xffffffff - id2) + id1) else sint (id1 - id2))
      else
        (if id1 - id2 > 0x7FFFFFFF then sint ((0xffffffff - id1) + id2) else sint (id1 - id2)))"

section \<open>The first line\<close>

definition firstLine :: "log \<Rightarrow> (log \<times> u32) result" where
  "firstLine lg =
     (let current = RingBuffer_getCurrentIndex (lg_ringBuffer lg) in
      if current \<ge> rb_size (lg_ringBuffer lg) \<or> RingBuffer_hasWrappedAround (lg_ringBuffer lg)
      then bindE (RingBuffer_normalize (lg_ringBuffer lg) current) (\<lambda>c. getNextHeaderIndex lg c)
      else Inr (lg, 0))"

section \<open>Records in the ring\<close>

definition entry_bytes :: "header \<Rightarrow> u8 list \<Rightarrow> u8 list" where
  "entry_bytes h img = header_bytes h @ img @ trailer_bytes \<lparr>tr_id = hd_id h, tr_pattern = END_PATTERN\<rparr>"

definition entry_ok :: "header \<Rightarrow> u8 list \<Rightarrow> bool" where
  "entry_ok h img \<longleftrightarrow> hd_pattern h = START_PATTERN \<and> unat (hd_length h) = 64 + length img \<and> 64 + length img \<le> 4096"

text \<open>The ring holds, from position \<open>i\<close> on and going round, a complete record.\<close>

definition holds_entry :: "ringbuffer \<Rightarrow> nat \<Rightarrow> header \<Rightarrow> u8 list \<Rightarrow> bool" where
  "holds_entry rb i h img \<longleftrightarrow> entry_ok h img \<and> circ (rb_buffer rb) i (64 + length img) = entry_bytes h img"

definition log_ok :: "log \<Rightarrow> bool" where
  "log_ok lg \<longleftrightarrow> rb_ok (lg_ringBuffer lg) \<and> 4096 \<le> unat (rb_size (lg_ringBuffer lg))"

lemma length_entry_bytes [simp]: "length (entry_bytes h img) = 64 + length img"
  by (simp add: entry_bytes_def)

lemma holds_entry_header: "holds_entry rb i h img \<Longrightarrow> circ (rb_buffer rb) i 56 = header_bytes h"
  using take_circ [of 56 "64 + length img" "rb_buffer rb" i] by (simp add: holds_entry_def entry_bytes_def)

text \<open>A position determines the record it holds.\<close>

lemma holds_entry_unique:
  assumes "holds_entry rb i h img" and "holds_entry rb i h' img'"
  shows "h' = h \<and> img' = img"
proof -
  have "header_bytes h' = header_bytes h" using holds_entry_header [OF assms(1)] holds_entry_header [OF assms(2)] by simp
  then have h: "h' = h" by (rule hdc.enc_inj)
  then have "length img' = length img" using assms by (auto simp: holds_entry_def entry_ok_def)
  then show ?thesis using assms h by (simp add: holds_entry_def entry_bytes_def)
qed

lemma unat_ucast_u16_u32 [simp]: "unat (ucast (w :: u16) :: u32) = unat w"
  by (simp add: unsigned_ucast_eq take_bit_eq_mod order.strict_trans [OF unat_u16_bound])

lemma entry_parts:
  assumes "take 56 c = header_bytes h" and "64 \<le> length c"
    and "take 8 (drop (length c - 8) c) = trailer_bytes \<lparr>tr_id = hd_id h, tr_pattern = END_PATTERN\<rparr>"
  shows "c = entry_bytes h (take (length c - 64) (drop 56 c))"
proof -
  have "c = take 56 c @ take (length c - 64) (drop 56 c) @ drop (length c - 8) c"
  proof -
    have "drop 56 c = take (length c - 64) (drop 56 c) @ drop (length c - 64) (drop 56 c)" by (simp only: append_take_drop_id)
    moreover have "drop (length c - 64) (drop 56 c) = drop (length c - 8) c" using assms(2) by simp
    ultimately show ?thesis by (metis append_take_drop_id)
  qed
  moreover have "drop (length c - 8) c = trailer_bytes \<lparr>tr_id = hd_id h, tr_pattern = END_PATTERN\<rparr>"
    using assms(2,3) by (simp add: take_all)
  ultimately show ?thesis using assms(1) by (simp add: entry_bytes_def)
qed

text \<open>
  What \<^verbatim>\<open>getLog\<close> does with the bytes the two reads deliver, \<open>x\<close> for the header and \<open>c\<close> for the record: it never faults,
  and accepts when \<open>c\<close> is the image of a record whose header is \<open>x\<close>.
\<close>

lemma getLog_between_cases:
  assumes "rb_wf (lg_ringBuffer lg)" and "4096 \<le> length buf" and "j = i mod rb_size (lg_ringBuffer lg)"
    and "get1 j sizeof_Header = Inr x" and "length x = 56" and "h = header_of x"
    and "64 \<le> unat (hd_length h) \<Longrightarrow> unat (hd_length h) \<le> 4096 \<Longrightarrow> get2 j (ucast (hd_length h)) = Inr c \<and> length c = unat (hd_length h)"
  shows "(\<exists>img. entry_ok h img \<and> c = entry_bytes h img \<and>
           getLog_between get1 get2 lg i buf = Inr (True, lg\<lparr>lg_debugHdr := h\<rparr>, entry_bytes h img @ drop (64 + length img) buf)) \<or>
         ((\<forall>img. \<not> (entry_ok h img \<and> c = entry_bytes h img)) \<and>
          (\<exists>lg' buf'. getLog_between get1 get2 lg i buf = Inr (False, lg', buf') \<and> length buf' = length buf))"
proof -
  have hdr: "header_bytes h = x" using assms(5,6) by (simp add: hdc.enc_dec)
  let ?n = "unat (hd_length h)"
  consider (pattern) "hd_pattern h \<noteq> START_PATTERN" | (short) "hd_pattern h = START_PATTERN" "?n < 64 \<or> 4096 < ?n"
    | (fit) "hd_pattern h = START_PATTERN" "64 \<le> ?n" "?n \<le> 4096" by linarith
  then show ?thesis
  proof cases
    case pattern
    then have "\<exists>lg' buf'. getLog_between get1 get2 lg i buf = Inr (False, lg', buf') \<and> length buf' = length buf"
      using assms(1,3,4,6) by (simp add: getLog_between_def Let_def)
    moreover have "\<forall>img. \<not> entry_ok h img" using pattern by (simp add: entry_ok_def)
    ultimately show ?thesis by blast
  next
    case short
    then have "\<exists>lg' buf'. getLog_between get1 get2 lg i buf = Inr (False, lg', buf') \<and> length buf' = length buf"
      using assms(1,3,4,6)
      by (simp add: getLog_between_def Let_def sizeof_Header_def sizeof_Trailer_def LOG_MAX_LOG_TRACE_LINE_def
          word_less_nat_alt)
    moreover have "\<forall>img. \<not> entry_ok h img" using short by (auto simp: entry_ok_def)
    ultimately show ?thesis by blast
  next
    case fit
    let ?t = "trailer_bytes \<lparr>tr_id = hd_id h, tr_pattern = END_PATTERN\<rparr>"
    have c: "get2 j (ucast (hd_length h)) = Inr c" "length c = ?n" using assms(7) fit by simp_all
    have run: "getLog_between get1 get2 lg i buf =
        (if take 56 c \<noteq> x
         then Inr (False, getLog_fail (lg\<lparr>lg_debugHdr := h, lg_hdrLenErr := lg_hdrLenErr lg + 1\<rparr>) j 2 0 0, c @ drop ?n buf)
         else if take 8 (drop (?n - 8) c) \<noteq> ?t
         then Inr (False, getLog_fail (lg\<lparr>lg_debugHdr := h, lg_debugTrailer := trailer_of (take 8 (drop (?n - 8) c)),
                                          lg_hdrTailErr := lg_hdrTailErr lg + 1\<rparr>) j 0 0 1, c @ drop ?n buf)
         else Inr (True, lg\<lparr>lg_debugHdr := h\<rparr>, c @ drop ?n buf))"
      using assms(1-4,6) c fit
      by (simp add: getLog_between_def Let_def sizeof_Header_def sizeof_Trailer_def LOG_MAX_LOG_TRACE_LINE_def
          word_less_nat_alt eq_commute [of x])
    show ?thesis
    proof (cases "take 56 c = x \<and> take 8 (drop (?n - 8) c) = ?t")
      case True
      let ?img = "take (?n - 64) (drop 56 c)"
      have img: "64 + length ?img = ?n" using fit c(2) by simp
      have "c = entry_bytes h ?img" using entry_parts [of c h] True fit c(2) hdr by simp
      moreover have "entry_ok h ?img" using fit img by (simp add: entry_ok_def)
      ultimately show ?thesis using run True img by (intro disjI1 exI [of _ ?img]) simp
    next
      case False
      have "\<exists>lg' buf'. getLog_between get1 get2 lg i buf = Inr (False, lg', buf') \<and> length buf' = length buf"
        using run False assms(2) fit c(2) by auto
      moreover have "\<not> (entry_ok h img \<and> c = entry_bytes h img)" for img
      proof
        assume e: "entry_ok h img \<and> c = entry_bytes h img"
        then have "?n = 64 + length img" by (simp add: entry_ok_def)
        then show False using e False hdr assms(5) by (simp add: entry_bytes_def)
      qed
      ultimately show ?thesis by blast
    qed
  qed
qed

lemma getLog_cases:
  assumes "log_ok lg" and "4096 \<le> length buf"
  shows "(\<exists>h img. holds_entry (lg_ringBuffer lg) (unat i) h img \<and>
           getLog lg i buf = Inr (True, lg\<lparr>lg_debugHdr := h\<rparr>, entry_bytes h img @ drop (64 + length img) buf)) \<or>
         ((\<nexists>h img. holds_entry (lg_ringBuffer lg) (unat i) h img) \<and>
          (\<exists>lg' buf'. getLog lg i buf = Inr (False, lg', buf') \<and> length buf' = length buf))"
proof -
  let ?rb = "lg_ringBuffer lg"
  let ?j = "i mod rb_size ?rb" and ?b = "rb_buffer ?rb" and ?x = "circ (rb_buffer ?rb) (unat i) 56"
  let ?h = "header_of ?x"
  let ?c = "circ ?b (unat i) (unat (hd_length ?h))"
  have ok: "rb_ok ?rb" "rb_wf ?rb" "4096 \<le> unat (rb_size ?rb)" using assms(1) by (simp_all add: log_ok_def rb_ok_def)
  have get: "RingBuffer_get ?rb ?j n = Inr (circ ?b (unat i) (unat n))" if "unat n \<le> 4096" for n
    using RingBuffer_get_circ [OF ok(1), of n ?j] ok(2,3) that circ_mod [of ?b "unat i" "unat n"]
    by (simp add: rb_wf_def unat_mod)
  have iff: "entry_ok ?h img \<and> ?c = entry_bytes ?h img \<longleftrightarrow> holds_entry ?rb (unat i) ?h img" for img
    by (auto simp: holds_entry_def entry_ok_def)
  have "(\<exists>img. entry_ok ?h img \<and> ?c = entry_bytes ?h img \<and>
           getLog lg i buf = Inr (True, lg\<lparr>lg_debugHdr := ?h\<rparr>, entry_bytes ?h img @ drop (64 + length img) buf)) \<or>
         ((\<forall>img. \<not> (entry_ok ?h img \<and> ?c = entry_bytes ?h img)) \<and>
          (\<exists>lg' buf'. getLog lg i buf = Inr (False, lg', buf') \<and> length buf' = length buf))"
    unfolding getLog_def
    by (rule getLog_between_cases [OF ok(2) assms(2) refl _ _ refl, where x = ?x]) (simp_all add: get sizeof_Header_def)
  then show ?thesis
  proof (elim disjE exE conjE)
    fix img assume "entry_ok ?h img" "?c = entry_bytes ?h img"
      "getLog lg i buf = Inr (True, lg\<lparr>lg_debugHdr := ?h\<rparr>, entry_bytes ?h img @ drop (64 + length img) buf)"
    then show ?thesis using iff by blast
  next
    fix lg' buf' assume n: "\<forall>img. \<not> (entry_ok ?h img \<and> ?c = entry_bytes ?h img)"
      "getLog lg i buf = Inr (False, lg', buf')" "length buf' = length buf"
    have "\<not> holds_entry ?rb (unat i) h img" for h img
    proof
      assume e: "holds_entry ?rb (unat i) h img"
      then have "h = ?h" using holds_entry_header [OF e] by simp
      then show False using e n(1) iff by metis
    qed
    then show ?thesis using n(2,3) by blast
  qed
qed

text \<open>A copy that races: byte \<open>k\<close> is what the ring holds at its place when it is read.\<close>

lemma racing_bytes_eq:
  assumes "\<forall>k \<in> set ks. RingBuffer_get (rbs k) i n = Inr (f k)"
  shows "racing_bytes rbs i n ks = Inr (map (\<lambda>k. f k ! k) ks)"
  using assms by (induction ks) simp_all

definition seen :: "(nat \<Rightarrow> ringbuffer) \<Rightarrow> nat \<Rightarrow> nat \<Rightarrow> u8 list" where
  "seen rbs i n = map (\<lambda>k. rb_buffer (rbs k) ! ((i + k) mod unat (rb_size (rbs k)))) [0..<n]"

lemma RingBuffer_get_racing_seen:
  assumes "\<forall>k. rb_ok (rbs k) \<and> rb_size (rbs k) = sz" and "unat n \<le> unat sz"
  shows "RingBuffer_get_racing rbs i n = Inr (seen rbs (unat i) (unat n))"
proof -
  have rb: "rb_ok (rbs k)" "rb_size (rbs k) = sz" for k using assms(1) by simp_all
  have ok: "rb_ok (rbs k)" "rb_wf (rbs k)" "rb_size (rbs k) = sz" for k using rb [of k] by (simp_all add: rb_ok_def)
  have "RingBuffer_get (rbs k) i n = Inr (circ (rb_buffer (rbs k)) (unat i) (unat n))" for k
    using RingBuffer_get_circ [OF ok(1), of n k i] ok(3) assms(2) by simp
  then have "racing_bytes rbs i n [0..<unat n] = Inr (map (\<lambda>k. circ (rb_buffer (rbs k)) (unat i) (unat n) ! k) [0..<unat n])"
    by (intro racing_bytes_eq) simp
  moreover have "circ (rb_buffer (rbs k)) (unat i) (unat n) ! k = rb_buffer (rbs k) ! ((unat i + k) mod unat (rb_size (rbs k)))" if "k < unat n" for k
    using that ok(2) [of k] by (simp add: circ_def rb_wf_def)
  ultimately show ?thesis using ok(2) [of 0] by (simp add: RingBuffer_get_racing_def seen_def cong: map_cong)
qed

lemma seen_mod: "\<forall>k. rb_size (rbs k) = sz \<Longrightarrow> seen rbs (i mod unat sz) n = seen rbs i n"
  by (simp add: seen_def mod_add_left_eq)

lemma length_seen [simp]: "length (seen rbs i n) = n"
  by (simp add: seen_def)

section \<open>The scan\<close>

definition valid_at :: "log \<Rightarrow> nat \<Rightarrow> bool" where
  "valid_at lg i \<longleftrightarrow> (\<exists>h img. holds_entry (lg_ringBuffer lg) i h img)"

definition buf_ok :: "u8 list option \<Rightarrow> bool" where
  "buf_ok buf \<longleftrightarrow> (case buf of None \<Rightarrow> True | Some b \<Rightarrow> 4096 \<le> length b)"

text \<open>What the caller's buffer holds after a scan that found the record at \<open>i\<close>.\<close>

definition buf_holds :: "log \<Rightarrow> nat \<Rightarrow> u8 list option \<Rightarrow> bool" where
  "buf_holds lg i buf \<longleftrightarrow>
     (case buf of None \<Rightarrow> True
      | Some b \<Rightarrow> \<exists>h img. holds_entry (lg_ringBuffer lg) i h img \<and> take (64 + length img) b = entry_bytes h img)"

lemma isEntryValid_cases:
  assumes "log_ok lg" and "buf_ok buf"
  shows "\<exists>lg' buf'. isEntryValid lg i buf = Inr (valid_at lg (unat i), lg', buf') \<and> buf_ok buf' \<and>
    lg_ringBuffer lg' = lg_ringBuffer lg \<and> (buf' = None \<longleftrightarrow> buf = None) \<and>
    (valid_at lg (unat i) \<longrightarrow> buf_holds lg (unat i) buf')"
proof -
  let ?b = "case buf of None \<Rightarrow> scratch_block | Some b \<Rightarrow> b"
  have len: "4096 \<le> length ?b" using assms(2) by (auto simp: buf_ok_def scratch_block_def split: option.splits)
  from getLog_cases [OF assms(1) len, of i] show ?thesis
  proof (elim disjE exE conjE)
    fix h img
    assume e: "holds_entry (lg_ringBuffer lg) (unat i) h img"
      "getLog lg i ?b = Inr (True, lg\<lparr>lg_debugHdr := h\<rparr>, entry_bytes h img @ drop (64 + length img) ?b)"
    then have "valid_at lg (unat i)" by (auto simp: valid_at_def)
    moreover have "64 + length img \<le> 4096" using e(1) by (simp add: holds_entry_def entry_ok_def)
    moreover have "buf_holds lg (unat i) (Some (entry_bytes h img @ drop (64 + length img) ?b))"
      unfolding buf_holds_def option.case using e(1) by (intro exI [of _ h] exI [of _ img]) simp
    moreover have "buf_holds lg (unat i) None" by (simp add: buf_holds_def)
    ultimately show ?thesis using e len by (cases buf) (auto simp: isEntryValid_def buf_ok_def)
  next
    fix lg' buf'
    assume e: "\<nexists>h img. holds_entry (lg_ringBuffer lg) (unat i) h img" "getLog lg i ?b = Inr (False, lg', buf')"
      "length buf' = length ?b"
    then have "\<not> valid_at lg (unat i)" by (auto simp: valid_at_def)
    then show ?thesis using e len getLog_ring [OF e(2)]
      by (cases buf) (auto simp: isEntryValid_def buf_ok_def)
  qed
qed

lemma compare_valid:
  assumes "log_ok lg"
  shows "\<exists>d. RingBuffer_compare (lg_ringBuffer lg) i (u32_bytes START_PATTERN) 4 = Inr d \<and>
    (valid_at lg (unat i) \<longrightarrow> d = 0)"
proof -
  let ?rb = "lg_ringBuffer lg"
  have "rb_wf ?rb" using assms by (simp add: log_ok_def)
  then have d: "RingBuffer_compare ?rb i (u32_bytes START_PATTERN) 4 =
      Inr (if circ (rb_buffer ?rb) (unat i) 4 = u32_bytes START_PATTERN then 0 else - 1)"
    using RingBuffer_compare_circ [of ?rb 4 "u32_bytes START_PATTERN" i] by simp
  have "circ (rb_buffer ?rb) (unat i) 4 = u32_bytes START_PATTERN" if v: "valid_at lg (unat i)"
  proof -
    obtain h img where e: "holds_entry ?rb (unat i) h img" using v by (auto simp: valid_at_def)
    then have "circ (rb_buffer ?rb) (unat i) 56 = header_bytes h" by (rule holds_entry_header)
    then have "take 4 (circ (rb_buffer ?rb) (unat i) 56) = u32_bytes START_PATTERN"
      using e by (simp add: header_bytes_def holds_entry_def entry_ok_def)
    then show ?thesis by (simp add: take_circ)
  qed
  then show ?thesis using d by auto
qed



lemma getNextHeader_loop_spec:
  assumes "log_ok lg" and "buf_ok buf" and "loop \<le> N" and "unat i + (N - loop) < 2 ^ 32"
    and "N = unat (rb_size (lg_ringBuffer lg))"
  shows "\<exists>lg' j buf'. getNextHeader_loop lg i buf loop = Inr (lg', j, buf') \<and> buf_ok buf' \<and>
    lg_ringBuffer lg' = lg_ringBuffer lg \<and> (buf' = None \<longleftrightarrow> buf = None) \<and>
    ((\<exists>k \<le> N - loop. valid_at lg (unat i + k) \<and> (\<forall>m < k. \<not> valid_at lg (unat i + m)) \<and> unat j = unat i + k \<and>
        lg_glideCount lg' = word_of_nat (loop + k) \<and> buf_holds lg (unat j) buf') \<or>
     ((\<forall>k \<le> N - loop. \<not> valid_at lg (unat i + k)) \<and> j = 0))"
  using assms
proof (induction "N - loop" arbitrary: lg i buf loop)
  case (0 loop lg i buf)
  then have loop: "loop = N" by simp
  obtain d where d: "RingBuffer_compare (lg_ringBuffer lg) i (u32_bytes START_PATTERN) 4 = Inr d"
      "valid_at lg (unat i) \<longrightarrow> d = 0" using compare_valid [OF 0(2)] by blast
  obtain lg1 buf1 where v: "isEntryValid lg i buf = Inr (valid_at lg (unat i), lg1, buf1)" "buf_ok buf1"
      "lg_ringBuffer lg1 = lg_ringBuffer lg" "buf1 = None \<longleftrightarrow> buf = None" "valid_at lg (unat i) \<longrightarrow> buf_holds lg (unat i) buf1"
    using isEntryValid_cases [OF 0(2,3)] by blast
  show ?case
    using d v loop 0 by (subst getNextHeader_loop.simps) auto
next
  case (Suc n loop lg i buf)
  obtain d where d: "RingBuffer_compare (lg_ringBuffer lg) i (u32_bytes START_PATTERN) 4 = Inr d"
      "valid_at lg (unat i) \<longrightarrow> d = 0" using compare_valid [OF Suc(3)] by blast
  obtain lg1 buf1 where v: "isEntryValid lg i buf = Inr (valid_at lg (unat i), lg1, buf1)" "buf_ok buf1"
      "lg_ringBuffer lg1 = lg_ringBuffer lg" "buf1 = None \<longleftrightarrow> buf = None" "valid_at lg (unat i) \<longrightarrow> buf_holds lg (unat i) buf1"
    using isEntryValid_cases [OF Suc(3,4)] by blast
  show ?case
  proof (cases "valid_at lg (unat i)")
    case True
    then have "getNextHeader_loop lg i buf loop = Inr (lg1\<lparr>lg_glideCount := word_of_nat loop\<rparr>, i, buf1)"
      using d v by (subst getNextHeader_loop.simps) simp
    then show ?thesis using True v by (auto intro!: exI [of _ 0])
  next
    case False
    define lg2 where "lg2 = (if d \<noteq> 0 then lg else lg1)"
    define buf2 where "buf2 = (if d \<noteq> 0 then buf else buf1)"
    have step: "getNextHeader_loop lg i buf loop = getNextHeader_loop lg2 (i + 1) buf2 (loop + 1)"
    proof -
      have "\<not> unat (rb_size (lg_ringBuffer lg)) < loop + 1" using Suc.hyps(2) Suc.prems(5) by linarith
      then show ?thesis using d v False by (subst getNextHeader_loop.simps) (simp add: lg2_def buf2_def)
    qed
    have ring: "lg_ringBuffer lg2 = lg_ringBuffer lg" "buf_ok buf2" "buf2 = None \<longleftrightarrow> buf = None"
      using v Suc.prems(2) by (auto simp: lg2_def buf2_def)
    then have same: "log_ok lg2" "\<And>m. valid_at lg2 m = valid_at lg m" "\<And>m b. buf_holds lg2 m b = buf_holds lg m b"
      using Suc.prems(1) by (simp_all add: log_ok_def valid_at_def buf_holds_def cong: option.case_cong)
    have i: "unat (i + 1) = unat i + 1"
      using Suc.prems(4) Suc.hyps(2) by (simp add: unat_add_u32)
    have "\<exists>lg' j buf'. getNextHeader_loop lg2 (i + 1) buf2 (loop + 1) = Inr (lg', j, buf') \<and> buf_ok buf' \<and>
      lg_ringBuffer lg' = lg_ringBuffer lg2 \<and> (buf' = None \<longleftrightarrow> buf2 = None) \<and>
      ((\<exists>k \<le> N - (loop + 1). valid_at lg2 (unat (i + 1) + k) \<and> (\<forall>m < k. \<not> valid_at lg2 (unat (i + 1) + m)) \<and>
          unat j = unat (i + 1) + k \<and> lg_glideCount lg' = word_of_nat (loop + 1 + k) \<and> buf_holds lg2 (unat j) buf') \<or>
       ((\<forall>k \<le> N - (loop + 1). \<not> valid_at lg2 (unat (i + 1) + k)) \<and> j = 0))"
    proof (rule Suc.hyps(1))
      show "n = N - (loop + 1)" "loop + 1 \<le> N" using Suc.hyps(2) by simp_all
      show "unat (i + 1) + (N - (loop + 1)) < 2 ^ 32" using Suc.prems(4) Suc.hyps(2) i by simp
    qed (use same ring Suc.prems in simp_all)
    then obtain lg' j buf' where r: "getNextHeader_loop lg2 (i + 1) buf2 (loop + 1) = Inr (lg', j, buf')" "buf_ok buf'"
      "lg_ringBuffer lg' = lg_ringBuffer lg" "buf' = None \<longleftrightarrow> buf = None"
      "(\<exists>k \<le> N - (loop + 1). valid_at lg (unat i + Suc k) \<and> (\<forall>m < k. \<not> valid_at lg (unat i + Suc m)) \<and>
          unat j = unat i + Suc k \<and> lg_glideCount lg' = word_of_nat (loop + Suc k) \<and> buf_holds lg (unat j) buf') \<or>
       ((\<forall>k \<le> N - (loop + 1). \<not> valid_at lg (unat i + Suc k)) \<and> j = 0)"
      using ring same i by auto
    have least: "\<forall>m < Suc k. \<not> valid_at lg (unat i + m)" if "\<forall>m < k. \<not> valid_at lg (unat i + Suc m)" for k
      using that False by (auto simp: less_Suc_eq_0_disj)
    have none: "\<forall>k \<le> N - loop. \<not> valid_at lg (unat i + k)" if "\<forall>k \<le> N - (loop + 1). \<not> valid_at lg (unat i + Suc k)"
    proof (intro allI impI)
      fix k assume "k \<le> N - loop"
      then show "\<not> valid_at lg (unat i + k)" using that False Suc.hyps(2) by (cases k) auto
    qed
    from r(5) show ?thesis
    proof (elim disjE exE conjE)
      fix k
      assume "k \<le> N - (loop + 1)" "valid_at lg (unat i + Suc k)" "\<forall>m < k. \<not> valid_at lg (unat i + Suc m)"
        "unat j = unat i + Suc k" "lg_glideCount lg' = word_of_nat (loop + Suc k)" "buf_holds lg (unat j) buf'"
      moreover from this(1) have "Suc k \<le> N - loop" using Suc.hyps(2) by linarith
      ultimately have "\<exists>k \<le> N - loop. valid_at lg (unat i + k) \<and> (\<forall>m < k. \<not> valid_at lg (unat i + m)) \<and>
          unat j = unat i + k \<and> lg_glideCount lg' = word_of_nat (loop + k) \<and> buf_holds lg (unat j) buf'"
        using least [of k] by blast
      then show ?thesis using r(1-4) step by simp
    next
      assume "\<forall>k \<le> N - (loop + 1). \<not> valid_at lg (unat i + Suc k)" "j = 0"
      then show ?thesis using r(1-4) step none by auto
    qed
  qed
qed

section \<open>Differences of identifiers\<close>

lemma sint_diff_near:
  assumes "\<bar>int (unat (a :: u32)) - int (unat b)\<bar> < 2147483648"
  shows "sint (a - b) = int (unat a) - int (unat b)"
proof (cases "unat b \<le> unat a")
  case True
  then show ?thesis using assms by (simp add: sint_u32 unat_sub_u32 word_le_nat_alt of_nat_diff del: of_nat_unat)
next
  case False
  then have "int (unat a + 4294967296 - unat b) = 4294967296 + int (unat a) - int (unat b)"
    using unat_u32_bound [of b] by linarith
  then show ?thesis using assms False by (simp add: sint_u32 unat_sub_u32 word_le_nat_alt del: of_nat_unat)
qed

lemma sint_wrap_far:
  assumes "2147483648 \<le> unat b - unat (a :: u32)"
  shows "sint ((0xffffffff - b) + a) = 4294967295 - (int (unat b) - int (unat a))"
proof -
  have b: "unat b < 4294967296" by (rule unat_u32_bound)
  have "unat (0xffffffff - b) = 4294967295 - unat b" using b by (simp add: unat_sub_u32 word_le_nat_alt)
  then have "unat ((0xffffffff - b) + a) = 4294967295 - (unat b - unat a)"
    using b assms by (simp add: unat_add_u32)
  moreover have "int (4294967295 - (unat b - unat a)) = 4294967295 - (int (unat b) - int (unat a))"
    using b assms by linarith
  ultimately show ?thesis using assms by (simp add: sint_u32 del: of_nat_unat)
qed

section \<open>Properties\<close>

definition zero_header :: header where
  "zero_header = header_of (replicate 56 0)"

definition zero_log :: log where
  "zero_log = \<lparr>lg_marker = 0, lg_version = 0, lg_ringBuffer = zeroed_ring,
     lg_stream = PlainStream (Stream_new zero_stats), lg_redirectStd = False, lg_fileHandle = 0, lg_filename = [],
     lg_globalId = 0, lg_bufLastWrittenIndex = 0, lg_getStringCorruptedCount = 0, lg_glideCount = 0,
     lg_lostCollectCount = 0, lg_printFallCount = 0, lg_getNextHeaderFailCount = 0, lg_lastPrintedId = 0,
     lg_collectCount = 0, lg_freopenFailedCount = 0, lg_fwriteFailCount = 0, lg_fwriteEwouldblockCount = 0,
     lg_fwriteEintrCount = 0, lg_fwriteZeroCount = 0, lg_fwriteErrno = 0, lg_debugLastHeader = zero_header,
     lg_debugState1 = 0, lg_debugState2 = 0, lg_debugState3 = 0, lg_fullBufLenErr = 0, lg_hdrPatErr = 0,
     lg_hdrLenErr = 0, lg_hdrTailErr = 0, lg_debugIndex = 0, lg_debugTrailer = \<lparr>tr_id = 0, tr_pattern = 0\<rparr>,
     lg_debugHdr = zero_header, lg_stringFormat = \<lparr>sf_getStringCorruptedCount = 0\<rparr>\<rparr>"

text \<open>A log whose ring of 4096 bytes holds one record without arguments at position 10.\<close>

definition one_header :: header where
  "one_header = zero_header\<lparr>hd_pattern := START_PATTERN, hd_id := 7, hd_format := 1, hd_length := 64\<rparr>"

definition one_ring :: ringbuffer where
  "one_ring = (RingBuffer_new zeroed_ring 4096 True)
     \<lparr>rb_buffer := circ_put (replicate 4096 0) 10 (entry_bytes one_header []), rb_currentIndex := 74\<rparr>"

definition one_log :: log where
  "one_log = zero_log\<lparr>lg_ringBuffer := one_ring, lg_bufLastWrittenIndex := 74\<rparr>"

lemma one_log_ok: "log_ok one_log"
  by (simp add: log_ok_def one_log_def one_ring_def rb_ok_def rb_wf_def)

lemma one_log_holds: "holds_entry (lg_ringBuffer one_log) 10 one_header []"
  using circ_circ_put_same [of "entry_bytes one_header []" "replicate 4096 0" 10]
  by (simp add: holds_entry_def entry_ok_def one_log_def one_ring_def one_header_def)

text \<open>
  C6. \<^verbatim>\<open>getLog\<close> is exact: at any index it returns without leaving the ring or the caller's buffer, it accepts
  precisely when the ring holds a complete record there (start pattern, length between 64 and 4096, the
  trailer of the same id), and then hands over exactly that record's bytes.
\<close>

theorem getLog_exact:
  assumes "log_ok lg" and "4096 \<le> length buf"
  shows "\<exists>lg' buf'. getLog lg i buf = Inr ((\<exists>h img. holds_entry (lg_ringBuffer lg) (unat i) h img), lg', buf') \<and>
    lg_ringBuffer lg' = lg_ringBuffer lg \<and> length buf' = length buf \<and>
    (\<forall>h img. holds_entry (lg_ringBuffer lg) (unat i) h img \<longrightarrow>
       lg' = lg\<lparr>lg_debugHdr := h\<rparr> \<and> buf' = entry_bytes h img @ drop (64 + length img) buf)"
  using getLog_cases [OF assms, of i]
proof (elim disjE exE conjE)
  fix h img
  assume e: "holds_entry (lg_ringBuffer lg) (unat i) h img"
    "getLog lg i buf = Inr (True, lg\<lparr>lg_debugHdr := h\<rparr>, entry_bytes h img @ drop (64 + length img) buf)"
  have len: "64 + length img \<le> length buf" using e(1) assms(2) by (simp add: holds_entry_def entry_ok_def)
  have ex: "\<exists>h img. holds_entry (lg_ringBuffer lg) (unat i) h img" using e(1) by blast
  have only: "h' = h \<and> img' = img" if "holds_entry (lg_ringBuffer lg) (unat i) h' img'" for h' img'
    using holds_entry_unique [OF e(1) that] .
  show ?thesis
    by (intro exI [of _ "lg\<lparr>lg_debugHdr := h\<rparr>"] exI [of _ "entry_bytes h img @ drop (64 + length img) buf"] conjI)
      (use e(2) ex len in simp, simp, use len in simp, use only in blast)
next
  fix lg' buf'
  assume "\<nexists>h img. holds_entry (lg_ringBuffer lg) (unat i) h img" "getLog lg i buf = Inr (False, lg', buf')"
    "length buf' = length buf"
  then show ?thesis using getLog_ring by auto
qed

theorem getLog_exact_witness:
  "\<exists>lg' buf'. getLog one_log 10 (replicate 8192 0) = Inr (True, lg', buf') \<and> take 64 buf' = entry_bytes one_header []"
proof -
  have "\<exists>h img. holds_entry (lg_ringBuffer one_log) 10 h img" using one_log_holds by blast
  then show ?thesis
    using getLog_exact [OF one_log_ok, of "replicate 8192 0" 10] one_log_holds by fastforce
qed

text \<open>
  C7. What \<^verbatim>\<open>getLog\<close> guarantees while producers overwrite the ring during its copies, each byte being read at a moment
  of its own. It returns without leaving the ring or the caller's buffer, and accepts precisely when the bytes it
  happened to read form the image of a record whose header is the one read first: start pattern, length and
  id agree, and the trailer carries the id. It then hands over the bytes it read. The bytes between header and
  trailer are not covered by any check: a payload mixed from two records is accepted.
\<close>

theorem getLog_race:
  assumes "rb_wf (lg_ringBuffer lg)" and "4096 \<le> unat (rb_size (lg_ringBuffer lg))" and "4096 \<le> length buf"
    and "\<forall>k. rb_ok (before k) \<and> rb_size (before k) = rb_size (lg_ringBuffer lg)"
    and "\<forall>k. rb_ok (after k) \<and> rb_size (after k) = rb_size (lg_ringBuffer lg)"
  shows "\<exists>ok lg' buf'. getLog_between (RingBuffer_get_racing before) (RingBuffer_get_racing after) lg i buf = Inr (ok, lg', buf') \<and>
    length buf' = length buf \<and>
    (ok \<longleftrightarrow> (\<exists>h img. entry_ok h img \<and> seen before (unat i) 56 = header_bytes h \<and>
       seen after (unat i) (64 + length img) = entry_bytes h img)) \<and>
    (\<forall>h img. entry_ok h img \<and> seen before (unat i) 56 = header_bytes h \<and>
       seen after (unat i) (64 + length img) = entry_bytes h img \<longrightarrow>
       buf' = entry_bytes h img @ drop (64 + length img) buf)"
proof -
  let ?sz = "rb_size (lg_ringBuffer lg)" and ?x = "seen before (unat i) 56"
  let ?h = "header_of ?x"
  let ?c = "seen after (unat i) (unat (hd_length ?h))"
  have j: "unat (i mod ?sz) = unat i mod unat ?sz" by (simp add: unat_mod)
  have g1: "RingBuffer_get_racing before (i mod ?sz) n = Inr (seen before (unat i) (unat n))" if "unat n \<le> 4096" for n
    using RingBuffer_get_racing_seen [OF assms(4)] that assms(2,4) j seen_mod [of before ?sz "unat i" "unat n"] by simp
  have g2: "RingBuffer_get_racing after (i mod ?sz) n = Inr (seen after (unat i) (unat n))" if "unat n \<le> 4096" for n
    using RingBuffer_get_racing_seen [OF assms(5)] that assms(2,5) j seen_mod [of after ?sz "unat i" "unat n"] by simp
  have h: "header_bytes ?h = ?x" by (simp add: hdc.enc_dec)
  have only: "h = ?h" if "?x = header_bytes h" for h using that by simp
  have len: "64 + length img = unat (hd_length ?h)" if "entry_ok ?h img" for img using that by (simp add: entry_ok_def)
  have "(\<exists>img. entry_ok ?h img \<and> ?c = entry_bytes ?h img \<and>
           getLog_between (RingBuffer_get_racing before) (RingBuffer_get_racing after) lg i buf =
             Inr (True, lg\<lparr>lg_debugHdr := ?h\<rparr>, entry_bytes ?h img @ drop (64 + length img) buf)) \<or>
         ((\<forall>img. \<not> (entry_ok ?h img \<and> ?c = entry_bytes ?h img)) \<and>
          (\<exists>lg' buf'. getLog_between (RingBuffer_get_racing before) (RingBuffer_get_racing after) lg i buf = Inr (False, lg', buf') \<and>
             length buf' = length buf))"
    by (rule getLog_between_cases [OF assms(1,3) refl _ _ refl, where x = ?x]) (simp_all add: g1 g2 sizeof_Header_def)
  then show ?thesis
  proof (elim disjE exE conjE)
    fix img
    assume e: "entry_ok ?h img" "?c = entry_bytes ?h img"
      "getLog_between (RingBuffer_get_racing before) (RingBuffer_get_racing after) lg i buf =
        Inr (True, lg\<lparr>lg_debugHdr := ?h\<rparr>, entry_bytes ?h img @ drop (64 + length img) buf)"
    have l: "64 + length img \<le> length buf" using e(1) assms(3) by (simp add: entry_ok_def)
    have same: "entry_bytes h img' = entry_bytes ?h img \<and> length img' = length img"
      if "entry_ok h img'" "?x = header_bytes h" "seen after (unat i) (64 + length img') = entry_bytes h img'" for h img'
    proof -
      have "64 + length img' = unat (hd_length ?h)" using only [OF that(2)] len that(1) by blast
      then show ?thesis using that(3) e(2) len [OF e(1)] by simp
    qed
    have "\<exists>h img. entry_ok h img \<and> ?x = header_bytes h \<and> seen after (unat i) (64 + length img) = entry_bytes h img"
      using e(1,2) h len [OF e(1)] by (intro exI [of _ ?h] exI [of _ img]) simp
    moreover have "entry_bytes ?h img @ drop (64 + length img) buf = entry_bytes h img' @ drop (64 + length img') buf"
      if "entry_ok h img' \<and> ?x = header_bytes h \<and> seen after (unat i) (64 + length img') = entry_bytes h img'" for h img'
      using same [of h img'] that by simp
    moreover have "length (entry_bytes ?h img @ drop (64 + length img) buf) = length buf" using l by simp
    ultimately show ?thesis using e(3) by blast
  next
    fix lg' buf'
    assume n: "\<forall>img. \<not> (entry_ok ?h img \<and> ?c = entry_bytes ?h img)"
      "getLog_between (RingBuffer_get_racing before) (RingBuffer_get_racing after) lg i buf = Inr (False, lg', buf')" "length buf' = length buf"
    have "\<not> (entry_ok h img \<and> ?x = header_bytes h \<and> seen after (unat i) (64 + length img) = entry_bytes h img)" for h img
    proof
      assume a: "entry_ok h img \<and> ?x = header_bytes h \<and> seen after (unat i) (64 + length img) = entry_bytes h img"
      then have "h = ?h" using only by blast
      then show False using a n(1) len by metis
    qed
    then show ?thesis using n(2,3) by blast
  qed
qed

text \<open>Two records with two bytes of arguments each, written to the same place one after the other.\<close>

definition race_header :: "u32 \<Rightarrow> header" where
  "race_header i = one_header\<lparr>hd_id := i, hd_length := 66\<rparr>"

definition race_ring :: "u32 \<Rightarrow> u8 list \<Rightarrow> ringbuffer" where
  "race_ring i img = one_ring\<lparr>rb_buffer := circ_put (replicate 4096 0) 10 (entry_bytes (race_header i) img)\<rparr>"

lemma race_ring_ok: "rb_ok (race_ring i img)" "rb_size (race_ring i img) = 4096" "length (rb_buffer (race_ring i img)) = 4096"
  by (simp_all add: race_ring_def one_ring_def rb_ok_def rb_wf_def)

lemma race_ring_holds: "length img = 2 \<Longrightarrow> holds_entry (race_ring i img) 10 (race_header i) img"
  using circ_circ_put_same [of "entry_bytes (race_header i) img" "replicate 4096 0" 10]
  by (simp add: holds_entry_def entry_ok_def race_ring_def race_header_def one_header_def)

lemma race_ring_nth:
  assumes "length img = 2" and "k < 66"
  shows "rb_buffer (race_ring i img) ! (10 + k) = entry_bytes (race_header i) img ! k"
proof -
  have "circ (rb_buffer (race_ring i img)) 10 66 = entry_bytes (race_header i) img"
    using race_ring_holds [OF assms(1), of i] assms(1) by (simp add: holds_entry_def)
  then have "entry_bytes (race_header i) img ! k = circ (rb_buffer (race_ring i img)) 10 66 ! k" by simp
  also have "\<dots> = rb_buffer (race_ring i img) ! (10 + k)" using assms(2) race_ring_ok(3) [of i img] by (simp add: circ_def)
  finally show ?thesis by simp
qed

text \<open>The second byte of the arguments is read after the second record was written.\<close>

theorem getLog_race_witness:
  "holds_entry (race_ring 7 [1, 2]) 10 (race_header 7) [1, 2] \<and> holds_entry (race_ring 8 [3, 4]) 10 (race_header 8) [3, 4] \<and>
   (\<exists>lg' buf'. getLog_between (RingBuffer_get_racing (\<lambda>k. race_ring 7 [1, 2]))
        (RingBuffer_get_racing (\<lambda>k. if k = 57 then race_ring 8 [3, 4] else race_ring 7 [1, 2])) one_log 10 (replicate 8192 0) =
      Inr (True, lg', buf') \<and> take 66 buf' = entry_bytes (race_header 7) [1, 4])"
proof -
  let ?before = "\<lambda>k :: nat. race_ring 7 [1, 2]" and ?after = "\<lambda>k. if k = 57 then race_ring 8 [3, 4] else race_ring 7 [1, 2]"
  let ?h = "race_header 7"
  have sz: "rb_size (lg_ringBuffer one_log) = 4096" "rb_wf (lg_ringBuffer one_log)"
    using one_log_ok by (simp_all add: one_log_def one_ring_def log_ok_def rb_ok_def)
  have ok: "entry_ok ?h [1, 4]" by (simp add: entry_ok_def race_header_def one_header_def)
  have hdr: "entry_bytes ?h img ! k = header_bytes ?h ! k" if "k < 56" for img k
    using that by (simp add: entry_bytes_def nth_append)
  have before: "seen ?before 10 56 = header_bytes ?h"
    by (rule nth_equalityI) (simp_all add: seen_def race_ring_ok race_ring_nth hdr)
  have same: "entry_bytes ?h [1, 2] ! k = entry_bytes ?h [1, 4] ! k" if "k \<noteq> 57" for k
    using that by (cases "k < 56"; cases "k = 56") (simp_all add: entry_bytes_def nth_append nth_Cons')
  have "entry_bytes (race_header 8) [3, 4] ! 57 = entry_bytes ?h [1, 4] ! 57" by (simp add: entry_bytes_def nth_append)
  then have late: "rb_buffer (race_ring 8 [3, 4]) ! 67 = entry_bytes ?h [1, 4] ! 57"
    using race_ring_nth [of "[3, 4]" 57 8] by simp
  have after: "seen ?after 10 (64 + length [1, 4 :: u8]) = entry_bytes ?h [1, 4]"
    by (rule nth_equalityI) (auto simp: seen_def race_ring_ok race_ring_nth same late)
  have hyps: "4096 \<le> unat (rb_size (lg_ringBuffer one_log))" "4096 \<le> length (replicate 8192 (0 :: u8))"
    "\<forall>k. rb_ok (?before k) \<and> rb_size (?before k) = rb_size (lg_ringBuffer one_log)"
    "\<forall>k. rb_ok (?after k) \<and> rb_size (?after k) = rb_size (lg_ringBuffer one_log)"
    using sz(1) by (simp_all add: race_ring_ok)
  obtain okk lg' buf' where r: "getLog_between (RingBuffer_get_racing ?before) (RingBuffer_get_racing ?after) one_log 10 (replicate 8192 0) =
        Inr (okk, lg', buf')"
      "okk \<longleftrightarrow> (\<exists>h img. entry_ok h img \<and> seen ?before (unat (10 :: u32)) 56 = header_bytes h \<and>
         seen ?after (unat (10 :: u32)) (64 + length img) = entry_bytes h img)"
      "\<forall>h img. entry_ok h img \<and> seen ?before (unat (10 :: u32)) 56 = header_bytes h \<and>
         seen ?after (unat (10 :: u32)) (64 + length img) = entry_bytes h img \<longrightarrow>
         buf' = entry_bytes h img @ drop (64 + length img) (replicate 8192 0)"
    using getLog_race [OF sz(2) hyps, of 10] by blast
  have i: "unat (10 :: u32) = 10" by simp
  have okk and "buf' = entry_bytes ?h [1, 4] @ drop (64 + length [1, 4 :: u8]) (replicate 8192 0)"
    using r(2,3) ok before after unfolding i by blast+
  then show ?thesis using r(1) race_ring_holds by simp
qed

text \<open>
  C13. \<^verbatim>\<open>getNextHeader\<close> finds the first valid record: from an index below the ring size it returns, after at most
  one round, the first position at or after it where the ring holds a complete record, with that record in
  the caller's buffer; with no such position it returns 0. It always ends.
\<close>

theorem getNextHeader_first:
  assumes "log_ok lg" and "buf_ok buf" and "unat i < unat (rb_size (lg_ringBuffer lg))"
  shows "\<exists>lg' j buf'. getNextHeader lg i buf = Inr (lg', j, buf') \<and> lg_ringBuffer lg' = lg_ringBuffer lg \<and>
    ((\<exists>k \<le> unat (rb_size (lg_ringBuffer lg)). valid_at lg (unat i + k) \<and> (\<forall>m < k. \<not> valid_at lg (unat i + m)) \<and>
        unat j = unat i + k \<and> lg_glideCount lg' = word_of_nat k \<and> buf_holds lg (unat j) buf') \<or>
     ((\<forall>k \<le> unat (rb_size (lg_ringBuffer lg)). \<not> valid_at lg (unat i + k)) \<and> j = 0))"
proof -
  let ?N = "unat (rb_size (lg_ringBuffer lg))"
  have "?N \<le> 2 ^ 31" using assms(1) by (simp add: log_ok_def rb_ok_def)
  then have "unat i + (?N - 0) < 2 ^ 32" using assms(3) by simp
  from getNextHeader_loop_spec [OF assms(1,2) le0 this refl] show ?thesis by (auto simp: getNextHeader_def)
qed

theorem getNextHeader_first_witness:
  "\<exists>lg' j buf'. getNextHeader one_log 3 None = Inr (lg', j, buf') \<and> j \<noteq> 0"
proof -
  have v: "valid_at one_log (unat (3 :: u32) + 7)" using one_log_holds by (auto simp: valid_at_def)
  have size: "unat (rb_size (lg_ringBuffer one_log)) = 4096" by (simp add: one_log_def one_ring_def)
  obtain lg' j buf' where r: "getNextHeader one_log 3 None = Inr (lg', j, buf')"
      "(\<exists>k \<le> 4096. unat j = unat (3 :: u32) + k) \<or> (\<forall>k \<le> 4096. \<not> valid_at one_log (unat (3 :: u32) + k))"
    using getNextHeader_first [OF one_log_ok, of None 3] size by (auto simp: buf_ok_def)
  have "\<not> (\<forall>k \<le> 4096. \<not> valid_at one_log (unat (3 :: u32) + k))"
    using v by (intro notI) (drule spec [of _ 7], simp)
  then have "\<exists>k. unat j = unat (3 :: u32) + k" using r(2) by blast
  then have "j \<noteq> 0" by auto
  then show ?thesis using r(1) by blast
qed

text \<open>
  C35. \<^verbatim>\<open>cmpHeader\<close> in closed form. Ids less than \<open>2 ^ 31\<close> apart compare as numbers. Further apart, where the code
  means to detect that ids wrapped round, the result is \<open>2 ^ 32 - 1 - \<bar>d\<bar>\<close> whichever comes first: it is
  never negative, and it is 0 for the ids 0 and \<open>2 ^ 32 - 1\<close>, which are adjacent but not equal.
\<close>

theorem cmpHeader_closed_form:
  "cmpHeader e1 e2 =
     (let d = int (unat (hd_id e1)) - int (unat (hd_id e2)) in if \<bar>d\<bar> < 2 ^ 31 then d else 2 ^ 32 - 1 - \<bar>d\<bar>)"
proof -
  let ?a = "hd_id e1" and ?b = "hd_id e2"
  have lt: "x < y \<longleftrightarrow> unat x < unat y" for x y :: u32 by (simp add: word_less_nat_alt)
  have far: "y - x > 0x7FFFFFFF \<longleftrightarrow> 2147483648 \<le> unat y - unat x" if "x < y" for x y :: u32
    using that by (simp add: word_less_nat_alt unat_sub_u32 word_le_nat_alt) linarith
  consider (eq) "?a = ?b" | (lt_near) "unat ?a < unat ?b" "unat ?b - unat ?a < 2147483648"
    | (lt_far) "unat ?a < unat ?b" "2147483648 \<le> unat ?b - unat ?a"
    | (gt_near) "unat ?b < unat ?a" "unat ?a - unat ?b < 2147483648"
    | (gt_far) "unat ?b < unat ?a" "2147483648 \<le> unat ?a - unat ?b"
    by (metis linorder_neqE_nat not_le word_unat_eq_iff)
  then show ?thesis
  proof cases
    case eq
    then show ?thesis by (simp add: cmpHeader_def)
  next
    case lt_near
    then have "\<bar>int (unat ?a) - int (unat ?b)\<bar> < 2147483648" by linarith
    with lt_near show ?thesis using far [of ?a ?b] sint_diff_near [of ?a ?b] by (auto simp: cmpHeader_def Let_def lt simp del: of_nat_unat)
  next
    case lt_far
    then have "\<not> \<bar>int (unat ?a) - int (unat ?b)\<bar> < 2147483648" "\<bar>int (unat ?a) - int (unat ?b)\<bar> = int (unat ?b) - int (unat ?a)" by linarith+
    with lt_far show ?thesis using far [of ?a ?b] sint_wrap_far [where a = ?a and b = ?b] by (auto simp: cmpHeader_def Let_def lt simp del: of_nat_unat)
  next
    case gt_near
    then have "\<bar>int (unat ?a) - int (unat ?b)\<bar> < 2147483648" by linarith
    with gt_near show ?thesis using far [of ?b ?a] sint_diff_near [of ?a ?b] by (auto simp: cmpHeader_def Let_def lt simp del: of_nat_unat)
  next
    case gt_far
    then have "\<not> \<bar>int (unat ?a) - int (unat ?b)\<bar> < 2147483648" "\<bar>int (unat ?a) - int (unat ?b)\<bar> = int (unat ?a) - int (unat ?b)" by linarith+
    with gt_far show ?thesis using far [of ?b ?a] sint_wrap_far [where a = ?b and b = ?a] by (auto simp: cmpHeader_def Let_def lt simp del: of_nat_unat)
  qed
qed

end
