(* ===== verification/Log_Dump.thy ===== *)
theory Log_Dump
  imports Log_Read
begin

text \<open>
  Printing (log.cpp): \<^verbatim>\<open>getTime\<close>, \<^verbatim>\<open>printAtIndex\<close>, \<^verbatim>\<open>dumpRange\<close>, \<^verbatim>\<open>dump\<close> and \<^verbatim>\<open>dumpState\<close>. The ring is at rest during a
  dump. \<^verbatim>\<open>dumpRange\<close> may run forever, so it is a partial function: \<open>None\<close> is a run that does not end.
\<close>

section \<open>Results of loops that may not end\<close>

definition bindT :: "'a result option \<Rightarrow> ('a \<Rightarrow> 'b result option) \<Rightarrow> 'b result option" where
  "bindT r f = (case r of None \<Rightarrow> None | Some (Inl e) \<Rightarrow> Some (Inl e) | Some (Inr x) \<Rightarrow> f x)"

lemma bindT_simps [simp]:
  "bindT None f = None"
  "bindT (Some (Inl e)) f = Some (Inl e)"
  "bindT (Some (Inr x)) f = f x"
  by (simp_all add: bindT_def)

section \<open>The time stamp\<close>

definition c_strlen :: "u8 list \<Rightarrow> nat \<Rightarrow> nat result" where
  "c_strlen b off =
     (let n = length (takeWhile (\<lambda>c. c \<noteq> 0) (drop off b))
      in if off + n < length b then Inr n else Inl OutOfBounds)"

text \<open>
  \<open>strf sec\<close> is what localtime and strftime make of a time under the format \<^verbatim>\<open>"%Y %h %e %T"\<close>. strftime leaves the
  array alone here when the text does not fit.
\<close>

definition getTime :: "(u64 \<Rightarrow> string) \<Rightarrow> u64 \<Rightarrow> u64 \<Rightarrow> u8 list \<Rightarrow> nat \<Rightarrow> nat \<Rightarrow> (u8 list \<times> nat) result" where
  "getTime strf sec nsec b ts_buf ts_buf_size =
     bindE (if length (strf sec) < ts_buf_size then mem_write b ts_buf (bytes_of (strf sec) @ [0]) else Inr b) (\<lambda>b1.
     bindE (c_printf (\<lambda>p. None) ''.%9.9ld'' [CLong nsec]) (\<lambda>t.
     bindE (mem_write b1 (ts_buf + 20) (bytes_of t @ [0])) (\<lambda>b2.
     bindE (c_strlen b2 ts_buf) (\<lambda>n. Inr (b2, n)))))"

definition sprintf_at :: "u8 list \<Rightarrow> nat \<Rightarrow> string \<Rightarrow> (u8 list \<times> nat) result" where
  "sprintf_at b pos t = bindE (mem_write b pos (bytes_of t @ [0])) (\<lambda>b'. Inr (b', length t))"

text \<open>\<^verbatim>\<open>snprintf\<close> cuts the text to the size but returns its full length.\<close>

definition snprintf_at :: "u8 list \<Rightarrow> nat \<Rightarrow> nat \<Rightarrow> string \<Rightarrow> (u8 list \<times> nat) result" where
  "snprintf_at b pos n t = bindE (mem_write b pos (bytes_of (take (n - 1) t) @ [0])) (\<lambda>b'. Inr (b', length t))"

text \<open>
  The part of \<^verbatim>\<open>printAtIndex\<close> before the message: where the call was made, then the whole stamp, whose result is the
  new position of \<^verbatim>\<open>dst\<close>. \<^verbatim>\<open>char\<close> is signed.
\<close>

definition print_origin :: "cmem \<Rightarrow> header \<Rightarrow> u8 list \<Rightarrow> nat \<Rightarrow> (u8 list \<times> nat) result" where
  "print_origin M hdr dst pos =
     (let ident = CInt (hd_id hdr); tag = CInt (scast (hd_tag hdr));
          line = CInt (ucast (hd_lineNumber hdr)); len = CInt (ucast (hd_length hdr))
      in
      if hd_functionName hdr \<noteq> 0
      then bindE (c_printf M '':%u:%c:%s:%u] '' [ident, tag, CPtr (hd_functionName hdr), line]) (snprintf_at dst pos 4096)
      else if hd_lineNumber hdr \<noteq> 0
      then bindE (c_printf M '':%u:%c:%u] '' [ident, tag, line]) (sprintf_at dst pos)
      else if hd_tag hdr \<noteq> 0
      then bindE (c_printf M '':%u:%c] '' [ident, tag]) (sprintf_at dst pos)
      else bindE (c_printf M '':%u:%u] '' [ident, len]) (sprintf_at dst pos))"

definition print_stamp :: "cmem \<Rightarrow> (u64 \<Rightarrow> string) \<Rightarrow> header \<Rightarrow> u8 list \<Rightarrow> (u8 list \<times> nat) result" where
  "print_stamp M strf hdr dst =
     (if hd_tv_sec hdr \<noteq> 0
      then
        bindE (mem_write dst 0 [byte_of (CHR ''['')]) (\<lambda>dst1.
        bindE (getTime strf (hd_tv_sec hdr) (hd_tv_nsec hdr) dst1 1 4096) (\<lambda>(dst2, n).
        bindE (print_origin M hdr dst2 (1 + n)) (\<lambda>(dst3, m). Inr (dst3, 1 + n + m))))
      else Inr (dst, 0))"

section \<open>Printing one record\<close>

definition SPINS :: nat where
  "SPINS = 10"

text \<open>The loop that waits for the producer: \<open>n\<close> attempts are left. On a ring at rest every attempt sees the same.\<close>

fun print_spin :: "log \<Rightarrow> u32 \<Rightarrow> u8 list \<Rightarrow> bool \<Rightarrow> nat \<Rightarrow> (bool \<times> log \<times> u8 list) result" where
  "print_spin lg index hdr retry 0 = Inr (False, lg, hdr)"
| "print_spin lg index hdr retry (Suc n) =
     bindE (getLog lg index hdr) (\<lambda>(success, lg', hdr').
       if success \<or> \<not> retry then Inr (success, lg', hdr')
       else if n = 0 then Inr (False, lg', hdr')
       else print_spin lg' index hdr' retry n)"

record printed =
  pr_err :: int
  pr_log :: log
  pr_dst :: "u8 list"
  pr_next :: u32
  pr_header :: "header option"    \<comment> \<open>\<open>None\<close>: the caller passed a null pointer\<close>
  pr_length :: int

definition printAtIndex ::
  "cmem \<Rightarrow> (u64 \<Rightarrow> string) \<Rightarrow> log \<Rightarrow> u32 \<Rightarrow> u8 list \<Rightarrow> bool \<Rightarrow> header option \<Rightarrow> printed result" where
  "printAtIndex M strf lg index dst retry printed_header =
     bindE (mem_write dst 0 [0]) (\<lambda>dst0.
     bindE (print_spin lg index scratch_block retry SPINS) (\<lambda>(success, lg1, scratch).
       if \<not> success
       then Inr \<lparr>pr_err = - 1, pr_log = lg1\<lparr>lg_printFallCount := lg_printFallCount lg1 + 1\<rparr>, pr_dst = dst0,
                 pr_next = index, pr_header = printed_header, pr_length = 0\<rparr>
       else
         bindE (mem_read scratch 0 56) (\<lambda>hdr_bytes.
         let hdr = header_of hdr_bytes; hdrid = hd_id hdr;
             printed_header' = map_option (\<lambda>_. hdr) printed_header;
             lg2 = lg1\<lparr>lg_debugLastHeader := hdr\<rparr>
         in
         bindE (print_stamp M strf hdr dst0) (\<lambda>(dst1, timestampLength).
         bindE (deref_string M (hd_format hdr)) (\<lambda>s.
         bindE (decodeFromArgsBuffer (lg_stringFormat lg2) s scratch (Log_indexInc 0 sizeof_Header) dst1 timestampLength
                  (ucast (hd_length hdr) - sizeof_Trailer) 0) (\<lambda>(sf, ret, buf_index, dst2, decodeLength).
           Inr \<lparr>pr_err = 0, pr_log = lg2\<lparr>lg_stringFormat := sf, lg_lastPrintedId := hdrid\<rparr>, pr_dst = dst2,
                pr_next = LOG_MEM_ALIGN (Log_indexInc buf_index index + sizeof_Trailer),
                pr_header = printed_header', pr_length = decodeLength + int timestampLength\<rparr>))))))"

section \<open>Printing a range\<close>

record dumper =
  dp_i :: u32
  dp_log :: log
  dp_stream :: stream_obj
  dp_files :: files
  dp_buf :: "u8 list"       \<comment> \<open>\<^verbatim>\<open>traceBuffer\<close>\<close>
  dp_header :: header       \<comment> \<open>\<^verbatim>\<open>printedHeader\<close>\<close>

definition discard_text :: "log \<Rightarrow> header \<Rightarrow> u32 \<Rightarrow> header \<Rightarrow> string" where
  "discard_text lg hdr new_i prev =
     ''<<<< Logs are discarded. Index is realigned to id: '' @ u_text (hd_id hdr) @ '' lastid: '' @ u_text (lg_lastPrintedId lg) @
     '' pat: 0x'' @ digits_of 16 (unat (hd_pattern hdr)) @ '' lastwrittenidx: '' @ u_text (lg_bufLastWrittenIndex lg) @
     '' loc: '' @ u_text (hd_location hdr) @ '' new_i: '' @ u_text new_i @ '' prev_id: '' @ u_text (hd_id prev) @
     '' prev_loc: '' @ u_text (hd_location prev) @ '' fail: '' @ u_text (lg_getNextHeaderFailCount lg) @ '' >>>>>'' @ nl"

text \<open>The branch after a failed print: find the next header, report the loss.\<close>

definition dump_discard :: "dumper \<Rightarrow> (u32 \<times> dumper) result" where
  "dump_discard st =
     bindE (getNextHeader (dp_log st) (dp_i st) (Some (dp_buf st))) (\<lambda>(lg1, new_i, buf).
     let tb = (case buf of None \<Rightarrow> dp_buf st | Some b \<Rightarrow> b) in
     bindE (mem_read tb 0 56) (\<lambda>hdr_bytes.
     bindE (sprintf_at tb 0 (discard_text lg1 (header_of hdr_bytes) new_i (dp_header st))) (\<lambda>(tb1, traceBufferLen).
     bindE (stream_write (dp_stream st) (dp_files st) tb1 (word_of_nat traceBufferLen)) (\<lambda>(x, fs).
       Inr (new_i, st\<lparr>dp_log := lg1, dp_stream := x, dp_files := fs, dp_buf := tb1\<rparr>)))))"

text \<open>One round of the loop; \<open>True\<close> leaves it.\<close>

definition dump_step :: "cmem \<Rightarrow> (u64 \<Rightarrow> string) \<Rightarrow> u32 \<Rightarrow> bool \<Rightarrow> bool \<Rightarrow> dumper \<Rightarrow> (bool \<times> dumper) result" where
  "dump_step M strf end continueOnFailure retry st =
     bindE (printAtIndex M strf (dp_log st) (dp_i st) (dp_buf st) retry (Some (dp_header st))) (\<lambda>pr.
     let st1 = st\<lparr>dp_log := pr_log pr, dp_buf := pr_dst pr,
                  dp_header := (case pr_header pr of None \<Rightarrow> dp_header st | Some h \<Rightarrow> h)\<rparr>
     in
     bindE (if pr_err pr \<noteq> 0 then dump_discard st1 else Inr (pr_next pr, st1)) (\<lambda>(new_i, st2).
       if pr_err pr \<noteq> 0 \<and> \<not> continueOnFailure then Inr (True, st2\<lparr>dp_i := new_i\<rparr>)
       else if new_i > end then Inr (True, st2)
       else if pr_err pr = 0
       then bindE (ensure (pr_length pr \<le> 4096) AssertFailed) (\<lambda>u.
            let st3 = st2\<lparr>dp_i := new_i, dp_log := (dp_log st2)\<lparr>lg_collectCount := lg_collectCount (dp_log st2) + 1\<rparr>\<rparr> in
            bindE (stream_write (dp_stream st3) (dp_files st3) (dp_buf st3) (word_of_int (pr_length pr))) (\<lambda>(x, fs).
              Inr (False, st3\<lparr>dp_stream := x, dp_files := fs\<rparr>)))
       else Inr (False, st2\<lparr>dp_i := new_i\<rparr>)))"

partial_function (option) dumpRange_loop ::
  "cmem \<Rightarrow> (u64 \<Rightarrow> string) \<Rightarrow> u32 \<Rightarrow> bool \<Rightarrow> bool \<Rightarrow> dumper \<Rightarrow> dumper result option" where
  "dumpRange_loop M strf end continueOnFailure retry st =
     (if \<not> dp_i st < end then Some (Inr st)
      else case dump_step M strf end continueOnFailure retry st of
        Inl e \<Rightarrow> Some (Inl e)
      | Inr (done, st') \<Rightarrow> if done then Some (Inr st') else dumpRange_loop M strf end continueOnFailure retry st')"

text \<open>\<open>stack\<close> is what \<^verbatim>\<open>traceBuffer\<close> holds on entry, a block of 8192 bytes. The result carries the index returned.\<close>

definition dumpRange ::
  "cmem \<Rightarrow> (u64 \<Rightarrow> string) \<Rightarrow> u8 list \<Rightarrow> log \<Rightarrow> stream_obj \<Rightarrow> files \<Rightarrow> u32 \<Rightarrow> u32 \<Rightarrow> bool \<Rightarrow>
   (log \<times> stream_obj \<times> files \<times> u32) result option" where
  "dumpRange M strf stack lg x fs start0 end0 continueOnFailure =
     (case bindE (RingBuffer_normalize (lg_ringBuffer lg) start0) (\<lambda>start.
           bindE (RingBuffer_normalize (lg_ringBuffer lg) end0) (\<lambda>e. Inr (start, e + 1))) of
        Inl f \<Rightarrow> Some (Inl f)
      | Inr (start, end1) \<Rightarrow>
          let end2 = (if start > end1 then rb_size (lg_ringBuffer lg) else end1);
              retry = (if continueOnFailure then False else True)
          in bindT (dumpRange_loop M strf end2 continueOnFailure retry
                      \<lparr>dp_i = start, dp_log = lg, dp_stream = x, dp_files = fs, dp_buf = stack,
                       dp_header = header_of (replicate 56 0)\<rparr>)
               (\<lambda>st. Some (Inr (dp_log st, dp_stream st, dp_files st, dp_i st))))"

section \<open>Dumping the state and the log\<close>

text \<open>The file name as \<open>%s\<close> prints it: up to the first zero byte, which is missing when the name fills the array.\<close>

definition filename_text :: "u8 list \<Rightarrow> string result" where
  "filename_text b = bindE (c_strlen b 0) (\<lambda>n. Inr (map char_of_byte (take n b)))"

definition state_lines :: "log \<Rightarrow> string \<Rightarrow> string list" where
  "state_lines lg name =
     [''Counters:'' @ nl,
      ''File name: '' @ name @ nl,
      ''Size: '' @ u_text (rb_size (lg_ringBuffer lg)) @ nl,
      ''Current Index: '' @ u_text (RingBuffer_getCurrentIndex (lg_ringBuffer lg)) @ nl,
      ''Global Id: '' @ u_text (lg_globalId lg) @ nl,
      ''Glide: '' @ u_text (lg_glideCount lg) @ nl,
      ''Collected trace: '' @ ld_text (lg_collectCount lg) @ nl,
      ''Fwrite fail: '' @ u_text (lg_fwriteFailCount lg) @ nl,
      ''Fwrite ewouldblock: '' @ u_text (lg_fwriteEwouldblockCount lg) @ nl,
      ''Fwrite eintr: '' @ u_text (lg_fwriteEintrCount lg) @ nl,
      ''Fwrite zero: '' @ u_text (lg_fwriteZeroCount lg) @ nl,
      ''Fwrite errno: '' @ d_text (lg_fwriteErrno lg) @ nl,
      ''Lost lines: '' @ ld_text (lg_lostCollectCount lg) @ nl,
      ''Index 32bit Wrap Around: '' @ u_text (RingBuffer_getStats (lg_ringBuffer lg)) @ nl,
      ''Print Fail: '' @ u_text (lg_printFallCount lg) @ nl,
      ''Header pattern mismatch count: '' @ u_text (lg_hdrPatErr lg) @ nl,
      ''hdr length mismatch count: '' @ u_text (lg_hdrLenErr lg) @ nl,
      ''Trailer pattern mismatch count: '' @ u_text (lg_hdrTailErr lg) @ nl,
      ''Buf length validation count: '' @ u_text (lg_fullBufLenErr lg) @ nl,
      ''Get next header fail: '' @ u_text (lg_getNextHeaderFailCount lg) @ nl,
      ''Get string corrupted: '' @ u_text (lg_getStringCorruptedCount lg) @ nl]"

text \<open>As in the source, the length of the buffer that is passed is not used.\<close>

definition Log_dumpState :: "log \<Rightarrow> u8 list \<Rightarrow> int \<Rightarrow> u8 list result" where
  "Log_dumpState lg buffer bufferLen =
     bindE (filename_text (getTraceFilename lg)) (\<lambda>name.
     bindE (sprintf_lines buffer 0 (state_lines lg name)) (\<lambda>(b, pos). Inr b))"

text \<open>\<^verbatim>\<open>stream->write(buf, strlen(buf))\<close>.\<close>

definition write_cstring :: "stream_obj \<Rightarrow> files \<Rightarrow> u8 list \<Rightarrow> (stream_obj \<times> files) result" where
  "write_cstring x fs buf = bindE (c_strlen buf 0) (\<lambda>n. stream_write x fs buf (word_of_nat n))"

text \<open>
  \<^verbatim>\<open>dump\<close>. A null \<open>stream\<close> is replaced by the static \<^verbatim>\<open>stdoutStream\<close>; \<open>buf0\<close> and \<open>stack\<close> are the initial
  contents of the local arrays \<^verbatim>\<open>buf[1000]\<close> and \<^verbatim>\<open>traceBuffer\<close>. The result is the log, the static stream, the
  stream written to and the files.
\<close>

definition Log_dump ::
  "cmem \<Rightarrow> (u64 \<Rightarrow> string) \<Rightarrow> stream_stats \<Rightarrow> u64 \<Rightarrow> u8 list \<Rightarrow> u8 list \<Rightarrow> log \<Rightarrow> stream_obj option \<Rightarrow> stream_obj option \<Rightarrow>
   files \<Rightarrow> bool \<Rightarrow> (log \<times> stream_obj option \<times> stream_obj \<times> files) result option" where
  "Log_dump M strf junk out buf0 stack lg stdoutStream stream fs detail =
     bindT (Some (case stream of
              Some x \<Rightarrow> Inr (x, fs)
            | None \<Rightarrow> bindE (Stream_getStdoutStream junk out stdoutStream fs) (\<lambda>(so, fs1).
                        case so of None \<Rightarrow> Inl NullDeref | Some x \<Rightarrow> Inr (x, fs1)))) (\<lambda>(x0, fs0).
     bindT (Some (bindE (firstLine lg) (\<lambda>(lg1, first).
                  bindE (RingBuffer_normalize (lg_ringBuffer lg1) first) (\<lambda>i.
                  bindE (RingBuffer_normalize (lg_ringBuffer lg1) (RingBuffer_getCurrentIndex (lg_ringBuffer lg1))) (\<lambda>e.
                  Inr (lg1, i, e)))))) (\<lambda>(lg1, i, e).
     bindT (Some (if detail
                  then bindE (sprintf_at buf0 0 (''Global id: '' @ d_text (lg_globalId lg1) @ '' First line: '' @ d_text i @
                                '' Last line: '' @ d_text e @ nl @ nl)) (\<lambda>(b, n). bindE (write_cstring x0 fs0 b) (\<lambda>(x, fs). Inr (b, x, fs)))
                  else Inr (buf0, x0, fs0))) (\<lambda>(buf1, x1, fs1).
     bindT (dumpRange M strf stack lg1 x1 fs1 i (e - 1) False) (\<lambda>(lg2, x2, fs2, i2).
     bindT (Some (if detail
                  then bindE (sprintf_at buf1 0 (''Next printed index: '' @ u_text i2 @ nl)) (\<lambda>(b, n).
                       bindE (write_cstring x2 fs2 b) (\<lambda>(x, fs).
                       bindE (Log_dumpState lg2 b 1000) (\<lambda>b2. write_cstring x fs b2)))
                  else Inr (x2, fs2))) (\<lambda>(x3, fs3).
     Some (bindE (stream_flush x3 fs3) (\<lambda>(x4, fs4, r).
       Inr (lg2, if stream = None then Some x4 else stdoutStream, x4, fs4))))))))"

end
