(* ===== verification/Log_Print.thy ===== *)
theory Log_Print
  imports Log_Dump String_Roundtrip
begin

text \<open>
  What printing does to a ring at rest that holds complete records: the line of one record, and what \<^verbatim>\<open>dumpRange\<close>
  writes for a range of records.
\<close>

section \<open>The time stamp\<close>

text \<open>The nanoseconds as \<^verbatim>\<open>getTime\<close> prints them.\<close>

definition nsec_spec :: printf_spec where
  "nsec_spec = \<lparr>pf_flags = '''', pf_width = 9, pf_prec = Some 9, pf_len = ''l'', pf_conv = CHR ''d''\<rparr>"

definition nsec_text :: "u64 \<Rightarrow> string" where
  "nsec_text nsec = CHR ''.'' # fmt_signed nsec_spec (sint nsec)"

lemma parse_nsec: "directive_length ''%9.9ld'' = 6" "parse_directive ''%9.9ld'' = nsec_spec"
  by (simp_all add: directive_length_def parse_directive_def nsec_spec_def isdigit_simps digits_val_def cchar_def)

lemma c_printf_nsec: "c_printf M ''.%9.9ld'' [CLong w] = Inr (nsec_text w)"
proof -
  have "c_printf M ''%9.9ld'' [CLong w] = Inr (fmt_signed nsec_spec (sint w))"
    by (subst c_printf.simps) (simp add: parse_nsec c_printf_simps c_format_def c_sprintf_def nsec_spec_def int_arg_def)
  then show ?thesis by (simp add: c_printf_simps nsec_text_def)
qed

lemma digits_of_no_NUL: "2 \<le> b \<Longrightarrow> b \<le> 16 \<Longrightarrow> NUL \<notin> set (digits_of b n)"
proof (induction b n rule: digits_of.induct)
  case (1 b n)
  have char: "d < 16 \<Longrightarrow> NUL \<noteq> digit_char d" for d
    unfolding digit_char_def by (auto simp: less_Suc_eq numeral_eq_Suc)
  show ?case
  proof (cases "b < 2 \<or> n < b")
    case True
    then show ?thesis using 1 char [of n] by (simp add: digits_of.simps [of b n])
  next
    case False
    then have "n mod b < 16" using 1 by (intro order.strict_trans2 [OF mod_less_divisor]) simp_all
    then show ?thesis using False 1 char by (simp add: digits_of.simps [of b n])
  qed
qed

lemma nsec_text_no_NUL: "NUL \<notin> set (nsec_text w)"
  using digits_of_no_NUL [of 10 "nat \<bar>sint w\<bar>"]
  by (auto simp: nsec_text_def fmt_signed_def nsec_spec_def pad_def sign_text_def int_digits_def Let_def)

text \<open>What \<^verbatim>\<open>strftime\<close> delivers for the format of \<^verbatim>\<open>getTime\<close>: 20 characters.\<close>

definition strf_ok :: "(u64 \<Rightarrow> string) \<Rightarrow> bool" where
  "strf_ok strf \<longleftrightarrow> (\<forall>t. length (strf t) = 20 \<and> NUL \<notin> set (strf t))"

definition stamp_tail :: "cmem \<Rightarrow> header \<Rightarrow> string result" where
  "stamp_tail M h =
     (let ident = CInt (hd_id h); tag = CInt (scast (hd_tag h)); line = CInt (ucast (hd_lineNumber h)) in
      if hd_functionName h \<noteq> 0 then c_printf M '':%u:%c:%s:%u] '' [ident, tag, CPtr (hd_functionName h), line]
      else if hd_lineNumber h \<noteq> 0 then c_printf M '':%u:%c:%u] '' [ident, tag, line]
      else if hd_tag h \<noteq> 0 then c_printf M '':%u:%c] '' [ident, tag]
      else c_printf M '':%u:%u] '' [ident, CInt (ucast (hd_length h))])"

definition stamp_text :: "cmem \<Rightarrow> (u64 \<Rightarrow> string) \<Rightarrow> header \<Rightarrow> string result" where
  "stamp_text M strf h =
     (if hd_tv_sec h = 0 then Inr ''''
      else bindE (stamp_tail M h) (\<lambda>u. Inr (''['' @ strf (hd_tv_sec h) @ nsec_text (hd_tv_nsec h) @ u)))"

lemma takeWhile_nonzero: "NUL \<notin> set s \<Longrightarrow> takeWhile (\<lambda>c. c \<noteq> 0) (bytes_of s @ 0 # r) = bytes_of s"
  by (induction s) auto

lemma getTime_spec:
  assumes "strf_ok strf" and "1 + 20 + length (nsec_text nsec) < length b" and "b1 = byte_of c # drop 1 b"
  shows "getTime strf sec nsec b1 1 4096 =
    Inr (bytes_of (c # strf sec @ nsec_text nsec) @ 0 # drop (22 + length (nsec_text nsec)) b, 20 + length (nsec_text nsec))"
proof -
  let ?s = "strf sec" and ?t = "nsec_text nsec"
  have s: "length ?s = 20" "NUL \<notin> set ?s" using assms(1) by (auto simp: strf_ok_def)
  have b1: "length b1 = length b" using assms by simp
  have w1: "mem_write b1 1 (bytes_of ?s @ [0]) = Inr (byte_of c # bytes_of ?s @ 0 # drop 22 b)"
    using assms s b1 by (simp add: take_Suc)
  let ?b2 = "byte_of c # bytes_of ?s @ bytes_of ?t @ 0 # drop (22 + length ?t) b"
  have "drop (length ?t + 22) (byte_of c # bytes_of ?s @ 0 # drop 22 b) = drop (length ?t) (drop 22 b)"
    using s drop_append [of "length ?t + 22" "byte_of c # bytes_of ?s @ [0]" "drop 22 b"] by simp
  then have w2: "mem_write (byte_of c # bytes_of ?s @ 0 # drop 22 b) (1 + 20) (bytes_of ?t @ [0]) = Inr ?b2"
    using assms s by (simp add: add.commute)
  have "takeWhile (\<lambda>c. c \<noteq> 0) (bytes_of ?s @ bytes_of ?t @ 0 # drop (22 + length ?t) b) = bytes_of (?s @ ?t)"
    using takeWhile_nonzero [of "?s @ ?t" "drop (22 + length ?t) b"] s nsec_text_no_NUL by simp
  then have "c_strlen ?b2 1 = Inr (20 + length ?t)" using s by (simp add: c_strlen_def Let_def)
  then show ?thesis using w1 w2 s by (simp add: getTime_def c_printf_nsec)
qed

lemma print_origin_spec:
  assumes "stamp_tail M h = Inr u" and "length u \<le> 4095" and "pos + length u < length b"
  shows "print_origin M h b pos = Inr (take pos b @ bytes_of u @ 0 # drop (Suc (pos + length u)) b, length u)"
  using assms unfolding print_origin_def stamp_tail_def Let_def
  by (cases "hd_functionName h = 0"; cases "hd_lineNumber h = 0"; cases "hd_tag h = 0")
    (simp_all add: sprintf_at_def snprintf_at_def)

lemma print_stamp_spec:
  assumes "strf_ok strf" and "stamp_text M strf h = Inr t" and "length t \<le> 4096" and "4096 < length dst"
  shows "\<exists>dst'. print_stamp M strf h dst = Inr (dst', length t) \<and> length dst' = length dst \<and> take (length t) dst' = bytes_of t"
proof (cases "hd_tv_sec h = 0")
  case True
  then show ?thesis using assms by (simp add: print_stamp_def stamp_text_def)
next
  case False
  then obtain u where u: "stamp_tail M h = Inr u" "t = ''['' @ strf (hd_tv_sec h) @ nsec_text (hd_tv_nsec h) @ u"
    using assms(2) by (auto simp: stamp_text_def bindE_eq_Inr_iff)
  let ?p = "CHR ''['' # strf (hd_tv_sec h) @ nsec_text (hd_tv_nsec h)"
  let ?b = "bytes_of ?p @ 0 # drop (22 + length (nsec_text (hd_tv_nsec h))) dst"
  have s: "length (strf (hd_tv_sec h)) = 20" using assms(1) by (simp add: strf_ok_def)
  have time: "getTime strf (hd_tv_sec h) (hd_tv_nsec h) (byte_of (CHR ''['') # drop 1 dst) 1 4096 = Inr (?b, length ?p - 1)"
    using getTime_spec [OF assms(1), of "hd_tv_nsec h" dst] u(2) s assms(3,4) by simp
  have b: "length ?b = length dst" using u(2) s assms(3,4) by simp
  have origin: "print_origin M h ?b (length ?p) = Inr (take (length ?p) ?b @ bytes_of u @ 0 # drop (Suc (length ?p + length u)) ?b, length u)"
    using print_origin_spec [OF u(1), of "length ?p" ?b] b u(2) s assms(3,4) by simp
  have put: "mem_write dst 0 [byte_of (CHR ''['')] = Inr (byte_of (CHR ''['') # drop 1 dst)" using assms(4) by simp
  have pos: "1 + (length ?p - 1) = length ?p" by simp
  have "print_stamp M strf h dst =
      Inr (take (length ?p) ?b @ bytes_of u @ 0 # drop (Suc (length ?p + length u)) ?b, length ?p + length u)"
    using False unfolding print_stamp_def put bindE_simps time prod.case pos origin by simp
  moreover have "length t = length ?p + length u" using u(2) by simp
  ultimately show ?thesis using u(2) b assms(3,4) by simp
qed

section \<open>Printing a record\<close>

text \<open>The record with header \<open>h\<close> and arguments \<open>img\<close> prints as \<open>line\<close>: the stamp, then what printf makes of format and arguments.\<close>

definition prints_as :: "cmem \<Rightarrow> (u64 \<Rightarrow> string) \<Rightarrow> header \<Rightarrow> u8 list \<Rightarrow> u8 list \<Rightarrow> bool" where
  "prints_as M strf h img line \<longleftrightarrow>
     (\<exists>fmt args t x. M (hd_format h) = Some fmt \<and> fmt_supported fmt \<and> c_printf M fmt args = Inr x \<and>
        img = arg_bytes M fmt args \<and> stamp_text M strf h = Inr t \<and> line = bytes_of (t @ x) \<and> length line \<le> 4096)"

lemma decode_record:
  assumes "entry_ok h img" and "cmem_ok M" and "M (hd_format h) = Some fmt" and "fmt_supported fmt"
    and "c_printf M fmt args = Inr x" and "img = arg_bytes M fmt args" and "pos + length x < length dst"
  shows "\<exists>dst'. decodeFromArgsBuffer sf fmt (entry_bytes h img @ r) 56 dst pos (ucast (hd_length h) - 8) 0 =
      Inr (sf, 0, word_of_nat (56 + length img), dst', int (length x)) \<and>
    length dst' = length dst \<and> take (pos + length x) dst' = take pos dst @ bytes_of x"
proof -
  let ?ab = "entry_bytes h img @ r" and ?st = "\<lparr>dc_index = 56, dc_out = dst, dc_pos = pos, dc_corrupted = sf_getStringCorruptedCount sf\<rparr>"
  have len: "unat (hd_length h) = 64 + length img" "64 + length img \<le> 4096" using assms(1) by (simp_all add: entry_ok_def)
  then have "(8 :: u32) \<le> ucast (hd_length h)" by (simp add: word_le_nat_alt)
  then have max: "unat (ucast (hd_length h) - 8 :: u32) = 56 + length img" using len by (simp add: unat_sub_u32)
  have held: "held ?ab 56 img" by (simp add: held_def entry_bytes_def)
  have "c_string fmt" using assms(2,3) by (auto simp: cmem_ok_def ran_def)
  then obtain st' where st': "decode_loop ?ab (ucast (hd_length h) - 8) fmt ?st = Inr (True, st')" "printed (length img) x ?st st'"
    using decode_supported [OF assms(4) _ assms(5,2), of ?ab ?st "ucast (hd_length h) - 8"] held max len assms(6,7) by auto
  obtain out where out: "st' = ?st\<lparr>dc_index := 56 + word_of_nat (length img), dc_out := out, dc_pos := pos + length x\<rparr>"
      "wrote dst pos (bytes_of x) out"
    using st'(2) by (auto simp: printed_def)
  have "length out = length dst" using out(2) by (simp add: wrote_def)
  then have w: "mem_write out (pos + length x) [0] = Inr (take (pos + length x) out @ 0 # drop (Suc (pos + length x)) out)"
    using assms(7) by simp
  have "decodeFromArgsBuffer sf fmt ?ab 56 dst pos (ucast (hd_length h) - 8) 0 =
      Inr (sf, 0, word_of_nat (56 + length img), take (pos + length x) out @ 0 # drop (Suc (pos + length x)) out, int (length x))"
    using st'(1) w unfolding decodeFromArgsBuffer_def out(1) by simp
  then show ?thesis using out(2) assms(7) by (auto simp: wrote_def)
qed

text \<open>A round of \<^verbatim>\<open>printAtIndex\<close> at a record of the ring.\<close>

definition after_print :: "log \<Rightarrow> header \<Rightarrow> log" where
  "after_print lg h = lg\<lparr>lg_debugHdr := h, lg_debugLastHeader := h, lg_lastPrintedId := hd_id h\<rparr>"

lemma getLog_held:
  assumes "log_ok lg" and "holds_entry (lg_ringBuffer lg) (unat i) h img" and "4096 \<le> length buf"
  shows "getLog lg i buf = Inr (True, lg\<lparr>lg_debugHdr := h\<rparr>, entry_bytes h img @ drop (64 + length img) buf)"
  using getLog_cases [OF assms(1,3), of i] holds_entry_unique [OF assms(2)] assms(2) by blast

lemma print_spin_success: "getLog lg i b = Inr (True, lg', b') \<Longrightarrow> print_spin lg i b retry SPINS = Inr (True, lg', b')"
  using print_spin.simps(2) [of lg i b retry 9] by (simp add: SPINS_def)

lemma printAtIndex_held:
  assumes "log_ok lg" and "cmem_ok M" and "strf_ok strf" and "length dst = 8192"
    and "holds_entry (lg_ringBuffer lg) (unat i) h img" and "prints_as M strf h img line"
  shows "\<exists>dst'. printAtIndex M strf lg i dst retry ph =
      Inr \<lparr>pr_err = 0, pr_log = after_print lg h, pr_dst = dst', pr_next = i + word_of_nat (64 + length img),
           pr_header = map_option (\<lambda>_. h) ph, pr_length = int (length line)\<rparr> \<and>
    length dst' = 8192 \<and> take (length line) dst' = line"
proof -
  obtain fmt args t x where p: "M (hd_format h) = Some fmt" "fmt_supported fmt" "c_printf M fmt args = Inr x"
      "img = arg_bytes M fmt args" "stamp_text M strf h = Inr t" "line = bytes_of (t @ x)" "length line \<le> 4096"
    using assms(6) unfolding prints_as_def by blast
  have ok: "entry_ok h img" using assms(5) by (simp add: holds_entry_def)
  let ?s = "entry_bytes h img @ drop (64 + length img) scratch_block"
  have spin: "print_spin lg i scratch_block retry SPINS = Inr (True, lg\<lparr>lg_debugHdr := h\<rparr>, ?s)"
    using print_spin_success [OF getLog_held [OF assms(1,5), of scratch_block]] by (simp add: scratch_block_def)
  have put: "mem_write dst 0 [0] = Inr (0 # drop 1 dst)" using assms(4) by simp
  obtain dst1 where dst1: "print_stamp M strf h (0 # drop 1 dst) = Inr (dst1, length t)" "length dst1 = 8192"
      "take (length t) dst1 = bytes_of t"
    using print_stamp_spec [OF assms(3) p(5), of "0 # drop 1 dst"] p(6,7) assms(4) by auto
  obtain dst2 where dst2: "decodeFromArgsBuffer (lg_stringFormat lg) fmt ?s 56 dst1 (length t) (ucast (hd_length h) - 8) 0 =
        Inr (lg_stringFormat lg, 0, word_of_nat (56 + length img), dst2, int (length x))"
      "length dst2 = 8192" "take (length t + length x) dst2 = bytes_of t @ bytes_of x"
    using decode_record [OF ok assms(2) p(1-4), of "length t" dst1] dst1(2,3) p(6,7) by force
  have hdr: "mem_read ?s 0 56 = Inr (header_bytes h)" by (simp add: entry_bytes_def)
  have next_index: "LOG_MEM_ALIGN (Log_indexInc (word_of_nat (56 + length img)) i + sizeof_Trailer) = i + word_of_nat (64 + length img)"
    by (simp add: LOG_MEM_ALIGN_def Log_indexInc_def sizeof_Trailer_def)
  have "printAtIndex M strf lg i dst retry ph =
      Inr \<lparr>pr_err = 0, pr_log = after_print lg h, pr_dst = dst2, pr_next = i + word_of_nat (64 + length img),
           pr_header = map_option (\<lambda>_. h) ph, pr_length = int (length line)\<rparr>"
    using p(1,6) dst1(1) dst2(1) unfolding printAtIndex_def put spin bindE_simps prod.case hdr next_index [symmetric]
    by (simp add: deref_string_def after_print_def Log_indexInc_def sizeof_Header_def sizeof_Trailer_def)
  then show ?thesis using dst2(2,3) p(6) by auto
qed

section \<open>Printing a range of records\<close>

text \<open>Text that has gone to a stream.\<close>

definition appended :: "stream_obj \<Rightarrow> files \<Rightarrow> u8 list \<Rightarrow> stream_obj \<Rightarrow> files \<Rightarrow> bool" where
  "appended x fs text x' fs' \<longleftrightarrow>
     stream_ok x' fs' \<and> stream_contents x' fs' = stream_contents x fs @ text \<and>
     stream_room x' fs' + length text = stream_room x fs \<and> stream_chunk x' = stream_chunk x \<and>
     obj_fileHandle x' = obj_fileHandle x \<and> (\<forall>p. p \<noteq> obj_fileHandle x \<longrightarrow> fs' p = fs p)"

lemma appended_refl: "stream_ok x fs \<Longrightarrow> appended x fs [] x fs"
  by (simp add: appended_def)

lemma appended_trans: "appended x fs s x1 fs1 \<Longrightarrow> appended x1 fs1 t x2 fs2 \<Longrightarrow> appended x fs (s @ t) x2 fs2"
  by (simp add: appended_def)

lemma stream_write_appended:
  assumes "stream_ok x fs" and "unat n \<le> length xs" and "unat n \<le> stream_chunk x" and "unat n \<le> stream_room x fs"
  shows "\<exists>x' fs'. stream_write x fs xs n = Inr (x', fs') \<and> appended x fs (take (unat n) xs) x' fs'"
  using sink.put_law [OF assms] assms(2,4) by (fastforce simp: appended_def)

text \<open>Consecutive records from position \<open>p\<close> on.\<close>

fun records_at :: "ringbuffer \<Rightarrow> nat \<Rightarrow> (header \<times> u8 list) list \<Rightarrow> bool" where
  "records_at rb p [] = True"
| "records_at rb p ((h, img) # rs) = (holds_entry rb p h img \<and> records_at rb (p + (64 + length img)) rs)"

definition records_size :: "(header \<times> u8 list) list \<Rightarrow> nat" where
  "records_size rs = sum_list (map (\<lambda>(h, img). 64 + length img) rs)"

lemma records_size_simps [simp]:
  "records_size [] = 0"
  "records_size ((h, img) # rs) = 64 + length img + records_size rs"
  "records_size (rs @ rs') = records_size rs + records_size rs'"
  by (simp_all add: records_size_def)

lemma records_at_append: "records_at rb p (rs @ rs') \<longleftrightarrow> records_at rb p rs \<and> records_at rb (p + records_size rs) rs'"
  by (induction rb p rs rule: records_at.induct) (auto simp: add.assoc)

text \<open>The log after \<open>k\<close> records were printed.\<close>

definition after_dump :: "log \<Rightarrow> nat \<Rightarrow> log \<Rightarrow> bool" where
  "after_dump lg k lg' \<longleftrightarrow>
     (\<exists>a b c. lg' = lg\<lparr>lg_debugHdr := a, lg_debugLastHeader := b, lg_lastPrintedId := c,
                       lg_collectCount := lg_collectCount lg + word_of_nat k\<rparr>)"

lemma after_dump_refl: "after_dump lg 0 lg"
  unfolding after_dump_def by (intro exI [of _ "lg_debugHdr lg"] exI [of _ "lg_debugLastHeader lg"] exI [of _ "lg_lastPrintedId lg"]) simp

lemma after_dump_Suc: "after_dump ((after_print lg h)\<lparr>lg_collectCount := lg_collectCount lg + 1\<rparr>) k lg' \<Longrightarrow> after_dump lg (Suc k) lg'"
  unfolding after_dump_def by (elim exE, intro exI) (simp add: after_print_def add.assoc)

lemma after_dump_fields:
  assumes "after_dump lg k lg'"
  shows "lg_ringBuffer lg' = lg_ringBuffer lg" and "lg_globalId lg' = lg_globalId lg"
    and "lg_bufLastWrittenIndex lg' = lg_bufLastWrittenIndex lg" and "log_ok lg' = log_ok lg"
    and "lg_collectCount lg' = lg_collectCount lg + word_of_nat k"
  using assms by (auto simp: after_dump_def log_ok_def)

text \<open>The loop of \<^verbatim>\<open>dumpRange\<close> has printed \<open>rs\<close> as \<open>text\<close>.\<close>

definition dumped :: "(header \<times> u8 list) list \<Rightarrow> u8 list \<Rightarrow> dumper \<Rightarrow> dumper \<Rightarrow> bool" where
  "dumped rs text st st' \<longleftrightarrow>
     dp_i st' = dp_i st + word_of_nat (records_size rs) \<and> after_dump (dp_log st) (length rs) (dp_log st') \<and>
     appended (dp_stream st) (dp_files st) text (dp_stream st') (dp_files st') \<and> length (dp_buf st') = 8192"

lemma unat_add_word_of_nat:
  assumes "unat (i :: u32) + k \<le> unat (e :: u32)"
  shows "unat (i + word_of_nat k) = unat i + k"
proof -
  have k: "unat i + k < 4294967296" using assms unat_u32_bound [of e] by linarith
  then have "unat (word_of_nat k :: u32) = k" by (simp add: unat_of_nat)
  then show ?thesis using k by (simp add: unat_add_u32)
qed

lemma dump_step_held:
  assumes "log_ok (dp_log st)" and "cmem_ok M" and "strf_ok strf" and "length (dp_buf st) = 8192"
    and "stream_ok (dp_stream st) (dp_files st)" and "4096 \<le> stream_chunk (dp_stream st)"
    and "length line \<le> stream_room (dp_stream st) (dp_files st)"
    and "holds_entry (lg_ringBuffer (dp_log st)) (unat (dp_i st)) h img" and "prints_as M strf h img line"
    and "unat (dp_i st) + (64 + length img) \<le> unat e"
  shows "\<exists>st'. dump_step M strf e cof retry st = Inr (False, st') \<and>
    dp_i st' = dp_i st + word_of_nat (64 + length img) \<and>
    dp_log st' = (after_print (dp_log st) h)\<lparr>lg_collectCount := lg_collectCount (dp_log st) + 1\<rparr> \<and>
    appended (dp_stream st) (dp_files st) line (dp_stream st') (dp_files st') \<and> length (dp_buf st') = 8192"
proof -
  obtain dst' where p: "printAtIndex M strf (dp_log st) (dp_i st) (dp_buf st) retry (Some (dp_header st)) =
      Inr \<lparr>pr_err = 0, pr_log = after_print (dp_log st) h, pr_dst = dst', pr_next = dp_i st + word_of_nat (64 + length img),
           pr_header = Some h, pr_length = int (length line)\<rparr>" "length dst' = 8192" "take (length line) dst' = line"
    using printAtIndex_held [OF assms(1-4,8,9), of retry "Some (dp_header st)"] by auto
  have len: "length line \<le> 4096" using assms(9) by (auto simp: prints_as_def)
  then have n: "unat (word_of_int (int (length line)) :: u32) = length line" by (simp add: unat_of_nat)
  obtain x fs where w: "stream_write (dp_stream st) (dp_files st) dst' (word_of_int (int (length line))) = Inr (x, fs)"
      "appended (dp_stream st) (dp_files st) line x fs"
    using stream_write_appended [OF assms(5), of "word_of_int (int (length line))" dst'] n p len assms(6,7) by auto
  have "unat (dp_i st + word_of_nat (64 + length img)) = unat (dp_i st) + (64 + length img)"
    using unat_add_word_of_nat [OF assms(10)] .
  then have "\<not> dp_i st + word_of_nat (64 + length img) > e" using assms(10) by (simp add: word_less_nat_alt)
  then show ?thesis using p w len unfolding dump_step_def by (simp add: after_print_def)
qed

lemma dumped_Cons:
  assumes "dp_i st1 = dp_i st + word_of_nat (64 + length img)"
    and "dp_log st1 = (after_print (dp_log st) h)\<lparr>lg_collectCount := lg_collectCount (dp_log st) + 1\<rparr>"
    and "appended (dp_stream st) (dp_files st) line (dp_stream st1) (dp_files st1)" and "dumped rs text st1 st'"
  shows "dumped ((h, img) # rs) (line @ text) st st'"
  using assms after_dump_Suc [of "dp_log st" h "length rs" "dp_log st'"] appended_trans [OF assms(3)]
  by (simp add: dumped_def add.assoc)

lemma dumpRange_loop_records:
  assumes "log_ok (dp_log st)" and "cmem_ok M" and "strf_ok strf" and "length (dp_buf st) = 8192"
    and "stream_ok (dp_stream st) (dp_files st)" and "4096 \<le> stream_chunk (dp_stream st)"
    and "length (concat lines) \<le> stream_room (dp_stream st) (dp_files st)"
    and "records_at (lg_ringBuffer (dp_log st)) (unat (dp_i st)) rs"
    and "list_all2 (\<lambda>(h, img). prints_as M strf h img) rs lines"
    and "unat (dp_i st) + records_size rs \<le> unat e"
  shows "\<exists>st'. dumpRange_loop M strf e cof retry st = dumpRange_loop M strf e cof retry st' \<and> dumped rs (concat lines) st st'"
  using assms
proof (induction rs arbitrary: st lines)
  case Nil
  then show ?case by (auto simp: dumped_def after_dump_refl appended_refl)
next
  case (Cons r rs)
  obtain h img line ls where r: "r = (h, img)" "lines = line # ls" "prints_as M strf h img line"
      "list_all2 (\<lambda>(h, img). prints_as M strf h img) rs ls"
    using Cons.prems(9) by (cases r) (auto simp: list_all2_Cons1)
  have held: "holds_entry (lg_ringBuffer (dp_log st)) (unat (dp_i st)) h img"
    "records_at (lg_ringBuffer (dp_log st)) (unat (dp_i st) + (64 + length img)) rs"
    using Cons.prems(8) r(1) by simp_all
  have fits: "unat (dp_i st) + (64 + length img) \<le> unat e" "length line \<le> stream_room (dp_stream st) (dp_files st)"
    using Cons.prems(7,10) r(1,2) by simp_all
  obtain st1 where st1: "dump_step M strf e cof retry st = Inr (False, st1)"
      "dp_i st1 = dp_i st + word_of_nat (64 + length img)"
      "dp_log st1 = (after_print (dp_log st) h)\<lparr>lg_collectCount := lg_collectCount (dp_log st) + 1\<rparr>"
      "appended (dp_stream st) (dp_files st) line (dp_stream st1) (dp_files st1)" "length (dp_buf st1) = 8192"
    using dump_step_held [OF Cons.prems(1-6) fits(2) held(1) r(3) fits(1)] by blast
  have i: "unat (dp_i st1) = unat (dp_i st) + (64 + length img)"
    using unat_add_word_of_nat [OF fits(1)] st1(2) by simp
  have "dp_i st < e" using fits(1) by (simp add: word_less_nat_alt)
  then have loop: "dumpRange_loop M strf e cof retry st = dumpRange_loop M strf e cof retry st1"
    using st1(1) by (subst dumpRange_loop.simps) simp
  have "log_ok (dp_log st1)" "lg_ringBuffer (dp_log st1) = lg_ringBuffer (dp_log st)"
    using Cons.prems(1) st1(3) by (simp_all add: log_ok_def after_print_def)
  moreover have "stream_ok (dp_stream st1) (dp_files st1)" "4096 \<le> stream_chunk (dp_stream st1)"
    "length (concat ls) \<le> stream_room (dp_stream st1) (dp_files st1)"
    using st1(4) Cons.prems(6,7) r(2) by (auto simp: appended_def)
  ultimately obtain st' where "dumpRange_loop M strf e cof retry st1 = dumpRange_loop M strf e cof retry st'"
      "dumped rs (concat ls) st1 st'"
    using Cons.IH [of st1 ls] Cons.prems(2,3,10) st1(5) r(1,4) held(2) i by (auto simp: add.assoc)
  then show ?case using loop dumped_Cons [OF st1(2-4)] r(1,2) by auto
qed

section \<open>dumpRange\<close>

text \<open>What every caller of the dump has to provide: an intact log, strings, a stream that takes lines of 4096 bytes.\<close>

definition dump_ready :: "cmem \<Rightarrow> (u64 \<Rightarrow> string) \<Rightarrow> log \<Rightarrow> stream_obj \<Rightarrow> files \<Rightarrow> nat \<Rightarrow> bool" where
  "dump_ready M strf lg x fs n \<longleftrightarrow>
     log_ok lg \<and> cmem_ok M \<and> strf_ok strf \<and> stream_ok x fs \<and> 4096 \<le> stream_chunk x \<and> n \<le> stream_room x fs"

lemma dump_ready_after:
  "dump_ready M strf lg x fs (length text + n) \<Longrightarrow> log_ok lg' \<Longrightarrow> appended x fs text x' fs' \<Longrightarrow> dump_ready M strf lg' x' fs' n"
  by (auto simp: dump_ready_def appended_def)

definition dump_start :: "u32 \<Rightarrow> log \<Rightarrow> stream_obj \<Rightarrow> files \<Rightarrow> u8 list \<Rightarrow> dumper" where
  "dump_start start lg x fs stack =
     \<lparr>dp_i = start, dp_log = lg, dp_stream = x, dp_files = fs, dp_buf = stack, dp_header = header_of (replicate 56 0)\<rparr>"

lemma dumpRange_eq:
  assumes "log_ok lg" and "N = unat (rb_size (lg_ringBuffer lg))" and "unat start0 mod N \<le> unat end0 mod N + 1"
  obtains start e where "unat start = unat start0 mod N" and "unat e = unat end0 mod N + 1"
    and "dumpRange M strf stack lg x fs start0 end0 cof =
      bindT (dumpRange_loop M strf e cof (\<not> cof) (dump_start start lg x fs stack))
        (\<lambda>st. Some (Inr (dp_log st, dp_stream st, dp_files st, dp_i st)))"
proof -
  let ?rb = "lg_ringBuffer lg"
  let ?start = "start0 mod rb_size ?rb" and ?e = "end0 mod rb_size ?rb + 1"
  have wf: "rb_wf ?rb" and N: "N \<le> 2147483648" "0 < N"
    using assms(1,2) by (simp_all add: log_ok_def rb_ok_def rb_wf_def)
  have start: "unat ?start = unat start0 mod N" using assms(2) by (simp add: unat_mod)
  have "unat end0 mod N < N" using N(2) by simp
  then have e: "unat ?e = unat end0 mod N + 1"
    using N(1) assms(2) by (simp add: unat_add_u32 unat_mod)
  have "\<not> ?start > ?e" using assms(3) start e by (simp add: word_less_nat_alt)
  then have "dumpRange M strf stack lg x fs start0 end0 cof =
      bindT (dumpRange_loop M strf ?e cof (\<not> cof) (dump_start ?start lg x fs stack))
        (\<lambda>st. Some (Inr (dp_log st, dp_stream st, dp_files st, dp_i st)))"
    using wf by (simp add: dumpRange_def dump_start_def Let_def)
  with start e show thesis by (rule that)
qed

lemma dumpRange_loop_records':
  assumes "dump_ready M strf lg x fs (length (concat lines))" and "length stack = 8192"
    and "records_at (lg_ringBuffer lg) (unat start) rs" and "list_all2 (\<lambda>(h, img). prints_as M strf h img) rs lines"
    and "unat start + records_size rs \<le> unat e"
  obtains st' where "dumpRange_loop M strf e cof retry (dump_start start lg x fs stack) = dumpRange_loop M strf e cof retry st'"
    and "dumped rs (concat lines) (dump_start start lg x fs stack) st'"
  using dumpRange_loop_records [of "dump_start start lg x fs stack" M strf lines rs e cof retry] assms
  by (auto simp: dump_start_def dump_ready_def)

lemma dumpRange_records:
  assumes "dump_ready M strf lg x fs (length (concat lines))" and "length stack = 8192"
    and "N = unat (rb_size (lg_ringBuffer lg))" and "unat start0 mod N + records_size rs = unat end0 mod N + 1"
    and "records_at (lg_ringBuffer lg) (unat start0 mod N) rs" and "list_all2 (\<lambda>(h, img). prints_as M strf h img) rs lines"
  shows "\<exists>lg' x' fs' e. dumpRange M strf stack lg x fs start0 end0 cof = Some (Inr (lg', x', fs', e)) \<and>
    unat e = unat end0 mod N + 1 \<and> after_dump lg (length rs) lg' \<and> appended x fs (concat lines) x' fs'"
proof -
  have ok: "log_ok lg" using assms(1) by (simp add: dump_ready_def)
  have le: "unat start0 mod N \<le> unat end0 mod N + 1" using assms(4) by linarith
  obtain start e where se: "unat start = unat start0 mod N" "unat e = unat end0 mod N + 1"
      "dumpRange M strf stack lg x fs start0 end0 cof =
        bindT (dumpRange_loop M strf e cof (\<not> cof) (dump_start start lg x fs stack))
          (\<lambda>st. Some (Inr (dp_log st, dp_stream st, dp_files st, dp_i st)))"
    by (rule dumpRange_eq [OF ok assms(3) le])
  have "records_at (lg_ringBuffer lg) (unat start) rs" "unat start + records_size rs \<le> unat e"
    using assms(4,5) se(1,2) by simp_all
  then obtain st' where st': "dumpRange_loop M strf e cof (\<not> cof) (dump_start start lg x fs stack) =
        dumpRange_loop M strf e cof (\<not> cof) st'" "dumped rs (concat lines) (dump_start start lg x fs stack) st'"
    using dumpRange_loop_records' [OF assms(1,2) _ assms(6)] by metis
  have "unat start + records_size rs = unat e" using assms(4) se(1,2) by simp
  then have "dp_i st' = e"
    using st'(2) unat_add_word_of_nat [of start "records_size rs" e]
    by (simp add: dumped_def dump_start_def word_unat_eq_iff)
  then have "dumpRange_loop M strf e cof (\<not> cof) st' = Some (Inr st')" by (subst dumpRange_loop.simps) simp
  then show ?thesis using st' se(2,3) \<open>dp_i st' = e\<close> by (simp add: dumped_def dump_start_def)
qed

end
