(* ===== verification/Log_Discard.thy ===== *)
theory Log_Discard
  imports Log_Print
begin

text \<open>
  Where \<^verbatim>\<open>dumpRange\<close> meets no complete record, or one that ends behind the range: the message about discarded
  logs, the realignment to the next record, the record that is silently dropped.
\<close>

section \<open>What reading leaves alone\<close>

definition lg_core :: "log \<Rightarrow> ringbuffer \<times> u32 \<times> u32 \<times> stringformat \<times> stream_obj \<times> u64 \<times> u64" where
  "lg_core lg = (lg_ringBuffer lg, lg_globalId lg, lg_bufLastWrittenIndex lg, lg_stringFormat lg, lg_stream lg,
                 lg_fileHandle lg, lg_collectCount lg)"

lemma lg_core_log_ok: "lg_core lg' = lg_core lg \<Longrightarrow> log_ok lg' = log_ok lg"
  by (simp add: lg_core_def log_ok_def)

lemma lg_core_ring: "lg_core lg' = lg_core lg \<Longrightarrow> lg_ringBuffer lg' = lg_ringBuffer lg"
  by (simp add: lg_core_def)

lemma getLog_fail_core [simp]: "lg_core (getLog_fail lg i a b c) = lg_core lg"
  by (simp add: getLog_fail_def lg_core_def)

lemma getLog_core:
  assumes "getLog lg i b = Inr (ok, lg', b')"
  shows "lg_core lg' = lg_core lg \<and> length b' = length b"
  using assms unfolding getLog_def getLog_between_def Let_def
  by (elim bindE_eq_InrE if_Inr_E)
    (clarsimp simp: lg_core_def getLog_fail_def dest!: mem_write_length simp del: mem_read_in mem_write_in)+

lemma isEntryValid_core:
  "isEntryValid lg i b = Inr (ok, lg', b') \<Longrightarrow> lg_core lg' = lg_core lg \<and> map_option length b' = map_option length b"
  by (auto simp: isEntryValid_def bindE_eq_Inr_iff dest: getLog_core split: option.splits)

lemma getNextHeader_loop_core:
  "getNextHeader_loop lg i b n = Inr (lg', j, b') \<Longrightarrow> lg_core lg' = lg_core lg \<and> map_option length b' = map_option length b"
proof (induction lg i b n arbitrary: lg' j b' rule: getNextHeader_loop.induct)
  case (1 lg index buf loop)
  obtain diff where d: "RingBuffer_compare (lg_ringBuffer lg) index (u32_bytes START_PATTERN) 4 = Inr diff"
    using 1(2) by (subst (asm) getNextHeader_loop.simps) (auto simp: bindE_eq_Inr_iff)
  obtain valid lg1 buf1 where v: "(if diff \<noteq> 0 then Inr (False, lg, buf) else isEntryValid lg index buf) = Inr (valid, lg1, buf1)"
    using 1(2) d by (subst (asm) getNextHeader_loop.simps) (auto simp: bindE_eq_Inr_iff)
  then have core: "lg_core lg1 = lg_core lg" "map_option length buf1 = map_option length buf"
    using isEntryValid_core [of lg index buf valid lg1 buf1] by (auto split: if_splits)
  have run: "getNextHeader_loop lg index buf loop =
      (if valid then Inr (lg1\<lparr>lg_glideCount := word_of_nat loop\<rparr>, index, buf1)
       else if loop + 1 > unat (rb_size (lg_ringBuffer lg))
       then Inr (lg1\<lparr>lg_getNextHeaderFailCount := lg_getNextHeaderFailCount lg1 + 1\<rparr>, 0, buf1)
       else getNextHeader_loop lg1 (index + 1) buf1 (loop + 1))"
    using d v by (subst getNextHeader_loop.simps) simp
  show ?case
  proof (cases "\<not> valid \<and> \<not> loop + 1 > unat (rb_size (lg_ringBuffer lg))")
    case True
    then show ?thesis using 1(1) [OF d v refl] 1(2) run core by auto
  next
    case False
    then show ?thesis using 1(2) run core by (auto simp: lg_core_def split: if_splits)
  qed
qed

lemma print_spin_fails:
  assumes "log_ok lg" and "4096 \<le> length b" and "\<nexists>h img. holds_entry (lg_ringBuffer lg) (unat i) h img"
  shows "\<exists>lg' b'. print_spin lg i b retry n = Inr (False, lg', b') \<and> lg_core lg' = lg_core lg"
  using assms
proof (induction n arbitrary: lg b)
  case 0
  then show ?case by simp
next
  case (Suc n)
  obtain lg1 b1 where g: "getLog lg i b = Inr (False, lg1, b1)" using getLog_cases [OF Suc.prems(1,2), of i] Suc.prems(3) by blast
  note core = getLog_core [OF g]
  have "\<exists>lg' b'. print_spin lg1 i b1 retry n = Inr (False, lg', b') \<and> lg_core lg' = lg_core lg1"
    using Suc.IH [of lg1 b1] Suc.prems core lg_core_log_ok [of lg1 lg] lg_core_ring [of lg1 lg] by simp
  then show ?case using g core by auto
qed

section \<open>The message\<close>

lemma digits_of_16_length: "n < 16 ^ k \<Longrightarrow> 0 < k \<Longrightarrow> length (digits_of 16 n) \<le> k"
proof (induction k arbitrary: n)
  case (Suc k)
  show ?case
  proof (cases "n < 16")
    case False
    then have "0 < k" using Suc.prems by (cases k) auto
    moreover have "n div 16 < 16 ^ k" using Suc.prems(1) by (simp add: less_mult_imp_div_less mult.commute)
    ultimately show ?thesis using Suc.IH False by (simp add: digits_of.simps [of 16 n])
  qed (simp add: digits_of.simps [of 16 n])
qed simp

definition discard_prefix :: string where
  "discard_prefix = ''<<<< Logs are discarded. Index is realigned to id: ''"

lemma discard_text_shape: "\<exists>msg. discard_text lg h i prev = discard_prefix @ u_text (hd_id h) @ msg \<and> length msg \<le> 240"
proof -
  have "length (digits_of 16 (unat (hd_pattern h))) \<le> 8"
    using digits_of_16_length [of _ 8] unat_u32_bound [of "hd_pattern h"] by simp
  then show ?thesis
    using u_text_length [of "lg_lastPrintedId lg"] u_text_length [of "lg_bufLastWrittenIndex lg"] u_text_length [of "hd_location h"]
      u_text_length [of i] u_text_length [of "hd_id prev"] u_text_length [of "hd_location prev"]
      u_text_length [of "lg_getNextHeaderFailCount lg"]
    by (simp add: discard_text_def discard_prefix_def)
qed

lemma discard_text_length: "length (discard_text lg h i prev) \<le> 512"
  using discard_text_shape [of lg h i prev] u_text_length [of "hd_id h"] by (auto simp: discard_prefix_def)

lemma printAtIndex_fails:
  assumes "log_ok lg" and "length dst = 8192" and "\<not> valid_at lg (unat i)"
  shows "\<exists>lg' dst'. printAtIndex M strf lg i dst retry ph =
      Inr \<lparr>pr_err = - 1, pr_log = lg', pr_dst = dst', pr_next = i, pr_header = ph, pr_length = 0\<rparr> \<and>
    lg_core lg' = lg_core lg \<and> length dst' = 8192"
proof -
  obtain lg1 b where s: "print_spin lg i scratch_block retry SPINS = Inr (False, lg1, b)" "lg_core lg1 = lg_core lg"
    using print_spin_fails [OF assms(1), of scratch_block i retry SPINS] assms(3)
    by (auto simp: valid_at_def scratch_block_def)
  then show ?thesis using assms(2) by (simp add: printAtIndex_def lg_core_def)
qed

text \<open>After a failed print: the message goes out, and the scan from \<open>i\<close> on decides where to go on.\<close>

lemma dump_discard_spec:
  assumes "log_ok (dp_log st)" and "length (dp_buf st) = 8192" and "stream_ok (dp_stream st) (dp_files st)"
    and "4096 \<le> stream_chunk (dp_stream st)" and "512 \<le> stream_room (dp_stream st) (dp_files st)"
    and "unat (dp_i st) < unat (rb_size (lg_ringBuffer (dp_log st)))"
  shows "\<exists>lg' j tb st' text. dump_discard st = Inr (j, st') \<and> dp_i st' = dp_i st \<and> lg_core (dp_log st') = lg_core (dp_log st) \<and>
    getNextHeader (dp_log st) (dp_i st) (Some (dp_buf st)) = Inr (lg', j, Some tb) \<and> length tb = 8192 \<and>
    text = discard_text lg' (header_of (take 56 tb)) j (dp_header st) \<and>
    appended (dp_stream st) (dp_files st) (bytes_of text) (dp_stream st') (dp_files st') \<and> length (dp_buf st') = 8192"
proof -
  let ?lg = "dp_log st" and ?N = "unat (rb_size (lg_ringBuffer (dp_log st)))"
  have N: "?N \<le> 2147483648" using assms(1) by (simp add: log_ok_def rb_ok_def)
  obtain lg' j b' where n: "getNextHeader ?lg (dp_i st) (Some (dp_buf st)) = Inr (lg', j, b')"
    using getNextHeader_loop_spec [of ?lg "Some (dp_buf st)" 0 ?N "dp_i st"] assms(1,2,6) N
    by (auto simp: getNextHeader_def buf_ok_def)
  have core: "lg_core lg' = lg_core ?lg" "map_option length b' = Some 8192"
    using getNextHeader_loop_core [of ?lg "dp_i st" "Some (dp_buf st)" 0 lg' j b'] n assms(2)
    by (simp_all add: getNextHeader_def)
  then obtain tb where tb: "b' = Some tb" "length tb = 8192" by auto
  let ?t = "discard_text lg' (header_of (take 56 tb)) j (dp_header st)"
  let ?tb = "bytes_of ?t @ [0] @ drop (length ?t + 1) tb"
  have len: "length ?t \<le> 512" by (rule discard_text_length)
  have s: "sprintf_at tb 0 ?t = Inr (?tb, length ?t)" using len tb(2) by (simp add: sprintf_at_def)
  have w: "unat (word_of_nat (length ?t) :: u32) = length ?t" using len by (simp add: unat_of_nat)
  then obtain x fs where x: "stream_write (dp_stream st) (dp_files st) ?tb (word_of_nat (length ?t)) = Inr (x, fs)"
      "appended (dp_stream st) (dp_files st) (bytes_of ?t) x fs"
    using stream_write_appended [OF assms(3), of "word_of_nat (length ?t)" ?tb] len assms(4,5) by auto
  have "length ?tb = 8192" using len tb(2) by simp
  then show ?thesis
    using n tb s x core(1) unfolding dump_discard_def by (simp del: bytes_of_append)
qed

section \<open>Realignment and the dropped record\<close>

lemma getNextHeader_found:
  assumes "log_ok lg" and "4096 \<le> length b" and "N = unat (rb_size (lg_ringBuffer lg))" and "unat i < N" and "k \<le> N"
    and "holds_entry (lg_ringBuffer lg) (unat i + k) h img" and "\<forall>m < k. \<not> valid_at lg (unat i + m)"
    and "getNextHeader lg i (Some b) = Inr (lg', j, Some tb)"
  shows "unat j = unat i + k \<and> take 56 tb = header_bytes h"
proof -
  have N: "N \<le> 2147483648" using assms(1,3) by (simp add: log_ok_def rb_ok_def)
  have v: "valid_at lg (unat i + k)" using assms(6) by (auto simp: valid_at_def)
  obtain k' where k': "valid_at lg (unat i + k')" "\<forall>m < k'. \<not> valid_at lg (unat i + m)" "unat j = unat i + k'"
      "buf_holds lg (unat j) (Some tb)"
  proof -
    have "buf_ok (Some b)" "unat i + (N - 0) < 2 ^ 32" using assms(2,4) N by (simp_all add: buf_ok_def)
    then obtain k' where "valid_at lg (unat i + k')" "\<forall>m < k'. \<not> valid_at lg (unat i + m)" "unat j = unat i + k'"
        "buf_holds lg (unat j) (Some tb)"
      using getNextHeader_loop_spec [OF assms(1) _ le0 _ assms(3), of "Some b" i] assms(5,8) v
      unfolding getNextHeader_def by force
    then show thesis by (rule that)
  qed
  have "\<not> k < k'" "\<not> k' < k" using k'(1,2) v assms(7) by blast+
  then have "k' = k" by simp
  moreover obtain h' img' where e: "holds_entry (lg_ringBuffer lg) (unat j) h' img'" "take (64 + length img') tb = entry_bytes h' img'"
    using k'(4) by (auto simp: buf_holds_def)
  ultimately have "h' = h" using holds_entry_unique assms(6) k'(3) by metis
  moreover have "take 56 tb = take 56 (take (64 + length img') tb)" by (simp add: min_def)
  then have "take 56 tb = header_bytes h'" using e(2) by (simp add: entry_bytes_def)
  ultimately show ?thesis using k'(3) \<open>k' = k\<close> by simp
qed

lemma dump_step_realign:
  assumes "log_ok (dp_log st)" and "length (dp_buf st) = 8192" and "stream_ok (dp_stream st) (dp_files st)"
    and "4096 \<le> stream_chunk (dp_stream st)" and "512 \<le> stream_room (dp_stream st) (dp_files st)"
    and "unat (dp_i st) < unat (rb_size (lg_ringBuffer (dp_log st)))" and "unat (dp_i st) + k \<le> unat e"
    and "unat e \<le> unat (rb_size (lg_ringBuffer (dp_log st)))" and "0 < k"
    and "holds_entry (lg_ringBuffer (dp_log st)) (unat (dp_i st) + k) h img" and "\<forall>m < k. \<not> valid_at (dp_log st) (unat (dp_i st) + m)"
  shows "\<exists>st' msg. dump_step M strf e True retry st = Inr (False, st') \<and> unat (dp_i st') = unat (dp_i st) + k \<and>
    lg_core (dp_log st') = lg_core (dp_log st) \<and> length (dp_buf st') = 8192 \<and>
    appended (dp_stream st) (dp_files st) (bytes_of (discard_prefix @ u_text (hd_id h) @ msg)) (dp_stream st') (dp_files st') \<and>
    length (discard_prefix @ u_text (hd_id h) @ msg) \<le> 512"
proof -
  have "\<not> valid_at (dp_log st) (unat (dp_i st))" using assms(9,11) by (metis add_0_right)
  then obtain lg1 dst where p: "printAtIndex M strf (dp_log st) (dp_i st) (dp_buf st) retry (Some (dp_header st)) =
      Inr \<lparr>pr_err = - 1, pr_log = lg1, pr_dst = dst, pr_next = dp_i st, pr_header = Some (dp_header st), pr_length = 0\<rparr>"
      "lg_core lg1 = lg_core (dp_log st)" "length dst = 8192"
    using printAtIndex_fails [OF assms(1,2)] by blast
  let ?st1 = "st\<lparr>dp_log := lg1, dp_buf := dst, dp_header := dp_header st\<rparr>"
  have ring: "lg_ringBuffer lg1 = lg_ringBuffer (dp_log st)" and ok: "log_ok lg1"
    using lg_core_ring [OF p(2)] lg_core_log_ok [OF p(2)] assms(1) by simp_all
  then have same: "valid_at lg1 m = valid_at (dp_log st) m" for m by (simp add: valid_at_def)
  obtain lg' j tb st2 t where d: "dump_discard ?st1 = Inr (j, st2)" "dp_i st2 = dp_i st" "lg_core (dp_log st2) = lg_core lg1"
      "getNextHeader lg1 (dp_i st) (Some dst) = Inr (lg', j, Some tb)" "length tb = 8192"
      "t = discard_text lg' (header_of (take 56 tb)) j (dp_header st)"
      "appended (dp_stream st) (dp_files st) (bytes_of t) (dp_stream st2) (dp_files st2)" "length (dp_buf st2) = 8192"
    using dump_discard_spec [of ?st1] ok ring p(3) assms(3-6) by auto
  have found: "unat j = unat (dp_i st) + k" "take 56 tb = header_bytes h"
    using getNextHeader_found [OF ok _ refl _ _ _ _ d(4), of k h img] ring same p(3) assms(6-8,10,11) by simp_all
  have "\<not> j > e" using found(1) assms(7) by (simp add: word_less_nat_alt)
  then have step: "dump_step M strf e True retry st = Inr (False, st2\<lparr>dp_i := j\<rparr>)"
    using p(1) d(1) by (simp add: dump_step_def)
  obtain msg where "t = discard_prefix @ u_text (hd_id h) @ msg"
    using discard_text_shape d(6) found(2) by fastforce
  moreover have "length t \<le> 512" using discard_text_length d(6) by blast
  ultimately show ?thesis using step found(1) d(3,7,8) p(2) by (intro exI [of _ "st2\<lparr>dp_i := j\<rparr>"] exI [of _ msg]) simp
qed

lemma dump_step_cut:
  assumes "log_ok (dp_log st)" and "cmem_ok M" and "strf_ok strf" and "length (dp_buf st) = 8192"
    and "holds_entry (lg_ringBuffer (dp_log st)) (unat (dp_i st)) h img" and "prints_as M strf h img line"
    and "unat (dp_i st) < unat e" and "unat e < unat (dp_i st) + (64 + length img)"
    and "unat e \<le> 2147483648"
  shows "\<exists>st'. dump_step M strf e cof retry st = Inr (True, st') \<and> dp_i st' = dp_i st \<and>
    lg_core (dp_log st') = lg_core (dp_log st) \<and> dp_stream st' = dp_stream st \<and> dp_files st' = dp_files st"
proof -
  obtain dst' where p: "printAtIndex M strf (dp_log st) (dp_i st) (dp_buf st) retry (Some (dp_header st)) =
      Inr \<lparr>pr_err = 0, pr_log = after_print (dp_log st) h, pr_dst = dst', pr_next = dp_i st + word_of_nat (64 + length img),
           pr_header = Some h, pr_length = int (length line)\<rparr>"
    using printAtIndex_held [OF assms(1-6), of retry "Some (dp_header st)"] by auto
  have n: "64 + length img \<le> 4096" using assms(5) by (simp add: holds_entry_def entry_ok_def)
  then have "unat (dp_i st + word_of_nat (64 + length img)) = unat (dp_i st) + (64 + length img)"
    using assms(7,9) unat_add_word_of_nat [of "dp_i st" "64 + length img" "4294967295"] by simp
  then have "dp_i st + word_of_nat (64 + length img) > e" using assms(8) by (simp add: word_less_nat_alt)
  then show ?thesis using p by (simp add: dump_step_def after_print_def lg_core_def)
qed

section \<open>Ranges\<close>

text \<open>What a dump leaves: \<open>k\<close> more records counted, the text in the stream.\<close>

definition dump_wrote :: "log \<Rightarrow> stream_obj \<Rightarrow> files \<Rightarrow> nat \<Rightarrow> u8 list \<Rightarrow> log \<Rightarrow> stream_obj \<Rightarrow> files \<Rightarrow> bool" where
  "dump_wrote lg x fs k out lg' x' fs' \<longleftrightarrow>
     lg_core lg' = lg_core (lg\<lparr>lg_collectCount := lg_collectCount lg + word_of_nat k\<rparr>) \<and> appended x fs out x' fs'"

lemma after_dump_core:
  "after_dump lg k lg' \<Longrightarrow> lg_core lg' = lg_core (lg\<lparr>lg_collectCount := lg_collectCount lg + word_of_nat k\<rparr>)"
  by (auto simp: after_dump_def lg_core_def)

lemma lg_core_collect:
  "lg_core lg' = lg_core lg \<Longrightarrow>
   lg_core (lg'\<lparr>lg_collectCount := lg_collectCount lg' + n\<rparr>) = lg_core (lg\<lparr>lg_collectCount := lg_collectCount lg + n\<rparr>)"
  by (simp add: lg_core_def)

lemma dump_wrote_trans:
  "dump_wrote lg x fs k s lg1 x1 fs1 \<Longrightarrow> dump_wrote lg1 x1 fs1 m t lg2 x2 fs2 \<Longrightarrow> dump_wrote lg x fs (k + m) (s @ t) lg2 x2 fs2"
  by (auto simp: dump_wrote_def lg_core_def add.assoc intro: appended_trans)

lemma dump_wrote_fields:
  assumes "dump_wrote lg x fs k out lg' x' fs'"
  shows "lg_ringBuffer lg' = lg_ringBuffer lg" and "lg_bufLastWrittenIndex lg' = lg_bufLastWrittenIndex lg"
    and "lg_globalId lg' = lg_globalId lg" and "log_ok lg' = log_ok lg"
  using assms by (simp_all add: dump_wrote_def lg_core_def log_ok_def)

text \<open>A record that does not end within the range is not printed; the range ends in front of it.\<close>

lemma dumpRange_cut:
  assumes "dump_ready M strf lg x fs (length (concat lines))" and "length stack = 8192"
    and "N = unat (rb_size (lg_ringBuffer lg))" and "records_at (lg_ringBuffer lg) (unat start0 mod N) (rs @ [(h, img)])"
    and "list_all2 (\<lambda>(h, img). prints_as M strf h img) rs lines" and "prints_as M strf h img line"
    and "unat start0 mod N + records_size rs < unat end0 mod N + 1"
    and "unat end0 mod N + 1 < unat start0 mod N + records_size rs + (64 + length img)"
  shows "\<exists>lg' x' fs' i. dumpRange M strf stack lg x fs start0 end0 cof = Some (Inr (lg', x', fs', i)) \<and>
    unat i = unat start0 mod N + records_size rs \<and> dump_wrote lg x fs (length rs) (concat lines) lg' x' fs'"
proof -
  have r: "log_ok lg" "cmem_ok M" "strf_ok strf" using assms(1) by (simp_all add: dump_ready_def)
  have N: "N \<le> 2147483648" "0 < N" using r(1) assms(3) by (simp_all add: log_ok_def rb_ok_def rb_wf_def)
  have le: "unat start0 mod N \<le> unat end0 mod N + 1" using assms(7) by linarith
  obtain start e where se: "unat start = unat start0 mod N" "unat e = unat end0 mod N + 1"
      "dumpRange M strf stack lg x fs start0 end0 cof =
        bindT (dumpRange_loop M strf e cof (\<not> cof) (dump_start start lg x fs stack))
          (\<lambda>st. Some (Inr (dp_log st, dp_stream st, dp_files st, dp_i st)))"
    by (rule dumpRange_eq [OF r(1) assms(3) le])
  have recs: "records_at (lg_ringBuffer lg) (unat start) rs" "unat start + records_size rs \<le> unat e"
    "holds_entry (lg_ringBuffer lg) (unat start + records_size rs) h img"
    using assms(4,7) se(1,2) by (simp_all add: records_at_append)
  then obtain st' where st': "dumpRange_loop M strf e cof (\<not> cof) (dump_start start lg x fs stack) =
        dumpRange_loop M strf e cof (\<not> cof) st'" "dumped rs (concat lines) (dump_start start lg x fs stack) st'"
    using dumpRange_loop_records' [OF assms(1,2) _ assms(5)] by metis
  have d: "after_dump lg (length rs) (dp_log st')" "appended x fs (concat lines) (dp_stream st') (dp_files st')"
    "length (dp_buf st') = 8192" "dp_i st' = start + word_of_nat (records_size rs)"
    using st'(2) by (simp_all add: dumped_def dump_start_def)
  have i: "unat (dp_i st') = unat start + records_size rs" using d(4) unat_add_word_of_nat [OF recs(2)] by simp
  have "unat end0 mod N < N" using N(2) by simp
  then have e: "unat e \<le> 2147483648" using se(2) N(1) by linarith
  have pos: "unat (dp_i st') < unat e" "unat e < unat (dp_i st') + (64 + length img)"
    using assms(7,8) i se(1,2) by simp_all
  have here: "holds_entry (lg_ringBuffer (dp_log st')) (unat (dp_i st')) h img" "log_ok (dp_log st')"
    using recs(3) i after_dump_fields [OF d(1)] r(1) by simp_all
  obtain st2 where st2: "dump_step M strf e cof (\<not> cof) st' = Inr (True, st2)" "dp_i st2 = dp_i st'"
      "lg_core (dp_log st2) = lg_core (dp_log st')" "dp_stream st2 = dp_stream st'" "dp_files st2 = dp_files st'"
    using dump_step_cut [OF here(2) r(2,3) d(3) here(1) assms(6) pos e] by blast
  have "dumpRange_loop M strf e cof (\<not> cof) st' = Some (Inr st2)"
    using st2(1) pos(1) by (subst dumpRange_loop.simps) (simp add: word_less_nat_alt)
  then show ?thesis using st'(1) se(1,3) st2 i d(2) after_dump_core [OF d(1)] by (simp add: dump_wrote_def)
qed

text \<open>A range that starts where no record starts: the message, and on with the first record after it.\<close>

lemma dumpRange_realign:
  assumes "dump_ready M strf lg x fs (512 + length (concat lines))" and "length stack = 8192"
    and "N = unat (rb_size (lg_ringBuffer lg))" and "0 < k" and "\<forall>m < k. \<not> valid_at lg (unat start0 mod N + m)"
    and "records_at (lg_ringBuffer lg) (unat start0 mod N + k) ((h, img) # rs)"
    and "list_all2 (\<lambda>(h, img). prints_as M strf h img) ((h, img) # rs) lines"
    and "unat start0 mod N + k + records_size ((h, img) # rs) = unat end0 mod N + 1"
  shows "\<exists>lg' x' fs' i msg. dumpRange M strf stack lg x fs start0 end0 True = Some (Inr (lg', x', fs', i)) \<and>
    unat i = unat end0 mod N + 1 \<and>
    dump_wrote lg x fs (length rs + 1) (bytes_of (discard_prefix @ u_text (hd_id h) @ msg) @ concat lines) lg' x' fs'"
proof -
  have r: "log_ok lg" "cmem_ok M" "strf_ok strf" "stream_ok x fs" "4096 \<le> stream_chunk x" "512 + length (concat lines) \<le> stream_room x fs"
    using assms(1) by (simp_all add: dump_ready_def)
  have N: "N \<le> 2147483648" "0 < N" using r(1) assms(3) by (simp_all add: log_ok_def rb_ok_def rb_wf_def)
  have le: "unat start0 mod N \<le> unat end0 mod N + 1" using assms(8) by linarith
  obtain start e where se: "unat start = unat start0 mod N" "unat e = unat end0 mod N + 1"
      "dumpRange M strf stack lg x fs start0 end0 True =
        bindT (dumpRange_loop M strf e True (\<not> True) (dump_start start lg x fs stack))
          (\<lambda>st. Some (Inr (dp_log st, dp_stream st, dp_files st, dp_i st)))"
    by (rule dumpRange_eq [OF r(1) assms(3) le])
  let ?st = "dump_start start lg x fs stack"
  have st: "dp_log ?st = lg" "dp_i ?st = start" "dp_stream ?st = x" "dp_files ?st = fs" "dp_buf ?st = stack"
    by (simp_all add: dump_start_def)
  have "unat end0 mod N < N" "unat start0 mod N < N" using N(2) by simp_all
  then have eN: "unat e \<le> unat (rb_size (lg_ringBuffer lg))" "unat start < unat (rb_size (lg_ringBuffer lg))"
    using se(1,2) assms(3) by linarith+
  obtain st1 msg where st1: "dump_step M strf e True False ?st = Inr (False, st1)" "unat (dp_i st1) = unat start + k"
      "lg_core (dp_log st1) = lg_core lg" "length (dp_buf st1) = 8192"
      "appended x fs (bytes_of (discard_prefix @ u_text (hd_id h) @ msg)) (dp_stream st1) (dp_files st1)"
      "length (discard_prefix @ u_text (hd_id h) @ msg) \<le> 512"
    using dump_step_realign [of ?st k e h img M strf False] st r eN se(1,2) assms(2,4-6,8) by auto
  have "start < e" using se(1,2) assms(4,8) by (simp add: word_less_nat_alt)
  then have loop: "dumpRange_loop M strf e True False ?st = dumpRange_loop M strf e True False st1"
    using st1(1) st(2) by (subst dumpRange_loop.simps) simp
  have fits: "stream_ok (dp_stream st1) (dp_files st1)" "4096 \<le> stream_chunk (dp_stream st1)"
    "length (concat lines) \<le> stream_room (dp_stream st1) (dp_files st1)"
  proof -
    show "stream_ok (dp_stream st1) (dp_files st1)" "4096 \<le> stream_chunk (dp_stream st1)"
      using st1(5) r(5) by (simp_all add: appended_def)
    show "length (concat lines) \<le> stream_room (dp_stream st1) (dp_files st1)"
      using st1(5,6) r(6) by (simp add: appended_def)
  qed
  have ok1: "log_ok (dp_log st1)" "lg_ringBuffer (dp_log st1) = lg_ringBuffer lg"
    using lg_core_log_ok [OF st1(3)] lg_core_ring [OF st1(3)] r(1) by simp_all
  have recs: "records_at (lg_ringBuffer (dp_log st1)) (unat (dp_i st1)) ((h, img) # rs)"
    "unat (dp_i st1) + records_size ((h, img) # rs) = unat e"
    using assms(6,8) ok1(2) st1(2) se(1,2) by simp_all
  obtain st2 where st2: "dumpRange_loop M strf e True False st1 = dumpRange_loop M strf e True False st2"
      "dumped ((h, img) # rs) (concat lines) st1 st2"
    using dumpRange_loop_records [OF ok1(1) r(2,3) st1(4) fits recs(1) assms(7), of e] recs(2) by auto
  have "dp_i st2 = dp_i st1 + word_of_nat (records_size ((h, img) # rs))" using st2(2) by (simp only: dumped_def)
  then have "unat (dp_i st2) = unat e"
    using unat_add_word_of_nat [of "dp_i st1" "records_size ((h, img) # rs)" e] recs(2) by (simp only: order.refl)
  then have i: "dp_i st2 = e" by (simp add: word_unat_eq_iff)
  then have "dumpRange_loop M strf e True False st2 = Some (Inr st2)" by (subst dumpRange_loop.simps) simp
  then have run: "dumpRange M strf stack lg x fs start0 end0 True = Some (Inr (dp_log st2, dp_stream st2, dp_files st2, e))"
    using se(3) loop st2(1) i by simp
  have "dump_wrote lg x fs (0 + (length rs + 1)) (bytes_of (discard_prefix @ u_text (hd_id h) @ msg) @ concat lines)
      (dp_log st2) (dp_stream st2) (dp_files st2)"
  proof (rule dump_wrote_trans)
    show "dump_wrote lg x fs 0 (bytes_of (discard_prefix @ u_text (hd_id h) @ msg)) (dp_log st1) (dp_stream st1) (dp_files st1)"
      using st1(3,5) by (simp add: dump_wrote_def lg_core_def)
    show "dump_wrote (dp_log st1) (dp_stream st1) (dp_files st1) (length rs + 1) (concat lines) (dp_log st2) (dp_stream st2) (dp_files st2)"
      using st2(2) after_dump_core [of "dp_log st1" "length rs + 1" "dp_log st2"] by (simp add: dumped_def dump_wrote_def)
  qed
  then show ?thesis using run se(2) by auto
qed

end
