(* ===== verification/Log_Trace.thy ===== *)
theory Log_Trace
  imports Log_Print
begin

text \<open>
  From a trace call to the printed line: what \<^verbatim>\<open>traceVargs\<close> puts into the ring, and what a dump of many calls
  prints.
\<close>

section \<open>Identifiers\<close>

definition next_id :: "u32 \<Rightarrow> u32" where
  "next_id i = (if i + 1 = START_PATTERN \<or> i + 1 = END_PATTERN then i + 2 else i + 1)"

lemma allocateId_eq: "allocateId lg = (lg\<lparr>lg_globalId := next_id (lg_globalId lg)\<rparr>, lg_globalId lg)"
  by (simp add: allocateId_def next_id_def Let_def)

section \<open>One trace call\<close>

record call =
  ca_now :: "u64 \<times> u64"
  ca_withTs :: bool
  ca_function :: u64
  ca_line :: u32
  ca_tag :: u8
  ca_format :: u64
  ca_args :: "carg list"
  ca_stack :: "u8 list"

definition trace :: "cmem \<Rightarrow> log \<Rightarrow> call \<Rightarrow> log result" where
  "trace M lg c =
     traceVargs M (ca_stack c) (ca_now c) lg (ca_withTs c) (ca_function c) (ca_line c) (ca_tag c) (ca_format c) (ca_args c)"

text \<open>The bytes of the arguments, and the size of the record.\<close>

definition call_image :: "cmem \<Rightarrow> call \<Rightarrow> u8 list" where
  "call_image M c = (case M (ca_format c) of None \<Rightarrow> [] | Some fmt \<Rightarrow> arg_bytes M fmt (ca_args c))"

definition call_size :: "cmem \<Rightarrow> call \<Rightarrow> nat" where
  "call_size M c = 64 + length (call_image M c)"

text \<open>The header of the record, with the padding the stack held.\<close>

definition call_header :: "cmem \<Rightarrow> u32 \<Rightarrow> u32 \<Rightarrow> call \<Rightarrow> header" where
  "call_header M loc ident c =
     (header_of (take 56 (ca_stack c)))
       \<lparr>hd_tv_sec := (if ca_withTs c then fst (ca_now c) else 0), hd_tv_nsec := (if ca_withTs c then snd (ca_now c) else 0),
        hd_pattern := START_PATTERN, hd_id := ident, hd_length := word_of_nat (call_size M c),
        hd_functionName := ca_function c, hd_lineNumber := ucast (ca_line c), hd_tag := ca_tag c,
        hd_location := loc, hd_format := ca_format c\<rparr>"

text \<open>A call the round trip covers: supported format, arguments printf accepts, and a record of at most 4096 bytes.\<close>

definition call_ok :: "cmem \<Rightarrow> call \<Rightarrow> bool" where
  "call_ok M c \<longleftrightarrow>
     (case M (ca_format c) of None \<Rightarrow> False
      | Some fmt \<Rightarrow> fmt_supported fmt \<and> (case c_printf M fmt (ca_args c) of Inl e \<Rightarrow> False | Inr x \<Rightarrow> True)) \<and>
     call_size M c \<le> 4096 \<and> length (ca_stack c) = 4097"

text \<open>The ring after a call.\<close>

definition trace_ring :: "cmem \<Rightarrow> log \<Rightarrow> call \<Rightarrow> ringbuffer" where
  "trace_ring M lg c =
     (let rb = lg_ringBuffer lg; n = word_of_nat (call_size M c);
          h = call_header M (alloc_base rb mod rb_size rb) (lg_globalId lg) c
      in (alloc_after rb n)\<lparr>rb_buffer := circ_put (rb_buffer rb) (unat (alloc_base rb)) (entry_bytes h (call_image M c))\<rparr>)"

lemma trace_eq:
  assumes "log_ok lg" and "cmem_ok M" and "call_ok M c"
  shows "trace M lg c = Inr (lg\<lparr>lg_globalId := next_id (lg_globalId lg), lg_ringBuffer := trace_ring M lg c,
    lg_bufLastWrittenIndex := alloc_base (lg_ringBuffer lg) + word_of_nat (call_size M c)\<rparr>)"
proof -
  let ?rb = "lg_ringBuffer lg" and ?img = "call_image M c" and ?st = "ca_stack c" and ?id = "lg_globalId lg"
  obtain fmt x where fmt: "M (ca_format c) = Some fmt" "fmt_supported fmt" "c_printf M fmt (ca_args c) = Inr x"
    using assms(3) by (auto simp: call_ok_def split: option.splits sum.splits)
  have img: "?img = arg_bytes M fmt (ca_args c)" using fmt(1) by (simp add: call_image_def)
  have size: "64 + length ?img \<le> 4096" "length ?st = 4097" using assms(3) by (simp_all add: call_ok_def call_size_def)
  have str: "c_string fmt" using assms(2) fmt(1) by (auto simp: cmem_ok_def ran_def)
  let ?b = "take 56 ?st @ ?img @ drop (56 + length ?img) ?st"
  have enc: "encodeToArgsBuffer M fmt (ca_args c) ?st 56 = Inr (?b, 56 + length ?img)"
    using encode_supported [OF fmt(2) str fmt(3), of 56 ?st] size img by (simp add: encodeToArgsBuffer_def)
  let ?t = "trailer_bytes \<lparr>tr_id = ?id, tr_pattern = END_PATTERN\<rparr>"
  let ?b1 = "take 56 ?st @ ?img @ ?t @ drop (64 + length ?img) ?st"
  have trailer: "mem_write ?b (56 + length ?img) ?t = Inr ?b1" using size by simp
  let ?n = "word_of_nat (call_size M c) :: u32"
  have n: "word_of_nat (56 + length ?img) + sizeof_Trailer = ?n" by (simp add: call_size_def sizeof_Trailer_def)
  have "call_size M c < 4294967296" using size by (simp add: call_size_def)
  then have unat_n: "unat ?n = 64 + length ?img" and ucast_n: "(ucast ?n :: u16) = word_of_nat (call_size M c)"
    by (simp add: unat_of_nat, simp add: call_size_def, simp add: unsigned_of_nat take_bit_nat_eq_self)
  have le: "?n \<le> LOG_MAX_LOG_TRACE_LINE" using unat_n size by (simp add: LOG_MAX_LOG_TRACE_LINE_def word_le_nat_alt)
  have ok: "rb_ok ?rb" "4096 \<le> unat (rb_size ?rb)" using assms(1) by (simp_all add: log_ok_def)

  let ?h = "call_header M (alloc_base ?rb mod rb_size ?rb) ?id c"
  have len56: "length (take 56 ?st) = 56" using size by simp
  have hdr: "setHeader (lg\<lparr>lg_globalId := next_id ?id, lg_ringBuffer := alloc_after ?rb ?n\<rparr>) (ca_now c) ?b1 0 (ca_function c)
      (ucast (ca_line c)) (ca_tag c) (ca_format c) (ca_withTs c) (ucast ?n) (alloc_base ?rb) ?id =
    Inr (entry_bytes ?h ?img @ drop (64 + length ?img) ?st, sizeof_Header)"
    using ok len56 ucast_n by (simp add: setHeader_def call_header_def entry_bytes_def Let_def)
  have put: "RingBuffer_set (alloc_after ?rb ?n) (alloc_base ?rb) (entry_bytes ?h ?img @ drop (64 + length ?img) ?st) ?n =
      Inr (trace_ring M lg c)"
    using RingBuffer_set_circ [of "alloc_after ?rb ?n" ?n "entry_bytes ?h ?img @ drop (64 + length ?img) ?st" "alloc_base ?rb"]
      ok size unat_n by (simp add: trace_ring_def Let_def)
  show ?thesis
    using fmt(1) enc trailer n le hdr put ok
    by (simp add: trace_def traceVargs_def deref_string_def sizeof_Header_def allocateId_eq LOG_MEM_ALIGN_def
        RingBuffer_allocate_eq setLastWrittenIndex_def RingBuffer_getCurrentIndex_def trace_ring_def Let_def)
qed

section \<open>Records stay where they are\<close>

lemma holds_entry_mod:
  assumes "p mod length (rb_buffer rb) = q mod length (rb_buffer rb)"
  shows "holds_entry rb p h img = holds_entry rb q h img"
  unfolding holds_entry_def circ_mod [of "rb_buffer rb" p, symmetric] circ_mod [of "rb_buffer rb" q, symmetric] assms ..

lemma records_at_mod:
  "p mod length (rb_buffer rb) = q mod length (rb_buffer rb) \<Longrightarrow> records_at rb p rs = records_at rb q rs"
proof (induction rs arbitrary: p q)
  case (Cons r rs)
  obtain h img where r: "r = (h, img)" by (cases r)
  have m: "(p + (64 + length img)) mod length (rb_buffer rb) = (q + (64 + length img)) mod length (rb_buffer rb)"
    by (rule mod_add_cong [OF Cons.prems refl])
  show ?case using holds_entry_mod [OF Cons.prems] Cons.IH [OF m] r by simp
qed simp

lemma circ_disjoint_mono:
  assumes "circ_disjoint N i n j m" and "a + l \<le> m"
  shows "circ_disjoint N i n (j + a) l"
  unfolding circ_disjoint_def
proof (intro allI impI)
  fix k l' assume "k < n" and "l' < l"
  then have "(i + k) mod N \<noteq> (j + (a + l')) mod N" using assms by (simp add: circ_disjoint_def)
  then show "(i + k) mod N \<noteq> (j + a + l') mod N" by (simp add: add.assoc)
qed

lemma records_at_put:
  assumes "circ_disjoint (length (rb_buffer rb)) q (length xs) p (records_size rs)" and "0 < length (rb_buffer rb)"
    and "rb_buffer rb' = circ_put (rb_buffer rb) q xs" and "records_at rb p rs"
  shows "records_at rb' p rs"
  using assms
proof (induction rs arbitrary: p)
  case (Cons r rs)
  obtain h img where r: "r = (h, img)" by (cases r)
  have "circ_disjoint (length (rb_buffer rb)) q (length xs) p (64 + length img)"
    "circ_disjoint (length (rb_buffer rb)) q (length xs) (p + (64 + length img)) (records_size rs)"
    using circ_disjoint_mono [OF Cons.prems(1), of 0 "64 + length img"]
      circ_disjoint_mono [OF Cons.prems(1), of "64 + length img" "records_size rs"] r by simp_all
  then show ?case using Cons r circ_circ_put_disjoint [of "rb_buffer rb" q xs] by (auto simp: holds_entry_def)
qed simp

lemma trace_ring_facts:
  assumes "log_ok lg" and "call_ok M c" and "N = unat (rb_size (lg_ringBuffer lg))"
  shows "rb_ok (trace_ring M lg c)" and "rb_size (trace_ring M lg c) = rb_size (lg_ringBuffer lg)"
    and "unat (rb_currentIndex (trace_ring M lg c)) = unat (alloc_base (lg_ringBuffer lg)) + call_size M c"
    and "unat (rb_currentIndex (trace_ring M lg c)) mod N = (unat (rb_currentIndex (lg_ringBuffer lg)) + call_size M c) mod N"
proof -
  let ?rb = "lg_ringBuffer lg" and ?n = "word_of_nat (call_size M c) :: u32"
  have ok: "rb_ok ?rb" using assms(1) by (simp add: log_ok_def)
  have "call_size M c \<le> 4096" using assms(2) by (simp add: call_ok_def)
  then have n: "unat ?n = call_size M c" "unat ?n \<le> 10240" by (simp_all add: unat_of_nat)
  show "rb_ok (trace_ring M lg c)" using ok rb_ok_set_buffer [of "alloc_after ?rb ?n"] by (simp add: trace_ring_def Let_def)
  show "rb_size (trace_ring M lg c) = rb_size ?rb" by (simp add: trace_ring_def Let_def)
  show idx: "unat (rb_currentIndex (trace_ring M lg c)) = unat (alloc_base ?rb) + call_size M c"
    using alloc_no_wrap [OF ok n(2)] n(1) by (simp add: trace_ring_def Let_def)
  show "unat (rb_currentIndex (trace_ring M lg c)) mod N = (unat (rb_currentIndex ?rb) + call_size M c) mod N"
    unfolding idx assms(3) by (metis alloc_base_mod mod_add_left_eq)
qed

lemma call_entry:
  assumes "call_ok M c"
  shows "entry_ok (call_header M loc ident c) (call_image M c)"
proof -
  have n: "call_size M c \<le> 4096" using assms by (simp add: call_ok_def)
  then have "unat (word_of_nat (call_size M c) :: u16) = call_size M c" by (simp add: unat_of_nat)
  then show ?thesis using n by (simp add: entry_ok_def call_header_def call_size_def del: of_nat_add)
qed

lemma trace_ring_records:
  assumes "log_ok lg" and "call_ok M c" and "N = unat (rb_size (lg_ringBuffer lg))"
    and "records_at (lg_ringBuffer lg) p rs" and "(p + records_size rs) mod N = unat (rb_currentIndex (lg_ringBuffer lg)) mod N"
    and "records_size rs + call_size M c \<le> N"
  shows "records_at (trace_ring M lg c) p
    (rs @ [(call_header M (alloc_base (lg_ringBuffer lg) mod rb_size (lg_ringBuffer lg)) (lg_globalId lg) c, call_image M c)])"
proof -
  let ?rb = "lg_ringBuffer lg" and ?img = "call_image M c"
  let ?h = "call_header M (alloc_base ?rb mod rb_size ?rb) (lg_globalId lg) c" and ?q = "unat (alloc_base ?rb)"
  have b: "length (rb_buffer ?rb) = N" "0 < N" using assms(1,3) unat_rb_cap [of ?rb] by (simp_all add: log_ok_def)
  have buf: "rb_buffer (trace_ring M lg c) = circ_put (rb_buffer ?rb) ?q (entry_bytes ?h ?img)"
    by (simp add: trace_ring_def Let_def)
  have q: "?q mod N = (p + records_size rs) mod N" using assms(3,5) alloc_base_mod [of ?rb] by simp
  have size: "64 + length ?img = call_size M c" by (simp add: call_size_def)
  have "circ_disjoint N p (records_size rs) (p + records_size rs) (call_size M c)"
    using assms(6) by (intro circ_disjoint_consecutive) simp_all
  then have "circ_disjoint N p (records_size rs) ?q (call_size M c)"
    using circ_disjoint_cong [of p N p ?q "p + records_size rs"] q by simp
  then have dis: "circ_disjoint (length (rb_buffer ?rb)) ?q (length (entry_bytes ?h ?img)) p (records_size rs)"
    using b(1) size by (simp add: circ_disjoint_sym)
  have old: "records_at (trace_ring M lg c) p rs"
    using records_at_put [OF dis _ buf assms(4)] b by simp
  have "holds_entry (trace_ring M lg c) ?q ?h ?img"
    using circ_circ_put_same [of "entry_bytes ?h ?img" "rb_buffer ?rb" ?q] call_entry [OF assms(2)] assms(6) b(1) size
    by (simp add: holds_entry_def buf)
  then have "holds_entry (trace_ring M lg c) (p + records_size rs) ?h ?img"
    using holds_entry_mod [of ?q "trace_ring M lg c" "p + records_size rs"] q b(1) buf by simp
  then show ?thesis using old by (simp add: records_at_append)
qed

section \<open>What the calls print\<close>

text \<open>The line printf would have made of a call, behind its stamp.\<close>

definition call_line :: "cmem \<Rightarrow> (u64 \<Rightarrow> string) \<Rightarrow> u32 \<Rightarrow> call \<Rightarrow> string result" where
  "call_line M strf ident c =
     bindE (stamp_text M strf (call_header M 0 ident c)) (\<lambda>t.
     bindE (deref_string M (ca_format c)) (\<lambda>fmt.
     bindE (c_printf M fmt (ca_args c)) (\<lambda>x. Inr (t @ x))))"

fun call_lines :: "cmem \<Rightarrow> (u64 \<Rightarrow> string) \<Rightarrow> u32 \<Rightarrow> call list \<Rightarrow> string list result" where
  "call_lines M strf ident [] = Inr []"
| "call_lines M strf ident (c # cs) =
     bindE (call_line M strf ident c) (\<lambda>l. bindE (call_lines M strf (next_id ident) cs) (\<lambda>ls. Inr (l # ls)))"

fun trace_all :: "cmem \<Rightarrow> log \<Rightarrow> call list \<Rightarrow> log result" where
  "trace_all M lg [] = Inr lg"
| "trace_all M lg (c # cs) = bindE (trace M lg c) (\<lambda>lg'. trace_all M lg' cs)"

definition calls_size :: "cmem \<Rightarrow> call list \<Rightarrow> nat" where
  "calls_size M cs = sum_list (map (call_size M) cs)"

lemma stamp_text_location: "stamp_text M strf (call_header M loc ident c) = stamp_text M strf (call_header M 0 ident c)"
proof -
  have "stamp_text M strf (h\<lparr>hd_location := l\<rparr>) = stamp_text M strf h" for h l
    by (simp add: stamp_text_def stamp_tail_def cong: if_cong)
  moreover have "call_header M loc ident c = (call_header M 0 ident c)\<lparr>hd_location := loc\<rparr>" by (simp add: call_header_def)
  ultimately show ?thesis by metis
qed

lemma call_prints:
  assumes "call_ok M c" and "call_line M strf ident c = Inr l" and "length l \<le> 4096"
  shows "prints_as M strf (call_header M loc ident c) (call_image M c) (bytes_of l)"
proof -
  obtain t fmt x where p: "stamp_text M strf (call_header M 0 ident c) = Inr t" "M (ca_format c) = Some fmt"
      "c_printf M fmt (ca_args c) = Inr x" "l = t @ x"
    using assms(2) by (auto simp: call_line_def deref_string_def bindE_eq_Inr_iff split: option.splits)
  have "fmt_supported fmt" using assms(1) p(2) by (simp add: call_ok_def)
  moreover have "hd_format (call_header M loc ident c) = ca_format c" by (simp add: call_header_def)
  ultimately show ?thesis
    using p assms(3) stamp_text_location [of M strf loc] unfolding prints_as_def
    by (intro exI [of _ fmt] exI [of _ "ca_args c"] exI [of _ t] exI [of _ x]) (simp add: call_image_def)
qed

text \<open>
  The ring holds, from position \<open>p\<close> up to the index of the next record, the records \<open>rs\<close>, which print as \<open>ls\<close>.
\<close>

definition log_holds :: "cmem \<Rightarrow> (u64 \<Rightarrow> string) \<Rightarrow> log \<Rightarrow> nat \<Rightarrow> (header \<times> u8 list) list \<Rightarrow> string list \<Rightarrow> bool" where
  "log_holds M strf lg p rs ls \<longleftrightarrow>
     log_ok lg \<and> records_at (lg_ringBuffer lg) p rs \<and>
     list_all2 (\<lambda>(h, img). prints_as M strf h img) rs (map bytes_of ls) \<and>
     (p + records_size rs) mod unat (rb_size (lg_ringBuffer lg))
       = unat (rb_currentIndex (lg_ringBuffer lg)) mod unat (rb_size (lg_ringBuffer lg)) \<and>
     records_size rs \<le> unat (rb_size (lg_ringBuffer lg))"

definition after_trace :: "cmem \<Rightarrow> log \<Rightarrow> call \<Rightarrow> log" where
  "after_trace M lg c = lg\<lparr>lg_globalId := next_id (lg_globalId lg), lg_ringBuffer := trace_ring M lg c,
     lg_bufLastWrittenIndex := rb_currentIndex (trace_ring M lg c)\<rparr>"

lemma trace_after:
  assumes "log_ok lg" and "cmem_ok M" and "call_ok M c"
  shows "trace M lg c = Inr (after_trace M lg c)"
  using trace_eq [OF assms] by (simp add: after_trace_def trace_ring_def Let_def)

lemma trace_holds:
  assumes "log_holds M strf lg p rs ls" and "call_ok M c" and "call_line M strf (lg_globalId lg) c = Inr l"
    and "length l \<le> 4096" and "records_size rs + call_size M c \<le> unat (rb_size (lg_ringBuffer lg))"
  shows "\<exists>r. log_holds M strf (after_trace M lg c) p (rs @ [r]) (ls @ [l]) \<and> records_size [r] = call_size M c"
proof -
  let ?rb = "lg_ringBuffer lg" and ?lg = "after_trace M lg c"
  let ?r = "(call_header M (alloc_base ?rb mod rb_size ?rb) (lg_globalId lg) c, call_image M c)"
  have h: "log_ok lg" "records_at ?rb p rs" "list_all2 (\<lambda>(h, img). prints_as M strf h img) rs (map bytes_of ls)"
    "(p + records_size rs) mod unat (rb_size ?rb) = unat (rb_currentIndex ?rb) mod unat (rb_size ?rb)"
    using assms(1) by (simp_all add: log_holds_def)
  note ring = trace_ring_facts [OF h(1) assms(2) refl]
  have ring': "lg_ringBuffer ?lg = trace_ring M lg c" by (simp add: after_trace_def)
  have size: "records_size [?r] = call_size M c" by (simp add: call_size_def)
  have "log_ok ?lg" using ring(1,2) h(1) by (simp add: log_ok_def ring')
  moreover have "records_at (lg_ringBuffer ?lg) p (rs @ [?r])"
    using trace_ring_records [OF h(1) assms(2) refl h(2,4) assms(5)] by (simp add: ring')
  moreover have "list_all2 (\<lambda>(h, img). prints_as M strf h img) (rs @ [?r]) (map bytes_of (ls @ [l]))"
    using list_all2_appendI [OF h(3), of "[?r]" "[bytes_of l]"] call_prints [OF assms(2,3,4)] by simp
  moreover have "(p + (records_size rs + call_size M c)) mod unat (rb_size ?rb) =
      unat (rb_currentIndex (trace_ring M lg c)) mod unat (rb_size ?rb)"
    using ring(4) h(4) by (metis add.assoc mod_add_left_eq)
  ultimately have "log_holds M strf ?lg p (rs @ [?r]) (ls @ [l])"
    unfolding log_holds_def ring' ring(2) records_size_simps(3) size using assms(5) by simp
  then show ?thesis using size by blast
qed

lemma trace_all_holds:
  assumes "log_holds M strf lg p rs ls" and "cmem_ok M" and "\<forall>c \<in> set cs. call_ok M c"
    and "call_lines M strf (lg_globalId lg) cs = Inr ls'" and "\<forall>l \<in> set ls'. length l \<le> 4096"
    and "records_size rs + calls_size M cs \<le> unat (rb_size (lg_ringBuffer lg))"
  shows "\<exists>lg' rs'. trace_all M lg cs = Inr lg' \<and> log_holds M strf lg' p (rs @ rs') (ls @ ls') \<and>
    records_size rs' = calls_size M cs \<and> rb_size (lg_ringBuffer lg') = rb_size (lg_ringBuffer lg)"
  using assms
proof (induction cs arbitrary: lg rs ls ls')
  case Nil
  then show ?case by (auto simp: calls_size_def intro!: exI [of _ "[]"])
next
  case (Cons c cs)
  obtain l ls2 where l: "call_line M strf (lg_globalId lg) c = Inr l" "call_lines M strf (next_id (lg_globalId lg)) cs = Inr ls2"
      "ls' = l # ls2"
    using Cons.prems(4) by (auto simp: bindE_eq_Inr_iff)
  let ?lg = "after_trace M lg c"
  have fits: "records_size rs + call_size M c \<le> unat (rb_size (lg_ringBuffer lg))" "call_ok M c" "length l \<le> 4096"
    using Cons.prems(3,5,6) l(3) by (simp_all add: calls_size_def)
  obtain r where r: "log_holds M strf ?lg p (rs @ [r]) (ls @ [l])" "records_size [r] = call_size M c"
    using trace_holds [OF Cons.prems(1) fits(2) l(1) fits(3) fits(1)] by blast
  have "log_ok lg" using Cons.prems(1) by (simp add: log_holds_def)
  then have t: "trace M lg c = Inr ?lg" and size: "rb_size (lg_ringBuffer ?lg) = rb_size (lg_ringBuffer lg)"
    using trace_after [OF _ Cons.prems(2) fits(2)] trace_ring_facts(2) [OF _ fits(2) refl] by (simp_all add: after_trace_def)
  have "lg_globalId ?lg = next_id (lg_globalId lg)" by (simp add: after_trace_def)
  then obtain lg' rs' where "trace_all M ?lg cs = Inr lg'" "log_holds M strf lg' p ((rs @ [r]) @ rs') ((ls @ [l]) @ ls2)"
      "records_size rs' = calls_size M cs" "rb_size (lg_ringBuffer lg') = rb_size (lg_ringBuffer ?lg)"
    using Cons.IH [OF r(1) Cons.prems(2), of ls2] Cons.prems(3,5,6) l(2,3) r(2) size by (auto simp: calls_size_def)
  then show ?case using t r(2) l(3) size
    by (intro exI [of _ lg'] exI [of _ "r # rs'"]) (cases r; simp add: calls_size_def)
qed

text \<open>While the index is far from the top nothing is reduced.\<close>

lemma trace_all_index:
  assumes "log_ok lg" and "cmem_ok M" and "\<forall>c \<in> set cs. call_ok M c"
    and "unat (rb_currentIndex (lg_ringBuffer lg)) + calls_size M cs \<le> 4294957055" and "trace_all M lg cs = Inr lg'"
  shows "unat (rb_currentIndex (lg_ringBuffer lg')) = unat (rb_currentIndex (lg_ringBuffer lg)) + calls_size M cs \<and>
    rb_indexWrapAroundCount (lg_ringBuffer lg') = rb_indexWrapAroundCount (lg_ringBuffer lg) \<and>
    (cs \<noteq> [] \<longrightarrow> lg_bufLastWrittenIndex lg' = rb_currentIndex (lg_ringBuffer lg'))"
  using assms
proof (induction cs arbitrary: lg)
  case Nil
  then show ?case by (simp add: calls_size_def)
next
  case (Cons c cs)
  let ?rb = "lg_ringBuffer lg" and ?lg = "after_trace M lg c"
  have c: "call_ok M c" using Cons.prems(3) by simp
  have run: "trace_all M ?lg cs = Inr lg'" using Cons.prems(5) trace_after [OF Cons.prems(1,2) c] by simp
  note ring = trace_ring_facts [OF Cons.prems(1) c refl]
  have ring': "lg_ringBuffer ?lg = trace_ring M lg c" by (simp add: after_trace_def)
  have "\<not> isIndexRollingOver (rb_currentIndex ?rb)" using Cons.prems(4) by (simp add: isIndexRollingOver_unat)
  then have idx: "unat (rb_currentIndex (trace_ring M lg c)) = unat (rb_currentIndex ?rb) + call_size M c"
    and cnt: "rb_indexWrapAroundCount (trace_ring M lg c) = rb_indexWrapAroundCount ?rb"
    using ring(3) by (simp_all add: alloc_base_def trace_ring_def alloc_after_def Let_def)
  have ok: "log_ok ?lg" using ring(1,2) Cons.prems(1) by (simp add: log_ok_def ring')
  have last: "lg_bufLastWrittenIndex ?lg = rb_currentIndex (lg_ringBuffer ?lg)" by (simp add: after_trace_def)
  have "unat (rb_currentIndex (lg_ringBuffer lg')) = unat (rb_currentIndex (lg_ringBuffer ?lg)) + calls_size M cs \<and>
    rb_indexWrapAroundCount (lg_ringBuffer lg') = rb_indexWrapAroundCount (lg_ringBuffer ?lg) \<and>
    (cs \<noteq> [] \<longrightarrow> lg_bufLastWrittenIndex lg' = rb_currentIndex (lg_ringBuffer lg'))"
    using Cons.IH [OF ok Cons.prems(2) _ _ run] Cons.prems(3,4) idx by (simp add: ring' calls_size_def)
  moreover have "cs = [] \<Longrightarrow> lg' = ?lg" using run by simp
  ultimately show ?case using idx cnt last by (auto simp: ring' calls_size_def)
qed

section \<open>Trace, then dump\<close>

lemma Log_dump_records:
  assumes "log_holds M strf lg 0 rs ls" and "unat (rb_currentIndex (lg_ringBuffer lg)) = records_size rs"
    and "rb_indexWrapAroundCount (lg_ringBuffer lg) = 0" and "rs \<noteq> []"
    and "records_size rs < unat (rb_size (lg_ringBuffer lg))" and "length stack = 8192"
    and "dump_ready M strf lg x fs (length (concat ls))"
  shows "\<exists>lg' x' fs'. Log_dump M strf junk so buf0 stack lg out (Some x) fs False = Some (Inr (lg', out, x', fs')) \<and>
    after_dump lg (length rs) lg' \<and> stream_ok x' fs' \<and> flushed x' fs' \<and> stream_chunk x' = stream_chunk x \<and>
    obj_fileHandle x' = obj_fileHandle x \<and> stream_contents x' fs' = stream_contents x fs @ bytes_of (concat ls)"
proof -
  let ?rb = "lg_ringBuffer lg" and ?N = "unat (rb_size (lg_ringBuffer lg))"
  have wf: "rb_wf ?rb" "0 < ?N" using assms(1) unat_rb_cap [of ?rb] by (simp_all add: log_holds_def log_ok_def)
  have recs: "records_at ?rb 0 rs" "list_all2 (\<lambda>(h, img). prints_as M strf h img) rs (map bytes_of ls)"
    using assms(1) by (simp_all add: log_holds_def)
  have first: "firstLine lg = Inr (lg, 0)"
    using assms(2,3,5) by (simp add: firstLine_def RingBuffer_getCurrentIndex_def RingBuffer_hasWrappedAround_def word_le_nat_alt)
  let ?e = "rb_currentIndex ?rb mod rb_size ?rb"
  have e: "unat ?e = records_size rs" using assms(2,5) by (simp add: unat_mod)
  have pos: "0 < records_size rs" using assms(4) by (cases rs) auto
  then have e1: "unat (?e - 1) = records_size rs - 1"
    using e by (simp add: unat_sub_u32 word_le_nat_alt)
  have concat: "concat (map bytes_of ls) = bytes_of (concat ls)" by (induction ls) auto
  have len: "length (concat (map bytes_of ls)) = length (concat ls)" by (simp add: concat)
  have range: "\<exists>lg' x' fs' i. dumpRange M strf stack lg x fs 0 (?e - 1) False = Some (Inr (lg', x', fs', i)) \<and>
      unat i = unat (?e - 1) mod ?N + 1 \<and> after_dump lg (length rs) lg' \<and> appended x fs (concat (map bytes_of ls)) x' fs'"
  proof (rule dumpRange_records [OF _ assms(6) refl _ _ recs(2)])
    show "dump_ready M strf lg x fs (length (concat (map bytes_of ls)))" using assms(7) len by simp
    show "unat (0 :: u32) mod ?N + records_size rs = unat (?e - 1) mod ?N + 1" using e1 pos assms(5) by simp
    show "records_at ?rb (unat (0 :: u32) mod ?N) rs" using recs(1) by simp
  qed
  then obtain lg' x1 fs1 i where r: "dumpRange M strf stack lg x fs 0 (?e - 1) False = Some (Inr (lg', x1, fs1, i))"
      "after_dump lg (length rs) lg'" "appended x fs (bytes_of (concat ls)) x1 fs1"
    unfolding concat by blast
  have ap: "stream_ok x1 fs1" "stream_contents x1 fs1 = stream_contents x fs @ bytes_of (concat ls)"
    "obj_fileHandle x1 = obj_fileHandle x" "stream_chunk x1 = stream_chunk x" using r(3) by (simp_all add: appended_def)
  obtain x2 fs2 where f: "stream_flush x1 fs1 = Inr (x2, fs2, 0)" "stream_ok x2 fs2"
      "stream_contents x2 fs2 = stream_contents x1 fs1" "obj_fileHandle x2 = obj_fileHandle x1" "stream_chunk x2 = stream_chunk x1"
    using sink.flush_law [OF ap(1)] by blast
  have "flushed x2 fs2" by (rule stream_flush_flushed [OF ap(1) f(1)])
  moreover have "Log_dump M strf junk so buf0 stack lg out (Some x) fs False = Some (Inr (lg', out, x2, fs2))"
    using first r(1) f(1) wf by (simp add: Log_dump_def RingBuffer_getCurrentIndex_def)
  ultimately show ?thesis using r(2) f(2-5) ap(2-4) by auto
qed

section \<open>A concrete run\<close>

text \<open>A time-stamped call with arguments and a plain one, on a fresh log with a ring of 4096 bytes.\<close>

definition demo_mem :: cmem where
  "demo_mem = [1 \<mapsto> ''up'', 2 \<mapsto> ''%d %s'', 3 \<mapsto> ''bye'']"

definition demo_strf :: "u64 \<Rightarrow> string" where
  "demo_strf t = ''2020 Jan  1 00:00:05''"

definition demo_call :: call where
  "demo_call = \<lparr>ca_now = (5, 42), ca_withTs = True, ca_function = 0, ca_line = 12, ca_tag = 73, ca_format = 2,
     ca_args = [CInt 7, CPtr 1], ca_stack = replicate 4097 0\<rparr>"

definition plain_call :: call where
  "plain_call = \<lparr>ca_now = (5, 43), ca_withTs = False, ca_function = 0, ca_line = 13, ca_tag = 73, ca_format = 3,
     ca_args = [], ca_stack = replicate 4097 0\<rparr>"

definition demo_log :: log where
  "demo_log = zero_log\<lparr>lg_ringBuffer := RingBuffer_new zeroed_ring 4096 True\<rparr>"

definition demo_stream :: stream_obj where
  "demo_stream = PlainStream \<lparr>st_stats = zero_stats, st_fileHandle = 3\<rparr>"

definition demo_files :: files where
  "demo_files = [3 \<mapsto> empty_file 1000]"

lemma demo_mem_ok: "cmem_ok demo_mem"
  by (auto simp: cmem_ok_def c_string_def demo_mem_def)

lemma demo_strf_ok: "strf_ok demo_strf"
  by (simp add: strf_ok_def demo_strf_def)

lemma c_printf_demo: "c_printf demo_mem ''%d %s'' [CInt 7, CPtr 1] = Inr ''7 up''"
  by (simp add: c_printf.simps directive_length_def isdigit_simps c_format_def parse_directive_d parse_directive_s
      c_sprintf_digit pad_def deref_string_def demo_mem_def)

lemma arg_bytes_demo: "arg_bytes demo_mem ''%d %s'' [CInt 7, CPtr 1] = [7, 0, 0, 0, 117, 112, 0]"
  by (simp add: format_eval conv_image_def u32_bytes_def le_bytes_numeral byte_of_def demo_mem_def)

lemma parse_directive_uc:
  "parse_directive ''%u'' = \<lparr>pf_flags = '''', pf_width = 0, pf_prec = None, pf_len = '''', pf_conv = CHR ''u''\<rparr>"
  "parse_directive ''%c'' = \<lparr>pf_flags = '''', pf_width = 0, pf_prec = None, pf_len = '''', pf_conv = CHR ''c''\<rparr>"
  by (simp_all add: parse_directive_def isdigit_simps digits_val_def)

lemma demo_chars: "char_of (73 :: nat) = CHR ''I''" "replicate 7 (CHR ''0'') = ''0000000''"
proof -
  have "(of_char (CHR ''I'') :: nat) = 73" by simp
  then show "char_of (73 :: nat) = CHR ''I''" by (metis char_of_char)
  show "replicate 7 (CHR ''0'') = ''0000000''" by (simp add: numeral_eq_Suc)
qed

lemma c_printf_origin_demo:
  "c_printf M '':%u:%c:%u] '' [CInt 0, CInt 73, CInt 12] = Inr '':0:I:12] ''"
  by (simp add: c_printf.simps directive_length_def isdigit_simps c_format_def c_sprintf_def parse_directive_uc pad_def
      int_arg_def fmt_unsigned_def int_digits_def digits_of.simps digit_char_def demo_chars)

lemma nsec_text_demo: "nsec_text 42 = ''.000000042''"
  by (simp add: nsec_text_def fmt_signed_def nsec_spec_def pad_def sign_text_def int_digits_def digits_of.simps
      digit_char_def Let_def demo_chars)

lemma demo_call_ok: "call_ok demo_mem demo_call" "call_ok demo_mem plain_call"
  "call_size demo_mem demo_call = 71" "call_size demo_mem plain_call = 64"
proof -
  have m: "demo_mem 2 = Some ''%d %s''" "demo_mem 3 = Some ''bye''" by (simp_all add: demo_mem_def)
  have s: "call_size demo_mem demo_call = 71"
    by (simp add: call_size_def call_image_def demo_call_def m arg_bytes_demo)
  have s2: "call_size demo_mem plain_call = 64"
    by (simp add: call_size_def call_image_def plain_call_def m format_eval)
  show "call_size demo_mem demo_call = 71" by (rule s)
  show "call_size demo_mem plain_call = 64" by (rule s2)
  show "call_ok demo_mem demo_call"
    using s fmt_supported_example by (simp add: call_ok_def demo_call_def m c_printf_demo)
  show "call_ok demo_mem plain_call"
    using s2 by (simp add: call_ok_def plain_call_def m c_printf_simps format_eval)
qed

lemma demo_lines: "call_lines demo_mem demo_strf 0 [demo_call, plain_call] =
  Inr [''[2020 Jan  1 00:00:05.000000042:0:I:12] 7 up'', ''bye'']"
proof -
  have m: "demo_mem 2 = Some ''%d %s''" "demo_mem 3 = Some ''bye''" by (simp_all add: demo_mem_def)
  have "stamp_text demo_mem demo_strf (call_header demo_mem 0 0 demo_call) = Inr ''[2020 Jan  1 00:00:05.000000042:0:I:12] ''"
    using c_printf_origin_demo
    by (simp add: stamp_text_def stamp_tail_def call_header_def demo_call_def demo_strf_def nsec_text_demo)
  moreover have "stamp_text demo_mem demo_strf (call_header demo_mem 0 i plain_call) = Inr ''''" for i
    by (simp add: stamp_text_def call_header_def plain_call_def)
  ultimately show ?thesis
    by (simp add: call_line_def deref_string_def m c_printf_simps c_printf_demo demo_call_def plain_call_def)
qed

lemma plain_line: "call_lines demo_mem demo_strf 0 [plain_call] = Inr [''bye'']"
proof -
  have m: "demo_mem 3 = Some ''bye''" by (simp add: demo_mem_def)
  have "stamp_text demo_mem demo_strf (call_header demo_mem 0 i plain_call) = Inr ''''" for i
    by (simp add: stamp_text_def call_header_def plain_call_def)
  then show ?thesis by (simp add: call_line_def deref_string_def m c_printf_simps plain_call_def)
qed

lemma demo_log_fresh: "log_ok demo_log" "rb_currentIndex (lg_ringBuffer demo_log) = 0"
  "rb_indexWrapAroundCount (lg_ringBuffer demo_log) = 0" "unat (rb_size (lg_ringBuffer demo_log)) = 4096"
  "lg_globalId demo_log = 0"
  by (simp_all add: demo_log_def log_ok_def RingBuffer_new_ok zeroed_ring_def zero_log_def)

lemma demo_file_ok: "file_ok demo_files 3" "file_room demo_files 3 = 1000" "file_data demo_files 3 = []"
  by (simp_all add: demo_files_def file_ok_def file_room_def file_data_def empty_file_def)

lemma demo_stream_ok: "stream_ok demo_stream demo_files" "4096 \<le> stream_chunk demo_stream"
  "stream_room demo_stream demo_files = 1000" "stream_contents demo_stream demo_files = []" "obj_fileHandle demo_stream = 3"
  by (simp_all add: demo_stream_def demo_files_def stream_ok_def file_ok_def stream_room_def file_room_def
      stream_contents_def file_data_def empty_file_def)

text \<open>
  C1. Tracing and then dumping prints what printf would have printed. On a fresh log, one or more calls with supported
  formats whose records together are smaller than the ring are dumped, to a stream as \<^verbatim>\<open>Stream::create\<close> makes it
  whose device has the room, as exactly the lines of the calls (each up to 4096 characters), in order, each behind
  its stamp; after the flush they are on the device. Nothing is lost, repeated, reordered or cut, and no memory
  fault occurs on the way. Beyond these bounds the statement is false: a ring that has wrapped is printed to its
  end only, and a log without calls is dumped with a loss message.
\<close>

theorem trace_then_dump:
  assumes "log_ok lg" and "rb_currentIndex (lg_ringBuffer lg) = 0" and "rb_indexWrapAroundCount (lg_ringBuffer lg) = 0"
    and "cmem_ok M" and "\<forall>c \<in> set cs. call_ok M c" and "cs \<noteq> []" and "calls_size M cs < unat (rb_size (lg_ringBuffer lg))"
    and "call_lines M strf (lg_globalId lg) cs = Inr ls" and "\<forall>l \<in> set ls. length l \<le> 4096" and "strf_ok strf"
    and "file_ok fs (st_fileHandle st)" and "length (concat ls) \<le> file_room fs (st_fileHandle st)" and "length stack = 8192"
  shows "\<exists>lg1 lg2 x' fs'. trace_all M lg cs = Inr lg1 \<and>
    Log_dump M strf junk so buf0 stack lg1 out (Some (PlainStream st)) fs False = Some (Inr (lg2, out, x', fs')) \<and>
    lg_ringBuffer lg2 = lg_ringBuffer lg1 \<and> file_ok fs' (st_fileHandle st) \<and>
    on_device fs' (st_fileHandle st) = file_data fs (st_fileHandle st) @ bytes_of (concat ls)"
proof -
  let ?x = "PlainStream st"
  have x: "stream_ok ?x fs" "4096 \<le> stream_chunk ?x" "length (concat ls) \<le> stream_room ?x fs" "stream_chunk ?x = 2 ^ 32"
    using assms(11,12) by (simp_all add: stream_ok_def stream_room_def)
  have start: "log_holds M strf lg 0 [] []" using assms(1,2) by (simp add: log_holds_def)
  obtain lg1 rs where t: "trace_all M lg cs = Inr lg1" "log_holds M strf lg1 0 rs ls" "records_size rs = calls_size M cs"
      "rb_size (lg_ringBuffer lg1) = rb_size (lg_ringBuffer lg)"
    using trace_all_holds [OF start assms(4,5,8,9)] assms(7) by auto
  have N: "unat (rb_size (lg_ringBuffer lg)) \<le> 2147483648" using assms(1) by (simp add: log_ok_def rb_ok_def)
  have idx: "unat (rb_currentIndex (lg_ringBuffer lg1)) = records_size rs" "rb_indexWrapAroundCount (lg_ringBuffer lg1) = 0"
    using trace_all_index [OF assms(1,4,5) _ t(1)] assms(2,3,7) N t(3) by simp_all
  have "rs \<noteq> []" using t(3) assms(6) by (cases cs) (auto simp: calls_size_def call_size_def)
  moreover have "dump_ready M strf lg1 ?x fs (length (concat ls))"
    using t(2) assms(4,10) x by (simp add: dump_ready_def log_holds_def)
  moreover have "records_size rs < unat (rb_size (lg_ringBuffer lg1))" using t(3,4) assms(7) by simp
  ultimately obtain lg2 x' fs' where d: "Log_dump M strf junk so buf0 stack lg1 out (Some ?x) fs False = Some (Inr (lg2, out, x', fs'))"
      "after_dump lg1 (length rs) lg2" "stream_ok x' fs'" "flushed x' fs'" "stream_chunk x' = 2 ^ 32" "obj_fileHandle x' = st_fileHandle st"
      "stream_contents x' fs' = stream_contents ?x fs @ bytes_of (concat ls)"
    using Log_dump_records [OF t(2) idx _ _ assms(13), of ?x fs junk so buf0 out] by auto
  have "on_device fs' (st_fileHandle st) = file_data fs (st_fileHandle st) @ bytes_of (concat ls)"
    using flushed_device [OF d(4,5)] d(6,7) by (simp add: stream_contents_def)
  moreover have "file_ok fs' (st_fileHandle st)" using d(3,6) by (simp add: stream_ok_def)
  ultimately show ?thesis using t(1) d(1) after_dump_fields(1) [OF d(2)] by blast
qed

theorem trace_then_dump_witness:
  "\<exists>lg1 lg2 x' fs'. trace_all demo_mem demo_log [demo_call, plain_call] = Inr lg1 \<and>
    Log_dump demo_mem demo_strf zero_stats 1 [] (replicate 8192 0) lg1 None (Some demo_stream) demo_files False =
      Some (Inr (lg2, None, x', fs')) \<and>
    on_device fs' 3 = bytes_of ''[2020 Jan  1 00:00:05.000000042:0:I:12] 7 upbye''"
  using trace_then_dump [OF demo_log_fresh(1-3) demo_mem_ok, of "[demo_call, plain_call]" demo_strf
      "[''[2020 Jan  1 00:00:05.000000042:0:I:12] 7 up'', ''bye'']" demo_files "\<lparr>st_stats = zero_stats, st_fileHandle = 3\<rparr>"
      "replicate 8192 0" zero_stats 1 "[]" None]
    demo_call_ok demo_lines demo_strf_ok demo_file_ok demo_log_fresh(4,5)
  by (auto simp: calls_size_def demo_stream_def)

section \<open>Identifiers are unique\<close>

text \<open>The rank of an id among those that are no pattern: \<open>next_id\<close> goes round them one by one.\<close>

definition id_rank :: "u32 \<Rightarrow> nat" where
  "id_rank i = unat i - (if START_PATTERN < i then 1 else 0) - (if END_PATTERN < i then 1 else 0)"

definition pattern_free :: "u32 \<Rightarrow> bool" where
  "pattern_free i \<longleftrightarrow> i \<noteq> START_PATTERN \<and> i \<noteq> END_PATTERN"



lemma next_id_pattern_free: "pattern_free (next_id i)"
proof (rule ccontr)
  assume "\<not> pattern_free (next_id i)"
  then have "i + 2 = START_PATTERN \<or> i + 2 = END_PATTERN" "i + 1 = START_PATTERN \<or> i + 1 = END_PATTERN"
    by (auto simp: pattern_free_def next_id_def split: if_splits)
  then have "(i + 1) + 1 = START_PATTERN \<or> (i + 1) + 1 = END_PATTERN" by (simp add: add.assoc)
  then show False using \<open>i + 1 = START_PATTERN \<or> i + 1 = END_PATTERN\<close> by (auto simp: START_PATTERN_def END_PATTERN_def)
qed

lemma unat_next_id: "unat (next_id i) =
  (if unat i = 3203267277 then 3203267279 else if unat i = 4208901870 then 4208901872
   else if unat i = 4294967295 then 0 else unat i + 1)"
proof -
  have one: "unat (i + 1) = (if unat i = 4294967295 then 0 else unat i + 1)"
    using unat_u32_bound [of i] by (auto simp: unat_add_u32)
  have two: "unat (i + 2) = unat i + 2" if "unat i < 4294967294" using that by (simp add: unat_add_u32)
  have start: "i + 1 = START_PATTERN \<longleftrightarrow> unat i = 3203267277" and stop: "i + 1 = END_PATTERN \<longleftrightarrow> unat i = 4208901870"
    unfolding word_unat_eq_iff one by (auto simp: START_PATTERN_def END_PATTERN_def)
  show ?thesis unfolding next_id_def start stop using one two by simp
qed

lemma id_rank_unat: "id_rank i = unat i - (if 3203267278 < unat i then 1 else 0) - (if 4208901871 < unat i then 1 else 0)"
  by (simp add: id_rank_def START_PATTERN_def END_PATTERN_def word_less_nat_alt)

lemma id_rank_next:
  assumes "pattern_free i"
  shows "id_rank (next_id i) = (id_rank i + 1) mod 4294967294"
proof -
  have "unat i \<noteq> 3203267278" "unat i \<noteq> 4208901871"
    using assms by (auto simp: pattern_free_def START_PATTERN_def END_PATTERN_def word_unat_eq_iff)
  moreover have "unat i \<le> 4294967295" using unat_u32_bound [of i] by linarith
  ultimately consider "unat i < 3203267277" | "unat i = 3203267277" | "3203267278 < unat i" "unat i < 4208901870"
    | "unat i = 4208901870" | "4208901871 < unat i" "unat i < 4294967295" | "unat i = 4294967295"
    by linarith
  then show ?thesis unfolding id_rank_unat unat_next_id by cases simp_all
qed

text \<open>The ids that a run of \<^verbatim>\<open>allocateId\<close> hands out.\<close>

fun allocateIds :: "nat \<Rightarrow> log \<Rightarrow> u32 list" where
  "allocateIds 0 lg = []"
| "allocateIds (Suc n) lg = (let (lg', ident) = allocateId lg in ident # allocateIds n lg')"

lemma allocateIds_rank:
  assumes "pattern_free (lg_globalId lg)"
  shows "list_all pattern_free (allocateIds n lg) \<and>
    map id_rank (allocateIds n lg) = map (\<lambda>k. (id_rank (lg_globalId lg) + k) mod 4294967294) [0..<n]"
  using assms
proof (induction n arbitrary: lg)
  case (Suc n)
  let ?r = "id_rank (lg_globalId lg)" and ?m = "4294967294 :: nat"
  have rank: "?r < ?m"
  proof -
    have "unat (lg_globalId lg) \<le> 4294967295" using unat_u32_bound [of "lg_globalId lg"] by linarith
    then show ?thesis unfolding id_rank_unat by (auto simp del: One_nat_def)
  qed
  have "map (\<lambda>k. (id_rank (next_id (lg_globalId lg)) + k) mod ?m) [0..<n] = map (\<lambda>k. (?r + k) mod ?m) (map Suc [0..<n])"
    unfolding id_rank_next [OF Suc.prems] by (simp add: mod_add_left_eq)
  then have "map (\<lambda>k. (id_rank (next_id (lg_globalId lg)) + k) mod ?m) [0..<n] = map (\<lambda>k. (?r + k) mod ?m) [1..<Suc n]"
    by (simp only: map_Suc_upt One_nat_def)
  then show ?case
    using Suc.IH [of "lg\<lparr>lg_globalId := next_id (lg_globalId lg)\<rparr>"] Suc.prems next_id_pattern_free [of "lg_globalId lg"] rank
    by (simp add: allocateId_eq upt_conv_Cons del: upt_Suc)
qed simp

text \<open>
  C14. \<^verbatim>\<open>allocateId\<close> hands out every id once before one comes again: from an id that is no pattern, the next
  \<open>2 ^ 32 - 2\<close> ids or fewer are pairwise distinct, also when the counter wraps round, and none of them is the
  start or the end pattern.
\<close>

theorem allocateId_unique:
  assumes "lg_globalId lg \<noteq> START_PATTERN" and "lg_globalId lg \<noteq> END_PATTERN" and "n \<le> 2 ^ 32 - 2"
  shows "distinct (allocateIds n lg) \<and> START_PATTERN \<notin> set (allocateIds n lg) \<and> END_PATTERN \<notin> set (allocateIds n lg)"
proof -
  let ?r = "id_rank (lg_globalId lg)" and ?m = "4294967294 :: nat"
  note ids = allocateIds_rank [of lg n]
  have pf: "pattern_free (lg_globalId lg)" using assms(1,2) by (simp add: pattern_free_def)
  have inj: "inj_on (\<lambda>k. (?r + k) mod ?m) {0..<n}"
  proof (rule linorder_inj_onI)
    fix j k assume "j < k" "j \<in> {0..<n}" "k \<in> {0..<n}"
    then have "\<not> ?m dvd k - j" using assms(3) by (auto dest: dvd_imp_le)
    then show "(?r + j) mod ?m \<noteq> (?r + k) mod ?m" using \<open>j < k\<close> mod_eq_dvd_iff_nat [of "?r + j" "?r + k" ?m] by auto
  qed auto
  have "distinct (map id_rank (allocateIds n lg))" using ids pf inj by (simp add: distinct_map)
  moreover have "\<forall>i \<in> set (allocateIds n lg). pattern_free i" using ids pf by (simp add: list_all_iff)
  ultimately show ?thesis by (auto simp: distinct_map pattern_free_def)
qed

theorem allocateId_unique_witness:
  "distinct (allocateIds 3 (zero_log\<lparr>lg_globalId := 4294967295\<rparr>)) \<and> allocateIds 3 (zero_log\<lparr>lg_globalId := 4294967295\<rparr>) = [4294967295, 0, 1]"
proof -
  have "distinct (allocateIds 3 (zero_log\<lparr>lg_globalId := 4294967295\<rparr>))"
    using allocateId_unique [of "zero_log\<lparr>lg_globalId := 4294967295\<rparr>" 3] by (simp add: START_PATTERN_def END_PATTERN_def)
  then show ?thesis by (simp add: numeral_3_eq_3 allocateId_def START_PATTERN_def END_PATTERN_def)
qed

end
