(* ===== verification/Collector.thy ===== *)
theory Collector
  imports Log_Trace Log_Discard
begin

text \<open>
  \<^verbatim>\<open>Log::Collect\<close> (collector.cpp): the bookmark up to which the ring has been printed, the decision to print, the
  worker thread, and the constructors, destructors and \<^verbatim>\<open>printState\<close> of log.cpp that tie log and collector together.

  A dump is one step of a thread: the ring is at rest while it runs. What other threads do happens between the
  steps of the worker; \<^verbatim>\<open>collect\<close> is a pass over the records and the store of the bookmark, so that two of them can overlap.
\<close>

section \<open>State\<close>

definition DEFAULT_BUFFER_THRESHOLD_PCT :: u32 where
  "DEFAULT_BUFFER_THRESHOLD_PCT = 0"

definition SLEEP_USEC :: u32 where
  "SLEEP_USEC = 100000"

definition FLUSH_IN_SEC :: u32 where
  "FLUSH_IN_SEC = 10"

record collect =
  cl_collectorThread :: u64
  cl_collectorBookmark :: u32
  cl_bufferThresholdPct :: u32
  cl_prevCollectRangeStart :: u32
  cl_prevCollectRangeEnd :: u32
  cl_enable :: bool
  cl_streamLastFlush :: u32
  cl_lastFlushCounter :: u32

text \<open>A collector with the log it belongs to and the open files.\<close>

record system =
  sy_collect :: collect
  sy_log :: log
  sy_files :: files

definition upd_collect :: "(collect \<Rightarrow> collect) \<Rightarrow> system \<Rightarrow> system" where
  "upd_collect f s = s\<lparr>sy_collect := f (sy_collect s)\<rparr>"

definition log_getStream :: "system \<Rightarrow> stream_obj" where
  "log_getStream s = lg_stream (sy_log s)"

text \<open>\<^verbatim>\<open>log_->getStream()->flush()\<close>.\<close>

definition flush_log_stream :: "system \<Rightarrow> system result" where
  "flush_log_stream s =
     bindE (stream_flush (log_getStream s) (sy_files s)) (\<lambda>(x, fs, r).
       Inr (s\<lparr>sy_log := (sy_log s)\<lparr>lg_stream := x\<rparr>, sy_files := fs\<rparr>))"

section \<open>Operations\<close>

definition Collect_idle :: "system \<Rightarrow> system result" where
  "Collect_idle s =
     (let s1 = upd_collect (\<lambda>c. c\<lparr>cl_lastFlushCounter := cl_lastFlushCounter c + 1\<rparr>) s in
      if cl_lastFlushCounter (sy_collect s1) > (FLUSH_IN_SEC * 1000000) div SLEEP_USEC
      then bindE (flush_log_stream s1) (\<lambda>s2. Inr (upd_collect (\<lambda>c. c\<lparr>cl_lastFlushCounter := 0\<rparr>) s2))
      else Inr s1)"

definition Collect_resetBookmark :: "system \<Rightarrow> system" where
  "Collect_resetBookmark s = upd_collect (\<lambda>c. c\<lparr>cl_collectorBookmark := getLastWrittenIndex (sy_log s)\<rparr>) s"

definition Collect_setBufferThresholdPct :: "u32 \<Rightarrow> system \<Rightarrow> system" where
  "Collect_setBufferThresholdPct v s =
     (if cl_bufferThresholdPct (sy_collect s) = v then s else upd_collect (\<lambda>c. c\<lparr>cl_bufferThresholdPct := v\<rparr>) s)"

definition Collect_getBufferThreshold :: "system \<Rightarrow> u32" where
  "Collect_getBufferThreshold s = (cl_bufferThresholdPct (sy_collect s) * rb_size (lg_ringBuffer (sy_log s))) div 100"

definition Collect_getEnable :: "system \<Rightarrow> bool" where
  "Collect_getEnable s = cl_enable (sy_collect s)"

text \<open>One call of \<^verbatim>\<open>dumpRange\<close> on the log's own stream, and the range noted for \<^verbatim>\<open>dumpState\<close>.\<close>

definition collect_range ::
  "cmem \<Rightarrow> (u64 \<Rightarrow> string) \<Rightarrow> u8 list \<Rightarrow> u32 \<Rightarrow> u32 \<Rightarrow> u32 \<Rightarrow> u32 \<Rightarrow> system \<Rightarrow> (system \<times> u32) result option" where
  "collect_range M strf stack prev_start prev_end start e s =
     (let s1 = upd_collect (\<lambda>c. c\<lparr>cl_prevCollectRangeStart := prev_start, cl_prevCollectRangeEnd := prev_end\<rparr>) s in
      bindT (dumpRange M strf stack (sy_log s1) (log_getStream s1) (sy_files s1) start e True) (\<lambda>(lg, x, fs, i).
        Some (Inr (s1\<lparr>sy_log := lg\<lparr>lg_stream := x\<rparr>, sy_files := fs\<rparr>, i))))"

text \<open>
  \<^verbatim>\<open>collect\<close> up to the assignment of \<^verbatim>\<open>collectorBookmark_\<close> at its end, with the value assigned. Two threads can be in
  \<^verbatim>\<open>collect\<close> at once, the worker and the caller of \<^verbatim>\<open>setEnable(false)\<close>, so the assignment is a step of its own.
  \<open>stack1\<close> and \<open>stack2\<close> are what \<^verbatim>\<open>traceBuffer\<close> holds when the calls of \<^verbatim>\<open>dumpRange\<close> start.
\<close>

definition collect_pass ::
  "cmem \<Rightarrow> (u64 \<Rightarrow> string) \<Rightarrow> u8 list \<Rightarrow> u8 list \<Rightarrow> system \<Rightarrow> (system \<times> u32) result option" where
  "collect_pass M strf stack1 stack2 s =
     (let bookmarkEnd = getLastWrittenIndex (sy_log s); bookmark = cl_collectorBookmark (sy_collect s);
          rb = lg_ringBuffer (sy_log s)
      in bindT (Some (bindE (RingBuffer_normalize rb bookmark) (\<lambda>b.
                      bindE (RingBuffer_normalize rb bookmarkEnd) (\<lambda>e. Inr (b, e))))) (\<lambda>(b, e).
         if b = e then Some (Inr (s, bookmarkEnd))
         else if b < e
         then collect_range M strf stack1 bookmark bookmarkEnd bookmark (bookmarkEnd - 1) s
         else let rangeEnd = bookmarkEnd in
           bindT (collect_range M strf stack1 bookmark (rb_size rb) bookmark (rb_size rb - 1) s) (\<lambda>(s1, i).
           collect_range M strf stack2 0 rangeEnd 0 (rangeEnd - 1) s1)))"

definition collect_store :: "u32 \<Rightarrow> system \<Rightarrow> system" where
  "collect_store bookmarkEnd s = upd_collect (\<lambda>c. c\<lparr>cl_collectorBookmark := bookmarkEnd\<rparr>) s"

definition Collect_collect ::
  "cmem \<Rightarrow> (u64 \<Rightarrow> string) \<Rightarrow> u8 list \<Rightarrow> u8 list \<Rightarrow> system \<Rightarrow> (system \<times> u32) result option" where
  "Collect_collect M strf stack1 stack2 s =
     bindT (collect_pass M strf stack1 stack2 s) (\<lambda>(s', bookmarkEnd). Some (Inr (collect_store bookmarkEnd s', bookmarkEnd)))"

definition Collect_shallCollect :: "system \<Rightarrow> bool result" where
  "Collect_shallCollect s =
     (let rb = lg_ringBuffer (sy_log s) in
      bindE (RingBuffer_normalize rb (getLastWrittenIndex (sy_log s))) (\<lambda>written.
      bindE (RingBuffer_normalize rb (cl_collectorBookmark (sy_collect s))) (\<lambda>bookmark.
      if written = bookmark then Inr False
      else if written - bookmark > Collect_getBufferThreshold s then Inr True
      else
        bindE (RingBuffer_normalize rb 0xffffffff) (\<lambda>top.
          let sizeBlockEnd = top - bookmark; sizeBlockStart = written
          in Inr (sizeBlockEnd + sizeBlockStart > Collect_getBufferThreshold s)))))"

definition Collect_flush :: "cmem \<Rightarrow> (u64 \<Rightarrow> string) \<Rightarrow> u8 list \<Rightarrow> u8 list \<Rightarrow> system \<Rightarrow> system result option" where
  "Collect_flush M strf stack1 stack2 s =
     bindT (Collect_collect M strf stack1 stack2 s) (\<lambda>(s1, i). Some (flush_log_stream s1))"

text \<open>
  \<^verbatim>\<open>setEnable\<close>. \<open>create\<close> is what \<^verbatim>\<open>pthread_create\<close> delivers, \<open>None\<close> when it fails; \<open>join\<close> is \<^verbatim>\<open>pthread_join\<close>: what the
  worker still does until it has returned.
\<close>

definition Collect_setEnable ::
  "cmem \<Rightarrow> (u64 \<Rightarrow> string) \<Rightarrow> u8 list \<Rightarrow> u8 list \<Rightarrow> u64 option \<Rightarrow> (system \<Rightarrow> system result option) \<Rightarrow> bool \<Rightarrow> system \<Rightarrow>
   system result option" where
  "Collect_setEnable M strf stack1 stack2 create join enabled s =
     (if enabled = cl_enable (sy_collect s) then Some (Inr s)
      else if enabled
      then (let s1 = upd_collect (\<lambda>c. c\<lparr>cl_enable := enabled\<rparr>) (Collect_resetBookmark s) in
            case create of
              None \<Rightarrow> Some (Inl Thrown)
            | Some tid \<Rightarrow> Some (Inr (upd_collect (\<lambda>c. c\<lparr>cl_collectorThread := tid\<rparr>) s1)))
      else bindT (Collect_flush M strf stack1 stack2 s) (\<lambda>s1. join (upd_collect (\<lambda>c. c\<lparr>cl_enable := enabled\<rparr>) s1)))"

section \<open>The worker thread\<close>

definition worker_round :: "cmem \<Rightarrow> (u64 \<Rightarrow> string) \<Rightarrow> u8 list \<Rightarrow> u8 list \<Rightarrow> system \<Rightarrow> system result option" where
  "worker_round M strf stack1 stack2 s =
     bindT (Some (if Collect_getEnable s then Collect_shallCollect s else Inr False)) (\<lambda>go.
       if go then bindT (Collect_collect M strf stack1 stack2 s) (\<lambda>(s', i). Some (Inr s'))
       else Some (Collect_idle s))"

text \<open>
  The loop. \<open>others k\<close> is what the other threads do before the \<open>k\<close>-th time \<^verbatim>\<open>enable_\<close> is read: the \<open>n\<close>-th round reads it
  twice. \<open>None\<close> is a worker that never returns.
\<close>

partial_function (option) Collect_workerThread ::
  "cmem \<Rightarrow> (u64 \<Rightarrow> string) \<Rightarrow> (nat \<Rightarrow> u8 list) \<Rightarrow> (nat \<Rightarrow> system \<Rightarrow> system result option) \<Rightarrow> nat \<Rightarrow> system \<Rightarrow>
   system result option" where
  "Collect_workerThread M strf stacks others n s =
     (case others (2 * n) s of
        None \<Rightarrow> None
      | Some (Inl f) \<Rightarrow> Some (Inl f)
      | Some (Inr s1) \<Rightarrow>
          if \<not> Collect_getEnable s1 then Collect_flush M strf (stacks (2 * n)) (stacks (2 * n + 1)) s1
          else case bindT (others (2 * n + 1) s1) (worker_round M strf (stacks (2 * n)) (stacks (2 * n + 1))) of
            None \<Rightarrow> None
          | Some (Inl f) \<Rightarrow> Some (Inl f)
          | Some (Inr s2) \<Rightarrow> Collect_workerThread M strf stacks others (Suc n) s2)"

definition Collect_executeWorkerThread ::
  "cmem \<Rightarrow> (u64 \<Rightarrow> string) \<Rightarrow> (nat \<Rightarrow> u8 list) \<Rightarrow> (nat \<Rightarrow> system \<Rightarrow> system result option) \<Rightarrow> system \<Rightarrow>
   system result option" where
  "Collect_executeWorkerThread M strf stacks others s = Collect_workerThread M strf stacks others 0 s"

section \<open>State dumps\<close>

definition collect_lines :: "collect \<Rightarrow> string list" where
  "collect_lines c =
     [''Collector State:'' @ nl,
      ''Bookmark: '' @ u_text (cl_collectorBookmark c) @ nl,
      ''buffer threshold pct: '' @ u_text (cl_bufferThresholdPct c) @ nl,
      ''Enabled: '' @ u_text (if cl_enable c then 1 else 0) @ nl,
      ''Prev collect range start: '' @ u_text (cl_prevCollectRangeStart c) @ nl,
      ''Prev collect range end: '' @ u_text (cl_prevCollectRangeEnd c) @ nl]"

definition Collect_dumpState :: "collect \<Rightarrow> u8 list \<Rightarrow> int \<Rightarrow> u8 list result" where
  "Collect_dumpState c buffer bufferLen = bindE (sprintf_lines buffer 0 (collect_lines c)) (\<lambda>(b, pos). Inr b)"

text \<open>\<^verbatim>\<open>printf("\n%s\n", b)\<close> on the standard output \<open>so\<close>.\<close>

definition print_block :: "files \<Rightarrow> u64 \<Rightarrow> u8 list \<Rightarrow> files result" where
  "print_block fs so b =
     bindE (c_strlen b 0) (\<lambda>n. bindE (fwrite fs so (bytes_of nl @ take n b @ bytes_of nl)) (\<lambda>(fs', k, e). Inr fs'))"

definition Log_printState :: "u64 \<Rightarrow> u8 list \<Rightarrow> u8 list \<Rightarrow> system \<Rightarrow> system result" where
  "Log_printState so state0 collectorState0 s =
     bindE (Log_dumpState (sy_log s) state0 1000) (\<lambda>state1.
     bindE (print_block (sy_files s) so state1) (\<lambda>fs1.
     bindE (Collect_dumpState (sy_collect s) collectorState0 1000) (\<lambda>collectorState.
     bindE (print_block fs1 so collectorState) (\<lambda>fs2.
     bindE (stream_dumpState (lg_stream (sy_log s)) state1 1000) (\<lambda>state2.
     bindE (print_block fs2 so state2) (\<lambda>fs3. Inr (s\<lparr>sy_files := fs3\<rparr>)))))))"

section \<open>Construction and destruction\<close>

text \<open>The constructor of \<^verbatim>\<open>Collect\<close>: the members it does not name keep what \<open>junk\<close> held, \<^verbatim>\<open>enable_\<close> among them.\<close>

definition Collect_new ::
  "cmem \<Rightarrow> (u64 \<Rightarrow> string) \<Rightarrow> u8 list \<Rightarrow> u8 list \<Rightarrow> u64 option \<Rightarrow> (system \<Rightarrow> system result option) \<Rightarrow> collect \<Rightarrow>
   log \<Rightarrow> files \<Rightarrow> bool \<Rightarrow> system result option" where
  "Collect_new M strf stack1 stack2 create join junk lg fs enable =
     Collect_setEnable M strf stack1 stack2 create join enable
       \<lparr>sy_collect = junk\<lparr>cl_bufferThresholdPct := DEFAULT_BUFFER_THRESHOLD_PCT\<rparr>, sy_log = lg, sy_files = fs\<rparr>"

definition Collect_destroy ::
  "cmem \<Rightarrow> (u64 \<Rightarrow> string) \<Rightarrow> u8 list \<Rightarrow> u8 list \<Rightarrow> (system \<Rightarrow> system result option) \<Rightarrow> system \<Rightarrow> system result option" where
  "Collect_destroy M strf stack1 stack2 join s = Collect_setEnable M strf stack1 stack2 None join False s"

text \<open>
  What the constructor of \<^verbatim>\<open>Log\<close> finds: the contents of the memory its members do not initialise, the standard
  streams, and the outcomes of opening and reopening files.
\<close>

record surroundings =
  sr_log :: log
  sr_ring :: ringbuffer
  sr_stats :: stream_stats
  sr_collect :: collect
  sr_stdout :: u64
  sr_stderr :: u64
  sr_fopen :: opened
  sr_reopen_out :: "cfile option"
  sr_reopen_err :: "cfile option"
  sr_files :: files

definition Log_new ::
  "cmem \<Rightarrow> (u64 \<Rightarrow> string) \<Rightarrow> u8 list \<Rightarrow> u8 list \<Rightarrow> u64 option \<Rightarrow> (system \<Rightarrow> system result option) \<Rightarrow> surroundings \<Rightarrow>
   string \<Rightarrow> u32 \<Rightarrow> bool \<Rightarrow> bool \<Rightarrow> system result option" where
  "Log_new M strf stack1 stack2 create join sr filename sz enableCollect redirectStd =
     (let lg0 = (sr_log sr)\<lparr>lg_marker := LOG_MARKER, lg_version := LOG_VERSION, lg_ringBuffer := RingBuffer_new (sr_ring sr) sz True,
                  lg_redirectStd := redirectStd, lg_stringFormat := \<lparr>sf_getStringCorruptedCount = 0\<rparr>,
                  lg_filename := c_strncpy 1000 filename\<rparr>;
          (lg1, fs1, fileHandle) = createTracefile (sr_stdout sr) (sr_stderr sr) (sr_fopen sr) (sr_reopen_out sr) (sr_reopen_err sr)
                                     lg0 (sr_files sr) redirectStd;
          lg2 = lg1\<lparr>lg_fileHandle := fileHandle\<rparr>
      in bindT (Some (Stream_create (sr_stats sr) 0 fs1 fileHandle UNCOMPRESSED)) (\<lambda>(x, fs2).
           case x of
             None \<Rightarrow> Some (Inl NullDeref)
           | Some st \<Rightarrow> Collect_new M strf stack1 stack2 create join (sr_collect sr) (lg2\<lparr>lg_stream := st\<rparr>) fs2 enableCollect))"

text \<open>The body of \<^verbatim>\<open>~Log\<close>.\<close>

definition Log_close ::
  "cmem \<Rightarrow> (u64 \<Rightarrow> string) \<Rightarrow> u8 list \<Rightarrow> u8 list \<Rightarrow> (system \<Rightarrow> system result option) \<Rightarrow> system \<Rightarrow> system result option" where
  "Log_close M strf stack1 stack2 join s =
     bindT (Collect_setEnable M strf stack1 stack2 None join False s) (\<lambda>s1.
       let p = lg_fileHandle (sy_log s1) in
       Some (if p \<noteq> 0
             then bindE (fflush (sy_files s1) p) (\<lambda>(fs1, r).
                  bindE (fclose fs1 p) (\<lambda>fs2. Inr (s1\<lparr>sy_log := (sy_log s1)\<lparr>lg_fileHandle := 0\<rparr>, sy_files := fs2\<rparr>)))
             else Inr s1))"

text \<open>Then the members are destroyed, the last declared first: the stream, the ring, the collector.\<close>

definition Log_destroy ::
  "cmem \<Rightarrow> (u64 \<Rightarrow> string) \<Rightarrow> u8 list \<Rightarrow> u8 list \<Rightarrow> (system \<Rightarrow> system result option) \<Rightarrow> system \<Rightarrow> system result option" where
  "Log_destroy M strf stack1 stack2 join s =
     bindT (Log_close M strf stack1 stack2 join s) (\<lambda>s1.
     bindT (Some (Stream_destroy (lg_stream (sy_log s1)) (sy_files s1))) (\<lambda>fs1.
     let lg = (sy_log s1)\<lparr>lg_ringBuffer := RingBuffer_destroy (lg_ringBuffer (sy_log s1))\<rparr>
     in Collect_destroy M strf stack1 stack2 join (s1\<lparr>sy_log := lg, sy_files := fs1\<rparr>)))"

end
