(* ===== verification/Collector_Correct.thy ===== *)
theory Collector_Correct
  imports Collector
begin

text \<open>
  What the collector prints: each record once while the ring has not wrapped, with the worker thread running
  between the calls, and what goes wrong at the end of the ring.
\<close>

section \<open>Printing from the log's own stream\<close>

definition sys_contents :: "system \<Rightarrow> u8 list" where
  "sys_contents s = stream_contents (lg_stream (sy_log s)) (sy_files s)"

definition sys_ready :: "cmem \<Rightarrow> (u64 \<Rightarrow> string) \<Rightarrow> system \<Rightarrow> nat \<Rightarrow> bool" where
  "sys_ready M strf s n \<longleftrightarrow> dump_ready M strf (sy_log s) (lg_stream (sy_log s)) (sy_files s) n"

text \<open>From \<open>s\<close> to \<open>s'\<close>, \<open>k\<close> records were counted and \<open>out\<close> went to the stream.\<close>

definition sys_wrote :: "system \<Rightarrow> nat \<Rightarrow> u8 list \<Rightarrow> system \<Rightarrow> bool" where
  "sys_wrote s k out s' \<longleftrightarrow>
     dump_wrote (sy_log s) (lg_stream (sy_log s)) (sy_files s) k out
       ((sy_log s')\<lparr>lg_stream := lg_stream (sy_log s)\<rparr>) (lg_stream (sy_log s')) (sy_files s') \<and>
     cl_enable (sy_collect s') = cl_enable (sy_collect s) \<and>
     cl_bufferThresholdPct (sy_collect s') = cl_bufferThresholdPct (sy_collect s)"

lemma sys_wrote_fields:
  assumes "sys_wrote s k out s'"
  shows "lg_ringBuffer (sy_log s') = lg_ringBuffer (sy_log s)"
    and "lg_bufLastWrittenIndex (sy_log s') = lg_bufLastWrittenIndex (sy_log s)"
    and "lg_globalId (sy_log s') = lg_globalId (sy_log s)"
    and "lg_fileHandle (sy_log s') = lg_fileHandle (sy_log s)"
    and "log_ok (sy_log s') = log_ok (sy_log s)"
    and "sys_contents s' = sys_contents s @ out"
    and "lg_collectCount (sy_log s') = lg_collectCount (sy_log s) + word_of_nat k"
    and "obj_fileHandle (lg_stream (sy_log s')) = obj_fileHandle (lg_stream (sy_log s))"
    and "cl_enable (sy_collect s') = cl_enable (sy_collect s)"
    and "cl_bufferThresholdPct (sy_collect s') = cl_bufferThresholdPct (sy_collect s)"
    and "stream_chunk (lg_stream (sy_log s')) = stream_chunk (lg_stream (sy_log s))"
  using assms by (simp_all add: sys_wrote_def dump_wrote_def lg_core_def log_ok_def appended_def sys_contents_def)

lemma sys_wrote_ready: "sys_wrote s k out s' \<Longrightarrow> sys_ready M strf s (length out + n) \<Longrightarrow> sys_ready M strf s' n"
  by (auto simp: sys_wrote_def sys_ready_def dump_ready_def dump_wrote_def appended_def lg_core_def log_ok_def)

lemma sys_wrote_trans: "sys_wrote s k out s1 \<Longrightarrow> sys_wrote s1 m out' s2 \<Longrightarrow> sys_wrote s (k + m) (out @ out') s2"
  unfolding sys_wrote_def dump_wrote_def
  by (auto simp: lg_core_def add.assoc intro: appended_trans)

lemma sys_wrote_refl: "sys_ready M strf s n \<Longrightarrow> sys_wrote s 0 [] s"
  by (simp add: sys_ready_def dump_ready_def sys_wrote_def dump_wrote_def appended_refl lg_core_def)

lemma sys_wrote_collect [simp]:
  assumes "cl_enable (f (sy_collect s')) = cl_enable (sy_collect s')"
    and "cl_bufferThresholdPct (f (sy_collect s')) = cl_bufferThresholdPct (sy_collect s')"
  shows "sys_wrote s k out (upd_collect f s') = sys_wrote s k out s'"
  using assms by (simp add: sys_wrote_def upd_collect_def)

lemma collect_range_wrote:
  assumes "dumpRange M strf stack (sy_log s) (lg_stream (sy_log s)) (sy_files s) start e True = Some (Inr (lg', x', fs', i))"
    and "dump_wrote (sy_log s) (lg_stream (sy_log s)) (sy_files s) k out lg' x' fs'"
  shows "\<exists>s'. collect_range M strf stack a b start e s = Some (Inr (s', i)) \<and> sys_wrote s k out s'"
  using assms
  by (simp add: collect_range_def upd_collect_def log_getStream_def Let_def sys_wrote_def dump_wrote_def lg_core_def)

section \<open>Collecting records that do not reach the end of the ring\<close>

text \<open>
  The collector has still to print \<open>rs\<close>, which print as \<open>ls\<close>: they lie between the bookmark and the index of the
  last write, which is that of the ring.
\<close>

definition pending_records :: "cmem \<Rightarrow> (u64 \<Rightarrow> string) \<Rightarrow> system \<Rightarrow> (header \<times> u8 list) list \<Rightarrow> string list \<Rightarrow> bool" where
  "pending_records M strf s rs ls \<longleftrightarrow>
     (let N = unat (rb_size (lg_ringBuffer (sy_log s))) in
      log_holds M strf (sy_log s) (unat (cl_collectorBookmark (sy_collect s)) mod N) rs ls \<and>
      unat (lg_bufLastWrittenIndex (sy_log s)) mod N = unat (rb_currentIndex (lg_ringBuffer (sy_log s))) mod N)"

text \<open>Where the records end, going round.\<close>

definition pending_end :: "system \<Rightarrow> (header \<times> u8 list) list \<Rightarrow> nat" where
  "pending_end s rs =
     unat (cl_collectorBookmark (sy_collect s)) mod unat (rb_size (lg_ringBuffer (sy_log s))) + records_size rs"

lemma concat_bytes_of [simp]: "concat (map bytes_of ls) = bytes_of (concat ls)"
  by (induction ls) auto

lemma unat_pred: "0 < unat (e :: u32) \<Longrightarrow> unat (e - 1) = unat e - 1"
  by (simp add: unat_sub_u32 word_le_nat_alt)

lemma mod_pred:
  assumes "0 < (e :: nat) mod N" and "0 < N"
  shows "(e - 1) mod N + 1 = e mod N"
proof -
  have "e mod N < N" using assms(2) by simp
  then have small: "e mod N - 1 < N" using assms(1) by linarith
  have "e - 1 = e div N * N + (e mod N - 1)" using assms(1) div_mult_mod_eq [of e N] by linarith
  then have "(e - 1) mod N = e mod N - 1" using small by (metis mod_less mod_mult_self3)
  then show ?thesis using assms by simp
qed

lemma mod_pred_zero:
  assumes "0 < (e :: nat)" and "e mod N = 0" and "0 < N"
  shows "(e - 1) mod N + 1 = N"
proof -
  obtain k where k: "e = N * k" using assms(2) by (auto simp: mod_eq_0_iff_dvd)
  then obtain q where "k = Suc q" using assms(1) by (cases k) auto
  then have "e - 1 = (N - 1) + N * q" using k assms(3) by simp
  then have "(e - 1) mod N = (N - 1) mod N" by (metis mod_mult_self2)
  then show ?thesis using assms(3) by simp
qed

lemma pending_last:
  assumes "pending_records M strf s rs ls" and "N = unat (rb_size (lg_ringBuffer (sy_log s)))"
  shows "unat (lg_bufLastWrittenIndex (sy_log s)) mod N = pending_end s rs mod N"
  using assms by (simp add: pending_records_def pending_end_def log_holds_def Let_def)

lemma pending_ring:
  assumes "pending_records M strf s rs ls"
  shows "rb_wf (lg_ringBuffer (sy_log s))" and "0 < unat (rb_size (lg_ringBuffer (sy_log s)))"
    and "unat (rb_size (lg_ringBuffer (sy_log s))) \<le> 2147483648"
    and "64 \<le> unat (rb_size (lg_ringBuffer (sy_log s)))"
  using assms by (auto simp: pending_records_def log_holds_def log_ok_def rb_ok_def rb_wf_def Let_def)

text \<open>After everything was printed the bookmark stands where the records ended.\<close>

lemma pending_none:
  assumes "pending_records M strf s rs ls" and "sys_wrote s k out s'"
    and "unat (cl_collectorBookmark (sy_collect s')) mod unat (rb_size (lg_ringBuffer (sy_log s))) =
      pending_end s rs mod unat (rb_size (lg_ringBuffer (sy_log s)))"
  shows "pending_records M strf s' [] []"
  using assms sys_wrote_fields [OF assms(2)]
  by (simp add: pending_records_def pending_end_def log_holds_def Let_def)

lemma collect_range_bookmark:
  "collect_range M strf stack a b c d s = Some (Inr (s', i)) \<Longrightarrow>
   cl_collectorBookmark (sy_collect s') = cl_collectorBookmark (sy_collect s)"
  by (auto simp: collect_range_def bindT_def upd_collect_def Let_def split: option.splits sum.splits)

lemma pass_straight:
  assumes "sys_ready M strf s (length (concat ls))" and "length stack1 = 8192" and "pending_records M strf s rs ls"
    and "N = unat (rb_size (lg_ringBuffer (sy_log s)))" and "pending_end s rs < N"
  shows "\<exists>s' i. collect_pass M strf stack1 stack2 s = Some (Inr (s', i)) \<and>
    sys_wrote s (length rs) (bytes_of (concat ls)) s' \<and>
    cl_collectorBookmark (sy_collect s') = cl_collectorBookmark (sy_collect s) \<and> unat i mod N = pending_end s rs"
proof -
  let ?rb = "lg_ringBuffer (sy_log s)" and ?b = "cl_collectorBookmark (sy_collect s)" and ?e = "lg_bufLastWrittenIndex (sy_log s)"
  note ring = pending_ring [OF assms(3)]
  have h: "log_holds M strf (sy_log s) (unat ?b mod N) rs ls"
    using assms(3,4) by (simp add: pending_records_def Let_def)
  have e: "unat ?e mod N = pending_end s rs" using pending_last [OF assms(3,4)] assms(5) by simp
  have norm: "unat (?b mod rb_size ?rb) = unat ?b mod N" "unat (?e mod rb_size ?rb) = pending_end s rs"
    using assms(4) e by (simp_all add: unat_mod)
  show ?thesis
  proof (cases "rs = []")
    case True
    then have "ls = []" using h by (auto simp: log_holds_def)
    have "?b mod rb_size ?rb = ?e mod rb_size ?rb" using norm True assms(4) by (simp add: word_unat_eq_iff pending_end_def)
    then have "collect_pass M strf stack1 stack2 s = Some (Inr (s, ?e))"
      using ring(1) by (simp add: collect_pass_def getLastWrittenIndex_def Let_def)
    moreover have "sys_wrote s 0 [] s" by (rule sys_wrote_refl [OF assms(1)])
    ultimately show ?thesis using e True \<open>ls = []\<close> by simp
  next
    case False
    then have pos: "0 < records_size rs" by (cases rs) auto
    have lt: "?b mod rb_size ?rb < ?e mod rb_size ?rb"
      using norm pos assms(4) by (simp add: word_less_nat_alt pending_end_def)
    have "0 < unat ?e mod N" using e pos by (simp add: pending_end_def)
    then have last: "unat (?e - 1) mod N + 1 = pending_end s rs"
      using mod_pred [of "unat ?e" N] unat_pred [of ?e] e ring(2) assms(4)
      by (metis gr0I mod_0 neq0_conv)
    have "\<exists>lg' x' fs' i. dumpRange M strf stack1 (sy_log s) (lg_stream (sy_log s)) (sy_files s) ?b (?e - 1) True =
          Some (Inr (lg', x', fs', i)) \<and> unat i = unat (?e - 1) mod N + 1 \<and> after_dump (sy_log s) (length rs) lg' \<and>
        appended (lg_stream (sy_log s)) (sy_files s) (concat (map bytes_of ls)) x' fs'"
    proof (rule dumpRange_records [OF _ assms(2,4)])
      show "dump_ready M strf (sy_log s) (lg_stream (sy_log s)) (sy_files s) (length (concat (map bytes_of ls)))"
        using assms(1) by (simp add: sys_ready_def)
      show "unat ?b mod N + records_size rs = unat (?e - 1) mod N + 1" using last assms(4) by (simp add: pending_end_def)
    qed (use h in \<open>simp_all add: log_holds_def\<close>)
    then obtain lg' x' fs' i where d: "dumpRange M strf stack1 (sy_log s) (lg_stream (sy_log s)) (sy_files s) ?b (?e - 1) True =
        Some (Inr (lg', x', fs', i))" "unat i = pending_end s rs"
        "dump_wrote (sy_log s) (lg_stream (sy_log s)) (sy_files s) (length rs) (bytes_of (concat ls)) lg' x' fs'"
      using last by (auto simp: dump_wrote_def after_dump_core)
    obtain s1 where s1: "collect_range M strf stack1 ?b ?e ?b (?e - 1) s = Some (Inr (s1, i))"
        "sys_wrote s (length rs) (bytes_of (concat ls)) s1"
      using collect_range_wrote [OF d(1,3)] by blast
    have "collect_pass M strf stack1 stack2 s = Some (Inr (s1, i))"
      using ring(1) lt less_imp_neq [OF lt] s1(1) by (simp add: collect_pass_def getLastWrittenIndex_def Let_def)
    then show ?thesis using s1(2) collect_range_bookmark [OF s1(1)] d(2) assms(5) by simp
  qed
qed

lemma collect_straight:
  assumes "sys_ready M strf s (length (concat ls))" and "length stack1 = 8192" and "pending_records M strf s rs ls"
    and "N = unat (rb_size (lg_ringBuffer (sy_log s)))" and "pending_end s rs < N"
  shows "\<exists>s' i. Collect_collect M strf stack1 stack2 s = Some (Inr (s', i)) \<and>
    sys_wrote s (length rs) (bytes_of (concat ls)) s' \<and> pending_records M strf s' [] [] \<and>
    unat (cl_collectorBookmark (sy_collect s')) mod N = pending_end s rs"
proof -
  obtain s1 i where s1: "collect_pass M strf stack1 stack2 s = Some (Inr (s1, i))"
      "sys_wrote s (length rs) (bytes_of (concat ls)) s1" "unat i mod N = pending_end s rs"
    using pass_straight [OF assms, of stack2] by blast
  have w: "sys_wrote s (length rs) (bytes_of (concat ls)) (collect_store i s1)" using s1(2) by (simp add: collect_store_def)
  moreover have b: "cl_collectorBookmark (sy_collect (collect_store i s1)) = i" by (simp add: collect_store_def upd_collect_def)
  moreover have "pending_records M strf (collect_store i s1) [] []"
    by (rule pending_none [OF assms(3) w]) (use b s1(3) assms(4,5) in simp)
  ultimately show ?thesis using s1(1,3) by (simp add: Collect_collect_def)
qed

section \<open>The worker between other threads\<close>

definition sys_trace :: "cmem \<Rightarrow> call \<Rightarrow> system \<Rightarrow> system result" where
  "sys_trace M c s = bindE (trace M (sy_log s) c) (\<lambda>lg. Inr (s\<lparr>sy_log := lg\<rparr>))"

fun sys_trace_all :: "cmem \<Rightarrow> call list \<Rightarrow> system \<Rightarrow> system result" where
  "sys_trace_all M [] s = Inr s"
| "sys_trace_all M (c # cs) s = bindE (sys_trace M c s) (\<lambda>s'. sys_trace_all M cs s')"

text \<open>
  The lines \<open>out\<close> are still to be printed: those of the pending records, then those of the calls \<open>rest\<close> to come.
  Together the records do not reach the end of the ring.
\<close>

definition to_print :: "cmem \<Rightarrow> (u64 \<Rightarrow> string) \<Rightarrow> system \<Rightarrow> call list \<Rightarrow> string list \<Rightarrow> bool" where
  "to_print M strf s rest out \<longleftrightarrow>
     (\<exists>rs ls ls'. pending_records M strf s rs ls \<and> call_lines M strf (lg_globalId (sy_log s)) rest = Inr ls' \<and> out = ls @ ls' \<and>
        (\<forall>c \<in> set rest. call_ok M c) \<and> (\<forall>l \<in> set ls'. length l \<le> 4096) \<and>
        pending_end s rs + calls_size M rest < unat (rb_size (lg_ringBuffer (sy_log s))) \<and>
        sys_ready M strf s (length (concat out)))"

text \<open>From \<open>s\<close> to \<open>s'\<close> the first of the lines \<open>out\<close> have been printed and \<open>out'\<close> are left.\<close>

definition advances :: "system \<Rightarrow> string list \<Rightarrow> system \<Rightarrow> string list \<Rightarrow> bool" where
  "advances s out s' out' \<longleftrightarrow>
     (\<exists>ls. out = ls @ out' \<and> sys_contents s' = sys_contents s @ bytes_of (concat ls)) \<and>
     obj_fileHandle (lg_stream (sy_log s')) = obj_fileHandle (lg_stream (sy_log s)) \<and>
     stream_chunk (lg_stream (sy_log s')) = stream_chunk (lg_stream (sy_log s)) \<and>
     lg_fileHandle (sy_log s') = lg_fileHandle (sy_log s)"

lemma advances_refl: "sys_contents s' = sys_contents s \<Longrightarrow>
  obj_fileHandle (lg_stream (sy_log s')) = obj_fileHandle (lg_stream (sy_log s)) \<Longrightarrow>
  stream_chunk (lg_stream (sy_log s')) = stream_chunk (lg_stream (sy_log s)) \<Longrightarrow>
  lg_fileHandle (sy_log s') = lg_fileHandle (sy_log s) \<Longrightarrow> advances s out s' out"
  by (simp add: advances_def)

lemma advances_trans: "advances s out s1 out1 \<Longrightarrow> advances s1 out1 s2 out2 \<Longrightarrow> advances s out s2 out2"
  by (fastforce simp: advances_def)

lemma to_print_trace:
  assumes "to_print M strf s (c # rest) out"
  shows "\<exists>s'. sys_trace M c s = Inr s' \<and> to_print M strf s' rest out \<and> advances s out s' out \<and>
    sy_collect s' = sy_collect s"
proof -
  let ?N = "unat (rb_size (lg_ringBuffer (sy_log s)))"
  obtain rs ls l ls' where p: "pending_records M strf s rs ls" "call_line M strf (lg_globalId (sy_log s)) c = Inr l"
      "call_lines M strf (next_id (lg_globalId (sy_log s))) rest = Inr ls'" "out = ls @ l # ls'" "call_ok M c"
      "\<forall>c \<in> set rest. call_ok M c" "length l \<le> 4096" "\<forall>l \<in> set ls'. length l \<le> 4096"
      "pending_end s rs + (call_size M c + calls_size M rest) < ?N" "sys_ready M strf s (length (concat out))"
    using assms unfolding to_print_def by (force simp: bindE_eq_Inr_iff calls_size_def)
  have hold: "log_holds M strf (sy_log s) (unat (cl_collectorBookmark (sy_collect s)) mod ?N) rs ls"
    using p(1) by (simp add: pending_records_def Let_def)
  have ok: "log_ok (sy_log s)" "cmem_ok M" using p(10) by (simp_all add: sys_ready_def dump_ready_def)
  let ?lg = "after_trace M (sy_log s) c"
  let ?s = "s\<lparr>sy_log := ?lg\<rparr>"
  have size: "rb_size (lg_ringBuffer ?lg) = rb_size (lg_ringBuffer (sy_log s))"
    using trace_ring_facts(2) [OF ok(1) p(5) refl] by (simp add: after_trace_def)
  obtain r where r: "log_holds M strf ?lg (unat (cl_collectorBookmark (sy_collect s)) mod ?N) (rs @ [r]) (ls @ [l])"
      "records_size [r] = call_size M c"
    using trace_holds [OF hold p(5,2,7)] p(9) by (auto simp: pending_end_def)
  have "pending_records M strf ?s (rs @ [r]) (ls @ [l])"
    using r(1) size by (simp add: pending_records_def after_trace_def Let_def)
  moreover have "pending_end ?s (rs @ [r]) = pending_end s rs + call_size M c"
    using r(2) size by (simp add: pending_end_def)
  moreover have "sys_ready M strf ?s n = sys_ready M strf s n" for n
    using r(1) ok(1) by (simp add: sys_ready_def dump_ready_def log_holds_def after_trace_def)
  moreover have "lg_globalId (sy_log ?s) = next_id (lg_globalId (sy_log s))" by (simp add: after_trace_def)
  ultimately have "to_print M strf ?s rest out"
    unfolding to_print_def using p(3,4,6,8-10) size
    by (intro exI [of _ "rs @ [r]"] exI [of _ "ls @ [l]"] exI [of _ ls']) simp
  moreover have "sys_trace M c s = Inr ?s" using trace_after [OF ok p(5)] by (simp add: sys_trace_def)
  moreover have "advances s out ?s out" by (rule advances_refl) (simp_all add: sys_contents_def after_trace_def)
  ultimately show ?thesis by auto
qed

lemma to_print_trace_all:
  "to_print M strf s (cs @ rest) out \<Longrightarrow>
   \<exists>s'. sys_trace_all M cs s = Inr s' \<and> to_print M strf s' rest out \<and> advances s out s' out \<and> sy_collect s' = sy_collect s"
proof (induction cs arbitrary: s)
  case Nil
  then show ?case by (simp add: advances_refl)
next
  case (Cons c cs)
  obtain s1 where s1: "sys_trace M c s = Inr s1" "to_print M strf s1 (cs @ rest) out" "advances s out s1 out"
      "sy_collect s1 = sy_collect s"
    using to_print_trace [of M strf s c "cs @ rest" out] Cons.prems by auto
  then show ?case using Cons.IH [OF s1(2)] by (auto intro: advances_trans)
qed

lemma to_print_collect:
  assumes "to_print M strf s rest out" and "length stack1 = 8192"
  shows "\<exists>s' i out'. Collect_collect M strf stack1 stack2 s = Some (Inr (s', i)) \<and> to_print M strf s' rest out' \<and>
    advances s out s' out' \<and> cl_enable (sy_collect s') = cl_enable (sy_collect s) \<and> (rest = [] \<longrightarrow> out' = [])"
proof -
  let ?N = "unat (rb_size (lg_ringBuffer (sy_log s)))"
  obtain rs ls ls' where p: "pending_records M strf s rs ls" "call_lines M strf (lg_globalId (sy_log s)) rest = Inr ls'"
      "out = ls @ ls'" "\<forall>c \<in> set rest. call_ok M c" "\<forall>l \<in> set ls'. length l \<le> 4096"
      "pending_end s rs + calls_size M rest < ?N" "sys_ready M strf s (length (concat out))"
    using assms(1) unfolding to_print_def by blast
  have room: "sys_ready M strf s (length (bytes_of (concat ls)) + length (concat ls'))" using p(3,7) by simp
  then have "sys_ready M strf s (length (concat ls))" by (simp add: sys_ready_def dump_ready_def)
  then obtain s' i where s': "Collect_collect M strf stack1 stack2 s = Some (Inr (s', i))"
      "sys_wrote s (length rs) (bytes_of (concat ls)) s'" "pending_records M strf s' [] []"
      "unat (cl_collectorBookmark (sy_collect s')) mod ?N = pending_end s rs"
    using collect_straight [OF _ assms(2) p(1) refl, of stack2] p(6) by auto
  note f = sys_wrote_fields [OF s'(2)]
  have "pending_end s' [] = pending_end s rs" using s'(4) f(1) by (simp add: pending_end_def)
  then have "to_print M strf s' rest ls'"
    unfolding to_print_def using s'(3) p(2,4-6) f(1,3) sys_wrote_ready [OF s'(2) room]
    by (intro exI [of _ "[]"] exI [of _ ls']) simp
  moreover have "advances s out s' ls'" using p(3) f(4,6,8,11) by (auto simp: advances_def)
  moreover have "rest = [] \<longrightarrow> ls' = []" using p(2) by auto
  ultimately show ?thesis using s'(1) f(9) by blast
qed

text \<open>A flush of the stream prints nothing and keeps what is to be printed.\<close>

lemma flush_log_stream_ok:
  assumes "stream_ok (lg_stream (sy_log s)) (sy_files s)"
  shows "\<exists>s'. flush_log_stream s = Inr s' \<and> sy_collect s' = sy_collect s \<and> sys_contents s' = sys_contents s \<and>
    (\<forall>n. sys_ready M strf s' n = sys_ready M strf s n) \<and>
    lg_core ((sy_log s')\<lparr>lg_stream := lg_stream (sy_log s)\<rparr>) = lg_core (sy_log s) \<and>
    obj_fileHandle (lg_stream (sy_log s')) = obj_fileHandle (lg_stream (sy_log s)) \<and>
    stream_chunk (lg_stream (sy_log s')) = stream_chunk (lg_stream (sy_log s)) \<and> flushed (lg_stream (sy_log s')) (sy_files s')"
proof -
  obtain x fs where x: "stream_flush (lg_stream (sy_log s)) (sy_files s) = Inr (x, fs, 0)" "stream_ok x fs"
      "stream_contents x fs = stream_contents (lg_stream (sy_log s)) (sy_files s)"
      "stream_room x fs = stream_room (lg_stream (sy_log s)) (sy_files s)"
      "stream_chunk x = stream_chunk (lg_stream (sy_log s))" "obj_fileHandle x = obj_fileHandle (lg_stream (sy_log s))"
    using sink.flush_law [OF assms] by blast
  let ?s = "s\<lparr>sy_log := (sy_log s)\<lparr>lg_stream := x\<rparr>, sy_files := fs\<rparr>"
  have "flush_log_stream s = Inr ?s" using x(1) by (simp add: flush_log_stream_def log_getStream_def)
  moreover have "flushed (lg_stream (sy_log ?s)) (sy_files ?s)" using stream_flush_flushed [OF assms x(1)] by simp
  moreover have "\<forall>n. sys_ready M strf ?s n = sys_ready M strf s n"
    using x assms by (simp add: sys_ready_def dump_ready_def log_ok_def)
  ultimately show ?thesis using x by (intro exI [of _ ?s]) (simp add: sys_contents_def lg_core_def)
qed

lemma to_print_same:
  assumes "to_print M strf s rest out" and "\<And>n. sys_ready M strf s' n = sys_ready M strf s n"
    and "lg_core ((sy_log s')\<lparr>lg_stream := lg_stream (sy_log s)\<rparr>) = lg_core (sy_log s)"
    and "cl_collectorBookmark (sy_collect s') = cl_collectorBookmark (sy_collect s)"
  shows "to_print M strf s' rest out"
proof -
  have l: "lg_ringBuffer (sy_log s') = lg_ringBuffer (sy_log s)" "lg_globalId (sy_log s') = lg_globalId (sy_log s)"
    "lg_bufLastWrittenIndex (sy_log s') = lg_bufLastWrittenIndex (sy_log s)"
    using assms(3) by (simp_all add: lg_core_def)
  have p: "pending_records M strf s' rs ls = pending_records M strf s rs ls" "pending_end s' rs = pending_end s rs" for rs ls
    using l assms(4) by (simp_all add: pending_records_def pending_end_def log_holds_def log_ok_def Let_def)
  show ?thesis using assms(1) unfolding to_print_def p l assms(2) .
qed

lemma to_print_stream: "to_print M strf s rest out \<Longrightarrow> stream_ok (lg_stream (sy_log s)) (sy_files s)"
  by (auto simp: to_print_def sys_ready_def dump_ready_def)

lemma to_print_idle:
  assumes "to_print M strf s rest out"
  shows "\<exists>s'. Collect_idle s = Inr s' \<and> to_print M strf s' rest out \<and> advances s out s' out \<and>
    cl_enable (sy_collect s') = cl_enable (sy_collect s)"
proof -
  let ?s1 = "upd_collect (\<lambda>c. c\<lparr>cl_lastFlushCounter := cl_lastFlushCounter c + 1\<rparr>) s"
  have s1: "sys_ready M strf ?s1 n = sys_ready M strf s n" "sy_log ?s1 = sy_log s" "sy_files ?s1 = sy_files s"
    "cl_enable (sy_collect ?s1) = cl_enable (sy_collect s)" "cl_collectorBookmark (sy_collect ?s1) = cl_collectorBookmark (sy_collect s)" for n
    by (simp_all add: upd_collect_def sys_ready_def)
  show ?thesis
  proof (cases "cl_lastFlushCounter (sy_collect ?s1) > (FLUSH_IN_SEC * 1000000) div SLEEP_USEC")
    case False
    then have "Collect_idle s = Inr ?s1" by (simp add: Collect_idle_def Let_def)
    moreover have "to_print M strf ?s1 rest out" by (rule to_print_same [OF assms]) (simp_all add: s1)
    moreover have "advances s out ?s1 out" by (rule advances_refl) (simp_all add: s1 sys_contents_def)
    ultimately show ?thesis using s1(4) by blast
  next
    case True
    have "stream_ok (lg_stream (sy_log ?s1)) (sy_files ?s1)" using to_print_stream [OF assms] s1(2,3) by simp
    then obtain s2 where s2: "flush_log_stream ?s1 = Inr s2" "sy_collect s2 = sy_collect ?s1" "sys_contents s2 = sys_contents ?s1"
        "\<forall>n. sys_ready M strf s2 n = sys_ready M strf ?s1 n" "lg_core ((sy_log s2)\<lparr>lg_stream := lg_stream (sy_log ?s1)\<rparr>) = lg_core (sy_log ?s1)"
        "obj_fileHandle (lg_stream (sy_log s2)) = obj_fileHandle (lg_stream (sy_log ?s1))"
        "stream_chunk (lg_stream (sy_log s2)) = stream_chunk (lg_stream (sy_log ?s1))"
      using flush_log_stream_ok [of ?s1 M strf] by blast
    let ?s3 = "upd_collect (\<lambda>c. c\<lparr>cl_lastFlushCounter := 0\<rparr>) s2"
    have s3: "sys_ready M strf ?s3 n = sys_ready M strf s2 n" "sy_log ?s3 = sy_log s2" "sy_files ?s3 = sy_files s2"
      "cl_enable (sy_collect ?s3) = cl_enable (sy_collect s2)" "cl_collectorBookmark (sy_collect ?s3) = cl_collectorBookmark (sy_collect s2)" for n
      by (simp_all add: upd_collect_def sys_ready_def)
    have "Collect_idle s = Inr ?s3" using True s2(1) by (simp add: Collect_idle_def Let_def)
    moreover have "to_print M strf ?s3 rest out"
      by (rule to_print_same [OF assms]) (use s1 s2 s3 in simp_all)
    moreover have "advances s out ?s3 out"
      by (rule advances_refl) (use s1 s2 s3 in \<open>simp_all add: sys_contents_def lg_core_def\<close>)
    ultimately show ?thesis using s1(4) s2(2) s3(4) by auto
  qed
qed

lemma to_print_flush:
  assumes "to_print M strf s rest out" and "length stack1 = 8192"
  shows "\<exists>s' out'. Collect_flush M strf stack1 stack2 s = Some (Inr s') \<and> to_print M strf s' rest out' \<and>
    advances s out s' out' \<and> cl_enable (sy_collect s') = cl_enable (sy_collect s) \<and> (rest = [] \<longrightarrow> out' = []) \<and>
    flushed (lg_stream (sy_log s')) (sy_files s')"
proof -
  obtain s1 i out' where s1: "Collect_collect M strf stack1 stack2 s = Some (Inr (s1, i))" "to_print M strf s1 rest out'"
      "advances s out s1 out'" "cl_enable (sy_collect s1) = cl_enable (sy_collect s)" "rest = [] \<longrightarrow> out' = []"
    using to_print_collect [OF assms, of stack2] by blast
  obtain s2 where s2: "flush_log_stream s1 = Inr s2" "sy_collect s2 = sy_collect s1" "sys_contents s2 = sys_contents s1"
      "\<forall>n. sys_ready M strf s2 n = sys_ready M strf s1 n" "lg_core ((sy_log s2)\<lparr>lg_stream := lg_stream (sy_log s1)\<rparr>) = lg_core (sy_log s1)"
      "obj_fileHandle (lg_stream (sy_log s2)) = obj_fileHandle (lg_stream (sy_log s1))"
      "stream_chunk (lg_stream (sy_log s2)) = stream_chunk (lg_stream (sy_log s1))" "flushed (lg_stream (sy_log s2)) (sy_files s2)"
    using flush_log_stream_ok [OF to_print_stream [OF s1(2)], of M strf] by blast
  have "to_print M strf s2 rest out'" by (rule to_print_same [OF s1(2)]) (use s2 in simp_all)
  moreover have "advances s1 out' s2 out'" by (rule advances_refl) (use s2 in \<open>simp_all add: lg_core_def\<close>)
  then have "advances s out s2 out'" by (rule advances_trans [OF s1(3)])
  moreover have "Collect_flush M strf stack1 stack2 s = Some (Inr s2)" using s1(1) s2(1) by (simp add: Collect_flush_def)
  ultimately show ?thesis using s1(4,5) s2(2,8) by auto
qed

lemma to_print_shallCollect: "to_print M strf s rest out \<Longrightarrow> \<exists>b. Collect_shallCollect s = Inr b"
  using pending_ring(1) by (fastforce simp: to_print_def Collect_shallCollect_def Let_def)

lemma to_print_round:
  assumes "to_print M strf s rest out" and "length stack1 = 8192"
  shows "\<exists>s' out'. worker_round M strf stack1 stack2 s = Some (Inr s') \<and> to_print M strf s' rest out' \<and>
    advances s out s' out' \<and> cl_enable (sy_collect s') = cl_enable (sy_collect s)"
proof -
  obtain b where b: "(if Collect_getEnable s then Collect_shallCollect s else Inr False) = Inr b"
    using to_print_shallCollect [OF assms(1)] by (cases "Collect_getEnable s") auto
  show ?thesis
    using to_print_collect [OF assms, of stack2] to_print_idle [OF assms(1)] unfolding worker_round_def b
    by (cases b) fastforce+
qed

text \<open>
  The other threads: before the \<open>k\<close>-th reading of \<^verbatim>\<open>enable_\<close> they make the calls \<open>sched ! k\<close>; after the last of them
  \<^verbatim>\<open>setEnable(false)\<close> flushes and clears the flag.
\<close>

definition others_trace ::
  "cmem \<Rightarrow> (u64 \<Rightarrow> string) \<Rightarrow> u8 list \<Rightarrow> u8 list \<Rightarrow> call list list \<Rightarrow> nat \<Rightarrow> system \<Rightarrow> system result option" where
  "others_trace M strf stack1 stack2 sched k s =
     (if k < length sched
      then bindT (Some (sys_trace_all M (sched ! k) s)) (\<lambda>s1.
           if Suc k = length sched
           then bindT (Collect_flush M strf stack1 stack2 s1) (\<lambda>s2. Some (Inr (upd_collect (\<lambda>c. c\<lparr>cl_enable := False\<rparr>) s2)))
           else Some (Inr s1))
      else Some (Inr s))"

lemma to_print_disable:
  assumes "to_print M strf s rest out"
  shows "to_print M strf (upd_collect (\<lambda>c. c\<lparr>cl_enable := b\<rparr>) s) rest out" and "advances s out (upd_collect (\<lambda>c. c\<lparr>cl_enable := b\<rparr>) s) out"
proof -
  show "to_print M strf (upd_collect (\<lambda>c. c\<lparr>cl_enable := b\<rparr>) s) rest out"
    by (rule to_print_same [OF assms]) (simp_all add: upd_collect_def sys_ready_def)
  show "advances s out (upd_collect (\<lambda>c. c\<lparr>cl_enable := b\<rparr>) s) out"
    by (rule advances_refl) (simp_all add: upd_collect_def sys_contents_def)
qed

lemma to_print_others:
  assumes "to_print M strf s (concat (drop k sched)) out" and "length stack1 = 8192" and "k < length sched"
  shows "\<exists>s' out'. others_trace M strf stack1 stack2 sched k s = Some (Inr s') \<and>
    to_print M strf s' (concat (drop (Suc k) sched)) out' \<and> advances s out s' out' \<and>
    cl_enable (sy_collect s') = (Suc k \<noteq> length sched \<and> cl_enable (sy_collect s))"
proof -
  have "concat (drop k sched) = sched ! k @ concat (drop (Suc k) sched)"
    using assms(3) by (simp add: Cons_nth_drop_Suc [symmetric])
  then obtain s1 where s1: "sys_trace_all M (sched ! k) s = Inr s1" "to_print M strf s1 (concat (drop (Suc k) sched)) out"
      "advances s out s1 out" "sy_collect s1 = sy_collect s"
    using to_print_trace_all assms(1) by metis
  show ?thesis
  proof (cases "Suc k = length sched")
    case False
    then show ?thesis using s1 assms(3) by (auto simp: others_trace_def)
  next
    case True
    obtain s2 out' where s2: "Collect_flush M strf stack1 stack2 s1 = Some (Inr s2)"
        "to_print M strf s2 (concat (drop (Suc k) sched)) out'" "advances s1 out s2 out'"
      using to_print_flush [OF s1(2) assms(2), of stack2] by blast
    let ?s3 = "upd_collect (\<lambda>c. c\<lparr>cl_enable := False\<rparr>) s2"
    note d = to_print_disable [OF s2(2), of False]
    have "others_trace M strf stack1 stack2 sched k s = Some (Inr ?s3)"
      using True assms(3) s1(1) s2(1) by (simp add: others_trace_def)
    moreover have "advances s out ?s3 out'" using s1(3) s2(3) d(2) by (blast intro: advances_trans)
    moreover have "\<not> cl_enable (sy_collect ?s3)" by (simp add: upd_collect_def)
    ultimately show ?thesis using d(1) True by blast
  qed
qed

text \<open>The worker has returned: everything is printed and flushed.\<close>

definition worker_done :: "cmem \<Rightarrow> (u64 \<Rightarrow> string) \<Rightarrow> system \<Rightarrow> string list \<Rightarrow> system \<Rightarrow> bool" where
  "worker_done M strf s out s' \<longleftrightarrow>
     advances s out s' [] \<and> to_print M strf s' [] [] \<and> flushed (lg_stream (sy_log s')) (sy_files s') \<and> \<not> cl_enable (sy_collect s')"

lemma worker_done_trans: "advances s out s1 out1 \<Longrightarrow> worker_done M strf s1 out1 s' \<Longrightarrow> worker_done M strf s out s'"
  by (auto simp: worker_done_def intro: advances_trans)

lemma worker_stops:
  assumes "others (2 * n) s = Some (Inr s1)" and "\<not> cl_enable (sy_collect s1)" and "to_print M strf s1 [] out"
    and "length (stacks (2 * n)) = 8192"
  shows "\<exists>s'. Collect_workerThread M strf stacks others n s = Some (Inr s') \<and> worker_done M strf s1 out s'"
proof -
  obtain s' where "Collect_flush M strf (stacks (2 * n)) (stacks (2 * n + 1)) s1 = Some (Inr s')" "to_print M strf s' [] []"
      "advances s1 out s' []" "\<not> cl_enable (sy_collect s')" "flushed (lg_stream (sy_log s')) (sy_files s')"
    using to_print_flush [OF assms(3,4), of "stacks (2 * n + 1)"] assms(2) by auto
  then show ?thesis
    using assms(1,2) by (subst Collect_workerThread.simps) (simp add: Collect_getEnable_def worker_done_def)
qed

lemma worker_runs:
  assumes "\<forall>k. length (stacks k) = 8192" and "length stack1 = 8192"
  shows "cl_enable (sy_collect s) \<Longrightarrow> 2 * n < length sched \<Longrightarrow> to_print M strf s (concat (drop (2 * n) sched)) out \<Longrightarrow>
    \<exists>s'. Collect_workerThread M strf stacks (others_trace M strf stack1 stack2 sched) n s = Some (Inr s') \<and>
      worker_done M strf s out s'"
proof (induction "length sched - 2 * n" arbitrary: n s out rule: less_induct)
  case less
  let ?others = "others_trace M strf stack1 stack2 sched" and ?L = "length sched"
  obtain s1 out1 where s1: "?others (2 * n) s = Some (Inr s1)" "to_print M strf s1 (concat (drop (Suc (2 * n)) sched)) out1"
      "advances s out s1 out1" "cl_enable (sy_collect s1) = (Suc (2 * n) \<noteq> ?L)"
    using to_print_others [OF less.prems(3) assms(2) less.prems(2), of stack2] less.prems(1) by auto
  show ?case
  proof (cases "Suc (2 * n) = ?L")
    case True
    then show ?thesis
      using worker_stops [of ?others n s s1 M strf out1 stacks] s1 assms(1) by (auto intro: worker_done_trans)
  next
    case False
    then have lt: "Suc (2 * n) < ?L" using less.prems(2) by simp
    obtain s2 out2 where s2: "?others (Suc (2 * n)) s1 = Some (Inr s2)"
        "to_print M strf s2 (concat (drop (Suc (Suc (2 * n))) sched)) out2" "advances s1 out1 s2 out2"
        "cl_enable (sy_collect s2) = (Suc (Suc (2 * n)) \<noteq> ?L)"
      using to_print_others [OF s1(2) assms(2) lt, of stack2] s1(4) False by auto
    obtain s3 out3 where s3: "worker_round M strf (stacks (2 * n)) (stacks (2 * n + 1)) s2 = Some (Inr s3)"
        "to_print M strf s3 (concat (drop (Suc (Suc (2 * n))) sched)) out3" "advances s2 out2 s3 out3"
        "cl_enable (sy_collect s3) = (Suc (Suc (2 * n)) \<noteq> ?L)"
      using to_print_round [OF s2(2), of "stacks (2 * n)" "stacks (2 * n + 1)"] assms(1) s2(4) by auto
    have step: "Collect_workerThread M strf stacks ?others n s = Collect_workerThread M strf stacks ?others (Suc n) s3"
      using s1(1,4) False s2(1) s3(1) by (subst Collect_workerThread.simps) (simp add: Collect_getEnable_def)
    have adv: "advances s out s3 out3" using s1(3) s2(3) s3(3) by (blast intro: advances_trans)
    show ?thesis
    proof (cases "Suc (Suc (2 * n)) = ?L")
      case True
      have "?others (2 * Suc n) s3 = Some (Inr s3)" using True by (simp add: others_trace_def)
      then show ?thesis
        using worker_stops [of ?others "Suc n" s3 s3 M strf out3 stacks] s3(2,4) True assms(1) step adv
        by (auto intro: worker_done_trans)
    next
      case False
      then have "?L - 2 * Suc n < ?L - 2 * n" "2 * Suc n < ?L" using lt by simp_all
      then obtain s' where "Collect_workerThread M strf stacks ?others (Suc n) s3 = Some (Inr s')" "worker_done M strf s3 out3 s'"
        using less.hyps [of "Suc n" s3 out3] s3(2,4) False by auto
      then show ?thesis using step adv by (auto intro: worker_done_trans)
    qed
  qed
qed

section \<open>Properties\<close>

text \<open>The system of the examples: the fresh log with its stream on an open file and the collector enabled.\<close>

definition demo_collect :: collect where
  "demo_collect = \<lparr>cl_collectorThread = 0, cl_collectorBookmark = 0, cl_bufferThresholdPct = 0, cl_prevCollectRangeStart = 0,
     cl_prevCollectRangeEnd = 0, cl_enable = True, cl_streamLastFlush = 0, cl_lastFlushCounter = 0\<rparr>"

definition demo_system :: system where
  "demo_system = \<lparr>sy_collect = demo_collect, sy_log = demo_log\<lparr>lg_stream := demo_stream, lg_fileHandle := 3\<rparr>, sy_files = demo_files\<rparr>"

text \<open>
  C2. On a stretch of the ring that does not reach its end, the worker thread prints everything, once and in order,
  and returns. Started with nothing pending, it runs its loop while the other threads make supported calls before
  any of its readings of \<^verbatim>\<open>enable_\<close>, whose records together end before the end of the ring, and at last disable the
  collector between two of its passes. Whatever the distribution of the calls over the rounds, the loop ends
  without a fault, and the device of the log's stream, which has the room, then holds the lines of all the calls.
\<close>

theorem worker_prints_everything:
  assumes "sys_ready M strf s (length (concat ls))" and "N = unat (rb_size (lg_ringBuffer (sy_log s)))"
    and "cl_collectorBookmark (sy_collect s) = rb_currentIndex (lg_ringBuffer (sy_log s))"
    and "lg_bufLastWrittenIndex (sy_log s) = rb_currentIndex (lg_ringBuffer (sy_log s))"
    and "cl_enable (sy_collect s)" and "sched \<noteq> []" and "\<forall>c \<in> set (concat sched). call_ok M c"
    and "call_lines M strf (lg_globalId (sy_log s)) (concat sched) = Inr ls" and "\<forall>l \<in> set ls. length l \<le> 4096"
    and "unat (cl_collectorBookmark (sy_collect s)) mod N + calls_size M (concat sched) < N"
    and "\<forall>k. length (stacks k) = 8192" and "length stack1 = 8192" and "lg_stream (sy_log s) = PlainStream st"
  shows "\<exists>s'. Collect_executeWorkerThread M strf stacks (others_trace M strf stack1 stack2 sched) s = Some (Inr s') \<and>
    \<not> cl_enable (sy_collect s') \<and>
    on_device (sy_files s') (st_fileHandle st) = file_data (sy_files s) (st_fileHandle st) @ bytes_of (concat ls)"
proof -
  have "pending_records M strf s [] []"
    using assms(1-4) by (simp add: pending_records_def log_holds_def sys_ready_def dump_ready_def Let_def)
  then have "to_print M strf s (concat (drop (2 * 0) sched)) ls"
    unfolding to_print_def using assms(1,2,7-10)
    by (intro exI [of _ "[]"] exI [of _ ls]) (simp add: pending_end_def)
  then obtain s' where s': "Collect_workerThread M strf stacks (others_trace M strf stack1 stack2 sched) 0 s = Some (Inr s')"
      "worker_done M strf s ls s'"
    using worker_runs [OF assms(11,12,5), of 0 sched M strf ls stack2] assms(6) by auto
  then have "sys_contents s' = sys_contents s @ bytes_of (concat ls)"
    "obj_fileHandle (lg_stream (sy_log s')) = st_fileHandle st" "stream_chunk (lg_stream (sy_log s')) = 2 ^ 32"
    "flushed (lg_stream (sy_log s')) (sy_files s')" "\<not> cl_enable (sy_collect s')"
    using assms(13) by (auto simp: worker_done_def advances_def)
  then show ?thesis
    using s'(1) assms(13) flushed_device [of "lg_stream (sy_log s')" "sy_files s'"]
    by (simp add: Collect_executeWorkerThread_def sys_contents_def stream_contents_def)
qed

lemma demo_system_ready: "sys_ready demo_mem demo_strf demo_system 1000"
  using demo_log_fresh(1) demo_mem_ok demo_strf_ok demo_stream_ok
  by (simp add: sys_ready_def dump_ready_def demo_system_def log_ok_def)

lemma demo_system_fields:
  "rb_currentIndex (lg_ringBuffer (sy_log demo_system)) = 0" "unat (rb_size (lg_ringBuffer (sy_log demo_system))) = 4096"
  "lg_globalId (sy_log demo_system) = 0" "lg_bufLastWrittenIndex (sy_log demo_system) = 0" "sys_contents demo_system = []"
  "obj_fileHandle (lg_stream (sy_log demo_system)) = 3" "cl_collectorBookmark (sy_collect demo_system) = 0"
  "cl_enable (sy_collect demo_system)" "lg_ringBuffer (sy_log demo_system) = lg_ringBuffer demo_log"
  using demo_log_fresh demo_stream_ok
  by (simp_all add: demo_system_def demo_collect_def sys_contents_def demo_log_def zero_log_def)

lemma demo_system_stream:
  "lg_stream (sy_log demo_system) = PlainStream \<lparr>st_stats = zero_stats, st_fileHandle = 3\<rparr>" "file_data (sy_files demo_system) 3 = []"
  using demo_file_ok by (simp_all add: demo_system_def demo_stream_def)

theorem worker_prints_everything_witness:
  "\<exists>s'. Collect_executeWorkerThread demo_mem demo_strf (\<lambda>k. replicate 8192 0)
      (others_trace demo_mem demo_strf (replicate 8192 0) (replicate 8192 0) [[], [demo_call], [], [plain_call], []]) demo_system =
    Some (Inr s') \<and> \<not> cl_enable (sy_collect s') \<and>
    on_device (sy_files s') 3 = bytes_of ''[2020 Jan  1 00:00:05.000000042:0:I:12] 7 upbye''"
  using worker_prints_everything [of demo_mem demo_strf demo_system
      "[''[2020 Jan  1 00:00:05.000000042:0:I:12] 7 up'', ''bye'']" 4096 "[[], [demo_call], [], [plain_call], []]"
      "\<lambda>k. replicate 8192 0" "replicate 8192 0" "\<lparr>st_stats = zero_stats, st_fileHandle = 3\<rparr>" "replicate 8192 0"]
    demo_call_ok demo_lines demo_system_ready demo_system_fields demo_system_stream
  by (auto simp: calls_size_def sys_ready_def dump_ready_def)

text \<open>
  C21. Two threads in \<^verbatim>\<open>collect\<close> print the same records twice. \<^verbatim>\<open>setEnable(false)\<close> collects while the worker may be
  collecting, and nothing guards the bookmark: when the second pass starts before the first has stored its
  bookmark, every pending line goes to the stream a second time, although the bookmark is right in the end.
\<close>

theorem overlapping_collects_print_twice:
  assumes "sys_ready M strf s (length (concat (ls @ ls)))" and "length stack1 = 8192" and "length stack3 = 8192"
    and "pending_records M strf s rs ls" and "pending_end s rs < unat (rb_size (lg_ringBuffer (sy_log s)))"
  shows "\<exists>s1 i s2 j. collect_pass M strf stack1 stack2 s = Some (Inr (s1, i)) \<and>
    collect_pass M strf stack3 stack4 s1 = Some (Inr (s2, j)) \<and>
    sys_contents (collect_store j (collect_store i s2)) = sys_contents s @ bytes_of (concat ls) @ bytes_of (concat ls) \<and>
    pending_records M strf (collect_store j (collect_store i s2)) [] []"
proof -
  let ?N = "unat (rb_size (lg_ringBuffer (sy_log s)))"
  have room: "sys_ready M strf s (length (bytes_of (concat ls)) + length (concat ls))" using assms(1) by simp
  then have "sys_ready M strf s (length (concat ls))" by (simp add: sys_ready_def dump_ready_def)
  then obtain s1 i where s1: "collect_pass M strf stack1 stack2 s = Some (Inr (s1, i))" "sys_wrote s (length rs) (bytes_of (concat ls)) s1"
      "cl_collectorBookmark (sy_collect s1) = cl_collectorBookmark (sy_collect s)" "unat i mod ?N = pending_end s rs"
    using pass_straight [OF _ assms(2,4) refl assms(5), of stack2] by blast
  note f = sys_wrote_fields [OF s1(2)]
  have ready: "sys_ready M strf s1 (length (concat ls))" by (rule sys_wrote_ready [OF s1(2) room])
  have pend: "pending_records M strf s1 rs ls" "pending_end s1 rs = pending_end s rs"
    using assms(4) f(1-3,5) s1(3) by (simp_all add: pending_records_def pending_end_def log_holds_def Let_def)
  have N: "?N = unat (rb_size (lg_ringBuffer (sy_log s1)))" using f(1) by simp
  obtain s2 j where s2: "collect_pass M strf stack3 stack4 s1 = Some (Inr (s2, j))" "sys_wrote s1 (length rs) (bytes_of (concat ls)) s2"
      "unat j mod ?N = pending_end s rs"
    using pass_straight [OF ready assms(3) pend(1) N, of stack4] assms(5) pend(2) by auto
  let ?s = "collect_store j (collect_store i s2)"
  have w: "sys_wrote s1 (length rs) (bytes_of (concat ls)) ?s" using s2(2) by (simp add: collect_store_def)
  have b: "cl_collectorBookmark (sy_collect ?s) = j" by (simp add: collect_store_def upd_collect_def)
  have "pending_records M strf ?s [] []"
    by (rule pending_none [OF pend(1) w]) (use b s2(3) pend(2) N assms(5) in simp)
  then show ?thesis using s1(1) s2(1) sys_wrote_fields(6) [OF w] f(6) by simp
qed

text \<open>One call on the demo system, collected by both threads.\<close>

theorem overlapping_collects_print_twice_witness:
  "\<exists>s s1 i s2 j. sys_trace demo_mem plain_call demo_system = Inr s \<and>
    collect_pass demo_mem demo_strf (replicate 8192 0) [] s = Some (Inr (s1, i)) \<and>
    collect_pass demo_mem demo_strf (replicate 8192 0) [] s1 = Some (Inr (s2, j)) \<and>
    sys_contents (collect_store j (collect_store i s2)) = bytes_of ''byebye''"
proof -
  let ?s = "demo_system\<lparr>sy_log := after_trace demo_mem (sy_log demo_system) plain_call\<rparr>"
  have ok: "log_ok (sy_log demo_system)" using demo_system_ready by (simp add: sys_ready_def dump_ready_def)
  then have trace: "sys_trace demo_mem plain_call demo_system = Inr ?s"
    using trace_after [OF _ demo_mem_ok demo_call_ok(2)] by (simp add: sys_trace_def)
  have "pending_records demo_mem demo_strf demo_system [] []"
    using ok demo_system_fields by (simp add: pending_records_def log_holds_def Let_def)
  moreover have "sys_ready demo_mem demo_strf demo_system (Suc (Suc (Suc 0)))" using demo_system_ready by (simp add: sys_ready_def dump_ready_def)
  ultimately have "to_print demo_mem demo_strf demo_system [plain_call] [''bye'']"
    unfolding to_print_def using demo_system_fields plain_line demo_call_ok
    by - (rule exI [where x = "[]"], rule exI [where x = "[]"], rule exI [where x = "[''bye'']"],
      simp add: pending_end_def calls_size_def del: call_lines.simps)
  then have "to_print demo_mem demo_strf ?s [] [''bye'']" "sys_contents ?s = []"
    using to_print_trace [of demo_mem demo_strf demo_system plain_call "[]" "[''bye'']"] trace demo_system_fields(5)
    by (auto simp: sys_contents_def after_trace_def)
  then obtain rs where rs: "pending_records demo_mem demo_strf ?s rs [''bye'']"
      "pending_end ?s rs < unat (rb_size (lg_ringBuffer (sy_log ?s)))" "log_ok (sy_log ?s)"
    by (auto simp: to_print_def calls_size_def sys_ready_def dump_ready_def)
  have "sys_ready demo_mem demo_strf ?s (length (concat ([''bye''] @ [''bye''])))"
    using demo_system_ready rs(3) by (simp add: sys_ready_def dump_ready_def after_trace_def)
  then show ?thesis
    using overlapping_collects_print_twice [OF _ _ _ rs(1,2), of "replicate 8192 0" "replicate 8192 0" "[]" "[]"] trace
      \<open>sys_contents ?s = []\<close> by auto
qed

text \<open>The two calls of \<^verbatim>\<open>dumpRange\<close> when the range goes round the end of the ring.\<close>

lemma collect_wrapped:
  assumes "rb_wf (lg_ringBuffer (sy_log s))" and "N = unat (rb_size (lg_ringBuffer (sy_log s)))"
    and "e = lg_bufLastWrittenIndex (sy_log s)" and "b = cl_collectorBookmark (sy_collect s)"
    and "unat e mod N < unat b mod N"
    and "dumpRange M strf stack1 (sy_log s) (lg_stream (sy_log s)) (sy_files s) b (rb_size (lg_ringBuffer (sy_log s)) - 1) True =
      Some (Inr (lg1, x1, fs1, i1))"
    and "dump_wrote (sy_log s) (lg_stream (sy_log s)) (sy_files s) k1 out1 lg1 x1 fs1"
    and "dumpRange M strf stack2 (lg1\<lparr>lg_stream := x1\<rparr>) x1 fs1 0 (e - 1) True = Some (Inr (lg2, x2, fs2, i2))"
    and "dump_wrote (lg1\<lparr>lg_stream := x1\<rparr>) x1 fs1 k2 out2 lg2 x2 fs2"
  shows "\<exists>s'. Collect_collect M strf stack1 stack2 s = Some (Inr (s', i2)) \<and> sys_wrote s (k1 + k2) (out1 @ out2) s' \<and>
    cl_collectorBookmark (sy_collect s') = i2"
proof -
  let ?rb = "lg_ringBuffer (sy_log s)"
  have lt: "\<not> b mod rb_size ?rb < e mod rb_size ?rb" "b mod rb_size ?rb \<noteq> e mod rb_size ?rb"
    using assms(2,5) by (auto simp: word_less_nat_alt unat_mod word_unat_eq_iff)
  obtain s1 where s1: "collect_range M strf stack1 b (rb_size ?rb) b (rb_size ?rb - 1) s = Some (Inr (s1, i1))"
      "sy_log s1 = lg1\<lparr>lg_stream := x1\<rparr>" "sy_files s1 = fs1" "sys_wrote s k1 out1 s1"
    using assms(6,7)
    by (simp add: collect_range_def upd_collect_def log_getStream_def Let_def sys_wrote_def dump_wrote_def lg_core_def)
  obtain s2 where s2: "collect_range M strf stack2 0 e 0 (e - 1) s1 = Some (Inr (s2, i2))" "sys_wrote s1 k2 out2 s2"
    using collect_range_wrote [of M strf stack2 s1 0 "e - 1" lg2 x2 fs2 i2 k2 out2] assms(8,9) s1(2,3) by auto
  let ?s = "upd_collect (\<lambda>c. c\<lparr>cl_collectorBookmark := i2\<rparr>) s2"
  have "Collect_collect M strf stack1 stack2 s = Some (Inr (?s, i2))"
    using assms(1,3,4) lt s1(1) s2(1) by (simp add: Collect_collect_def collect_pass_def collect_store_def getLastWrittenIndex_def Let_def)
  moreover have "sys_wrote s (k1 + k2) (out1 @ out2) ?s" using sys_wrote_trans [OF s1(4) s2(2)] by simp
  ultimately show ?thesis by (auto simp: upd_collect_def)
qed

lemma dump_wrote_stream:
  assumes "dump_ready M strf lg x fs (length out + n)" and "dump_wrote lg x fs k out lg' x' fs'"
  shows "dump_ready M strf (lg'\<lparr>lg_stream := y\<rparr>) x' fs' n" and "lg_ringBuffer (lg'\<lparr>lg_stream := y\<rparr>) = lg_ringBuffer lg"
  using assms by (auto simp: dump_ready_def dump_wrote_def appended_def lg_core_def log_ok_def)

text \<open>Where the records are when one of them goes round the end: the last ones start at \<open>k\<close>.\<close>

lemma straddle_positions:
  assumes "pending_records M strf s (rs1 @ (h, img) # rs2) (ls1 @ l # ls2)" and "length rs1 = length ls1"
    and "N = unat (rb_size (lg_ringBuffer (sy_log s)))"
    and "p = unat (cl_collectorBookmark (sy_collect s)) mod N + records_size rs1"
    and "p < N" and "N < p + (64 + length img)" and "records_size (rs1 @ (h, img) # rs2) < N" and "k = p + (64 + length img) - N"
  shows "list_all2 (\<lambda>(h, img). prints_as M strf h img) rs1 (map bytes_of ls1)"
    and "prints_as M strf h img (bytes_of l)" and "list_all2 (\<lambda>(h, img). prints_as M strf h img) rs2 (map bytes_of ls2)"
    and "records_at (lg_ringBuffer (sy_log s)) (unat (cl_collectorBookmark (sy_collect s)) mod N) (rs1 @ [(h, img)])"
    and "records_at (lg_ringBuffer (sy_log s)) k rs2"
    and "unat (lg_bufLastWrittenIndex (sy_log s)) mod N = k + records_size rs2"
    and "unat (lg_bufLastWrittenIndex (sy_log s) - 1) mod N + 1 = k + records_size rs2"
    and "k + records_size rs2 < unat (cl_collectorBookmark (sy_collect s)) mod N"
proof -
  let ?rb = "lg_ringBuffer (sy_log s)" and ?b = "cl_collectorBookmark (sy_collect s)" and ?e = "lg_bufLastWrittenIndex (sy_log s)"
  note ring = pending_ring [OF assms(1)]
  have N: "0 < N" "length (rb_buffer ?rb) = N" using ring(1,2) assms(3) by (simp_all add: rb_wf_def)
  have hold: "log_holds M strf (sy_log s) (unat ?b mod N) (rs1 @ (h, img) # rs2) (ls1 @ l # ls2)"
    using assms(1,3) by (simp add: pending_records_def Let_def)
  then have "list_all2 (\<lambda>(h, img). prints_as M strf h img) (rs1 @ (h, img) # rs2) (map bytes_of ls1 @ bytes_of l # map bytes_of ls2)"
    by (simp add: log_holds_def)
  then show "list_all2 (\<lambda>(h, img). prints_as M strf h img) rs1 (map bytes_of ls1)" "prints_as M strf h img (bytes_of l)"
    "list_all2 (\<lambda>(h, img). prints_as M strf h img) rs2 (map bytes_of ls2)"
    using assms(2) by (auto simp: list_all2_append)
  show "records_at ?rb (unat ?b mod N) (rs1 @ [(h, img)])" using hold by (simp add: log_holds_def records_at_append)
  have "records_at ?rb (p + (64 + length img)) rs2"
    using hold assms(4) by (simp add: log_holds_def records_at_append add.assoc)
  moreover have "(p + (64 + length img)) mod N = k mod N" using assms(6,8) by (simp add: mod_if le_mod_geq)
  ultimately show "records_at ?rb k rs2" using records_at_mod [of "p + (64 + length img)" ?rb k rs2] N(2) by simp
  show size: "k + records_size rs2 < unat ?b mod N" using assms(4,6-8) by simp
  have "unat ?e mod N = pending_end s (rs1 @ (h, img) # rs2) mod N" by (rule pending_last [OF assms(1,3)])
  moreover have "pending_end s (rs1 @ (h, img) # rs2) = N + (k + records_size rs2)"
    using assms(3,4,6,8) by (simp add: pending_end_def)
  moreover have "unat ?b mod N < N" using N(1) by simp
  ultimately show e: "unat ?e mod N = k + records_size rs2" using size by simp
  then have "0 < unat ?e mod N" using assms(6,8) by simp
  moreover from this have "0 < unat ?e" by (metis gr0I mod_0)
  ultimately show "unat (?e - 1) mod N + 1 = k + records_size rs2" using mod_pred [of "unat ?e" N] unat_pred [of ?e] e N(1) by simp
qed

text \<open>
  C19. A record that goes round the end of the ring is never printed. When the pending records are \<open>rs\<close>, a record
  across the end, and more records behind it, the collector prints the lines of \<open>rs\<close>, then a message that logs
  were discarded with the id of the record it realigned to, then the other lines, and moves the bookmark to
  the end: the line of the record across the end is lost although the ring still holds it.
\<close>

theorem collect_drops_straddling_record:
  assumes "sys_ready M strf s (length (concat ls1) + 512 + length (concat (l2 # ls2)))" and "N = unat (rb_size (lg_ringBuffer (sy_log s)))"
    and "length stack1 = 8192" and "length stack2 = 8192"
    and "pending_records M strf s (rs1 @ (h, img) # (h2, img2) # rs2) (ls1 @ l # l2 # ls2)" and "length rs1 = length ls1"
    and "p = unat (cl_collectorBookmark (sy_collect s)) mod N + records_size rs1"
    and "p < N" and "N < p + (64 + length img)" and "records_size (rs1 @ (h, img) # (h2, img2) # rs2) < N"
    and "\<forall>m < p + (64 + length img) - N. \<not> valid_at (sy_log s) m"
  shows "\<exists>s' i msg. Collect_collect M strf stack1 stack2 s = Some (Inr (s', i)) \<and>
    sys_contents s' = sys_contents s @
      bytes_of (concat ls1 @ discard_prefix @ u_text (hd_id h2) @ msg @ concat (l2 # ls2)) \<and>
    lg_ringBuffer (sy_log s') = lg_ringBuffer (sy_log s) \<and>
    unat (cl_collectorBookmark (sy_collect s')) = unat (lg_bufLastWrittenIndex (sy_log s)) mod N"
proof -
  let ?lg = "sy_log s" and ?x = "lg_stream (sy_log s)" and ?fs = "sy_files s"
  let ?rb = "lg_ringBuffer ?lg" and ?b = "cl_collectorBookmark (sy_collect s)" and ?e = "lg_bufLastWrittenIndex ?lg"
  let ?rs2 = "(h2, img2) # rs2" and ?ls2 = "map bytes_of (l2 # ls2)"
  define k where "k = p + (64 + length img) - N"
  note pos = straddle_positions [OF assms(5,6,2,7-10) k_def]
  have k: "0 < k" "\<forall>m < k. \<not> valid_at ?lg m" using assms(9,11) by (simp_all add: k_def)
  have N: "0 < N" "rb_wf ?rb" using pending_ring [OF assms(5)] assms(2) by simp_all
  have last: "unat (rb_size ?rb - 1) mod N + 1 = N" using unat_pred [of "rb_size ?rb"] assms(2) N(1) by simp
  have ready: "dump_ready M strf ?lg ?x ?fs (length (concat (map bytes_of ls1)) + (512 + length (concat ?ls2)))"
    using assms(1) by (simp add: sys_ready_def add.assoc)
  then have "dump_ready M strf ?lg ?x ?fs (length (concat (map bytes_of ls1)))" by (simp add: dump_ready_def)
  then obtain lg1 x1 fs1 i1 where d1: "dumpRange M strf stack1 ?lg ?x ?fs ?b (rb_size ?rb - 1) True = Some (Inr (lg1, x1, fs1, i1))"
      "dump_wrote ?lg ?x ?fs (length rs1) (concat (map bytes_of ls1)) lg1 x1 fs1"
    using dumpRange_cut [OF _ assms(3,2) pos(4,1,2), where ?end0.0 = "rb_size ?rb - 1" and x = ?x and fs = ?fs and cof = True]
      last assms(7-9) by auto
  note after = dump_wrote_stream [OF ready d1(2), of x1]
  have "\<exists>lg' x' fs' i msg. dumpRange M strf stack2 (lg1\<lparr>lg_stream := x1\<rparr>) x1 fs1 0 (?e - 1) True = Some (Inr (lg', x', fs', i)) \<and>
      unat i = unat (?e - 1) mod N + 1 \<and>
      dump_wrote (lg1\<lparr>lg_stream := x1\<rparr>) x1 fs1 (length rs2 + 1)
        (bytes_of (discard_prefix @ u_text (hd_id h2) @ msg) @ concat ?ls2) lg' x' fs'"
    by (rule dumpRange_realign [OF after(1) assms(4) _ _ _ _ pos(3)])
      (use after(2) assms(2) k pos(5,7) in \<open>simp_all add: valid_at_def\<close>)
  then obtain lg2 x2 fs2 i2 msg where d2:
      "dumpRange M strf stack2 (lg1\<lparr>lg_stream := x1\<rparr>) x1 fs1 0 (?e - 1) True = Some (Inr (lg2, x2, fs2, i2))"
      "unat i2 = unat (?e - 1) mod N + 1"
      "dump_wrote (lg1\<lparr>lg_stream := x1\<rparr>) x1 fs1 (length rs2 + 1)
        (bytes_of (discard_prefix @ u_text (hd_id h2) @ msg) @ concat ?ls2) lg2 x2 fs2"
    by blast
  have lt: "unat ?e mod N < unat ?b mod N" using pos(6,8) by simp
  obtain s' where s': "Collect_collect M strf stack1 stack2 s = Some (Inr (s', i2))"
      "sys_wrote s (length rs1 + (length rs2 + 1)) (concat (map bytes_of ls1) @
         bytes_of (discard_prefix @ u_text (hd_id h2) @ msg) @ concat ?ls2) s'"
      "cl_collectorBookmark (sy_collect s') = i2"
    using collect_wrapped [OF N(2) assms(2) refl refl lt d1 d2(1,3)] by blast
  then show ?thesis
    using sys_wrote_fields(1,6) [OF s'(2)] d2(2) pos(6,7)
    by (intro exI [of _ s'] exI [of _ i2] exI [of _ msg]) simp
qed

text \<open>The system of the example: three records \<open>bye\<close> of 64 bytes from position 4000 of 4096 on, none printed yet.\<close>

definition bye_header :: "u32 \<Rightarrow> header" where
  "bye_header ident = zero_header\<lparr>hd_pattern := START_PATTERN, hd_id := ident, hd_format := 3, hd_length := 64\<rparr>"

definition straddle_buffer :: "u8 list" where
  "straddle_buffer = circ_put (circ_put (circ_put (replicate 4096 0) 4000 (entry_bytes (bye_header 0) []))
     4064 (entry_bytes (bye_header 1) [])) 4128 (entry_bytes (bye_header 2) [])"

definition straddle_system :: system where
  "straddle_system = \<lparr>sy_collect = demo_collect\<lparr>cl_collectorBookmark := 4000\<rparr>,
     sy_log = (sy_log demo_system)\<lparr>lg_bufLastWrittenIndex := 4192, lg_ringBuffer := (RingBuffer_new zeroed_ring 4096 True)
       \<lparr>rb_buffer := straddle_buffer, rb_currentIndex := 4192\<rparr>\<rparr>, sy_files = demo_files\<rparr>"

lemma straddle_buffer_records:
  "length straddle_buffer = 4096" "circ straddle_buffer 4000 64 = entry_bytes (bye_header 0) []"
  "circ straddle_buffer 4064 64 = entry_bytes (bye_header 1) []" "circ straddle_buffer 4128 64 = entry_bytes (bye_header 2) []"
proof -
  let ?b1 = "circ_put (replicate 4096 0) 4000 (entry_bytes (bye_header 0) [])"
  let ?b2 = "circ_put ?b1 4064 (entry_bytes (bye_header 1) [])"
  have dis: "circ_disjoint 4096 4064 64 4000 64" "circ_disjoint 4096 4128 64 4000 64" "circ_disjoint 4096 4128 64 4064 64"
    by (rule circ_disjoint_sym, rule circ_disjoint_consecutive, simp, simp)+
  have b1: "circ ?b1 4000 64 = entry_bytes (bye_header 0) []"
    using circ_circ_put_same [of "entry_bytes (bye_header 0) []" "replicate 4096 0" 4000] by simp
  have b2: "circ ?b2 4064 64 = entry_bytes (bye_header 1) []" "circ ?b2 4000 64 = entry_bytes (bye_header 0) []"
    using circ_circ_put_same [of "entry_bytes (bye_header 1) []" ?b1 4064]
      circ_circ_put_disjoint [of ?b1 4064 "entry_bytes (bye_header 1) []" 4000 64] dis(1) b1 by simp_all
  show "length straddle_buffer = 4096" by (simp add: straddle_buffer_def)
  show "circ straddle_buffer 4128 64 = entry_bytes (bye_header 2) []"
    using circ_circ_put_same [of "entry_bytes (bye_header 2) []" ?b2 4128] by (simp add: straddle_buffer_def)
  show "circ straddle_buffer 4064 64 = entry_bytes (bye_header 1) []" "circ straddle_buffer 4000 64 = entry_bytes (bye_header 0) []"
    using circ_circ_put_disjoint [of ?b2 4128 "entry_bytes (bye_header 2) []" 4064 64]
      circ_circ_put_disjoint [of ?b2 4128 "entry_bytes (bye_header 2) []" 4000 64] dis(2,3) b2 by (simp_all add: straddle_buffer_def)
qed

lemma le_zero: "le_val (replicate n 0) = 0" "le_bytes n 0 = replicate n 0"
  by (induction n) simp_all

lemma zero_header_eq: "zero_header = \<lparr>hd_pattern = 0, hd_location = 0, hd_id = 0, hd_pad = 0, hd_format = 0, hd_functionName = 0,
  hd_lineNumber = 0, hd_length = 0, hd_tag = 0, hd_unused0 = 0, hd_unused1 = 0, hd_tv_sec = 0, hd_tv_nsec = 0\<rparr>"
  by (simp add: zero_header_def header_of_def u8_of_def u16_of_def u32_of_def u64_of_def le_zero)

lemma bye_header_tail: "drop 32 (header_bytes (bye_header i)) =
  [0, 0, 64, 0, 0, 0, 0, 0, 0, 0, 0, 0, 0, 0, 0, 0, 0, 0, 0, 0, 0, 0, 0, 0]"
  by (simp add: header_bytes_def bye_header_def zero_header_eq u8_bytes_def u16_bytes_def u32_bytes_def u64_bytes_def
      le_bytes_numeral)

lemma bye_header_head: "take 4 (header_bytes (bye_header i)) = [206, 250, 237, 190]"
  by (simp add: header_bytes_def bye_header_def u32_bytes_def START_PATTERN_def le_bytes_numeral)

lemma straddle_buffer_start: "circ straddle_buffer 0 36 =
  [0, 0, 64, 0, 0, 0, 0, 0, 0, 0, 0, 0, 0, 0, 0, 0, 0, 0, 0, 0, 0, 0, 0, 0, 1, 0, 0, 0, 239, 190, 222, 250, 206, 250, 237, 190]"
proof -
  note b = straddle_buffer_records
  have "circ straddle_buffer 0 32 = circ straddle_buffer 4096 32" using circ_mod [of straddle_buffer 4096 32] b(1) by simp
  also have "\<dots> = drop 32 (circ straddle_buffer 4064 64)" by (simp add: drop_circ)
  also have "\<dots> = drop 32 (header_bytes (bye_header 1)) @ [1, 0, 0, 0, 239, 190, 222, 250]"
    unfolding b(3) by (simp add: entry_bytes_def trailer_bytes_def u32_bytes_def le_bytes_numeral END_PATTERN_def bye_header_def)
  finally have low: "circ straddle_buffer 0 32 = \<dots>" .
  have "circ straddle_buffer 32 4 = circ straddle_buffer 4128 4" using circ_mod [of straddle_buffer 4128 4] b(1) by simp
  also have "\<dots> = take 4 (circ straddle_buffer 4128 64)" by (simp add: take_circ)
  also have "\<dots> = take 4 (header_bytes (bye_header 2))" unfolding b(4) by (simp add: entry_bytes_def)
  finally have "circ straddle_buffer 32 4 = \<dots>" .
  then show ?thesis using circ_add [of straddle_buffer 0 32 4] low by (simp add: bye_header_tail bye_header_head)
qed

lemma valid_at_pattern: "valid_at lg i \<Longrightarrow> circ (rb_buffer (lg_ringBuffer lg)) i 4 = u32_bytes START_PATTERN"
proof -
  assume "valid_at lg i"
  then obtain h img where e: "holds_entry (lg_ringBuffer lg) i h img" by (auto simp: valid_at_def)
  have "circ (rb_buffer (lg_ringBuffer lg)) i 4 = take 4 (circ (rb_buffer (lg_ringBuffer lg)) i 56)" by (simp add: take_circ)
  then show ?thesis using e holds_entry_header [OF e] by (simp add: header_bytes_def holds_entry_def entry_ok_def)
qed

lemma straddle_no_start: "\<forall>m < 32. \<not> valid_at (sy_log straddle_system) m"
proof (intro allI impI notI)
  fix m :: nat
  assume m: "m < 32" "valid_at (sy_log straddle_system) m"
  have "take 4 (drop m (circ straddle_buffer 0 36)) = circ straddle_buffer m 4"
    using m(1) by (simp add: drop_circ take_circ)
  also have "\<dots> = [206, 250, 237, 190]"
    using valid_at_pattern [OF m(2)] by (simp add: straddle_system_def u32_bytes_def START_PATTERN_def le_bytes_numeral)
  finally have eq: "take 4 (drop m (circ straddle_buffer 0 36)) = [206, 250, 237, 190]" .
  have "\<forall>k \<in> set [0..<32]. take 4 (drop k (circ straddle_buffer 0 36)) \<noteq> [206, 250, 237, 190]"
    unfolding straddle_buffer_start by code_simp
  then show False using eq m(1) by auto
qed

lemma bye_prints: "prints_as demo_mem demo_strf (bye_header i) [] (bytes_of ''bye'')"
proof -
  have "stamp_text demo_mem demo_strf (bye_header i) = Inr ''''" by (simp add: stamp_text_def bye_header_def zero_header_eq)
  then show ?thesis unfolding prints_as_def
    by (intro exI [of _ "''bye''"] exI [of _ "[]"] exI [of _ "''''"] exI [of _ "''bye''"])
      (simp add: bye_header_def demo_mem_def format_eval c_printf_simps)
qed

lemma straddle_system_fields:
  "lg_ringBuffer (sy_log straddle_system) = (RingBuffer_new zeroed_ring 4096 True)\<lparr>rb_buffer := straddle_buffer, rb_currentIndex := 4192\<rparr>"
  "lg_bufLastWrittenIndex (sy_log straddle_system) = 4192" "cl_collectorBookmark (sy_collect straddle_system) = 4000"
  "sys_contents straddle_system = []"
  using demo_system_fields(5) by (simp_all add: straddle_system_def demo_system_def sys_contents_def)

lemma straddle_system_ok: "log_ok (sy_log straddle_system)" "sys_ready demo_mem demo_strf straddle_system 1000"
proof -
  show ok: "log_ok (sy_log straddle_system)"
    by (simp add: log_ok_def rb_ok_def rb_wf_def straddle_system_fields straddle_buffer_records)
  show "sys_ready demo_mem demo_strf straddle_system 1000"
    using demo_system_ready ok by (simp add: sys_ready_def dump_ready_def straddle_system_def demo_system_def)
qed

lemma straddle_system_pending: "pending_records demo_mem demo_strf straddle_system
  ([(bye_header 0, [])] @ (bye_header 1, []) # (bye_header 2, []) # []) ([''bye''] @ ''bye'' # ''bye'' # [])"
proof -
  have "entry_ok (bye_header i) []" for i by (simp add: entry_ok_def bye_header_def)
  then have "records_at (lg_ringBuffer (sy_log straddle_system)) 4000 [(bye_header 0, []), (bye_header 1, []), (bye_header 2, [])]"
    by (simp add: straddle_system_fields holds_entry_def straddle_buffer_records)
  then show ?thesis using straddle_system_ok(1) bye_prints
    by (simp add: pending_records_def log_holds_def straddle_system_fields Let_def)
qed

theorem collect_drops_straddling_record_witness:
  "\<exists>s' i msg. Collect_collect demo_mem demo_strf (replicate 8192 0) (replicate 8192 0) straddle_system = Some (Inr (s', i)) \<and>
    sys_contents s' = bytes_of (''bye'' @ discard_prefix @ u_text 2 @ msg @ ''bye'') \<and>
    unat (cl_collectorBookmark (sy_collect s')) = 96"
proof -
  have "sys_ready demo_mem demo_strf straddle_system (length (concat [''bye'']) + 512 + length (concat [''bye'']))"
    using straddle_system_ok(2) by (simp add: sys_ready_def dump_ready_def)
  then show ?thesis
    using collect_drops_straddling_record [OF _ refl _ _ straddle_system_pending _ refl, of "replicate 8192 0" "replicate 8192 0"]
      straddle_no_start straddle_system_fields by (auto simp: bye_header_def)
qed

text \<open>
  C20. When the last record ends exactly at the end of the ring, the collector prints the whole ring again. The
  records \<open>rs0\<close> have been printed, \<open>rs\<close> are pending and fill the ring up to its last byte: one call of \<^verbatim>\<open>collect\<close>
  prints the lines of \<open>rs\<close>, and then those of \<open>rs0\<close> and of \<open>rs\<close> once more.
\<close>

theorem collect_repeats_full_ring:
  assumes "sys_ready M strf s (length (concat ls) + length (concat (ls0 @ ls)))"
    and "N = unat (rb_size (lg_ringBuffer (sy_log s)))" and "length stack1 = 8192" and "length stack2 = 8192"
    and "log_holds M strf (sy_log s) 0 (rs0 @ rs) (ls0 @ ls)" and "length rs0 = length ls0" and "rs0 \<noteq> []" and "rs \<noteq> []"
    and "unat (cl_collectorBookmark (sy_collect s)) mod N = records_size rs0" and "records_size (rs0 @ rs) = N"
    and "lg_bufLastWrittenIndex (sy_log s) = rb_currentIndex (lg_ringBuffer (sy_log s))"
    and "lg_bufLastWrittenIndex (sy_log s) \<noteq> 0"
  shows "\<exists>s' i. Collect_collect M strf stack1 stack2 s = Some (Inr (s', i)) \<and>
    sys_contents s' = sys_contents s @ bytes_of (concat ls @ concat ls0 @ concat ls)"
proof -
  let ?lg = "sy_log s" and ?x = "lg_stream (sy_log s)" and ?fs = "sy_files s"
  let ?rb = "lg_ringBuffer ?lg" and ?b = "cl_collectorBookmark (sy_collect s)" and ?e = "lg_bufLastWrittenIndex ?lg"
  have hold: "records_at ?rb 0 (rs0 @ rs)" "log_ok ?lg"
    "list_all2 (\<lambda>(h, img). prints_as M strf h img) (rs0 @ rs) (map bytes_of (ls0 @ ls))" "unat ?e mod N = 0"
    using assms(2,5,10,11) by (simp_all add: log_holds_def)
  then have prints: "list_all2 (\<lambda>(h, img). prints_as M strf h img) rs (map bytes_of ls)"
    using assms(6) by (auto simp: list_all2_append)
  have wf: "rb_wf ?rb" "0 < N" using hold(2) assms(2) unat_rb_cap [of ?rb] by (simp_all add: log_ok_def)
  have pos: "0 < records_size rs0" "0 < records_size rs" using assms(7,8) by (cases rs0, auto, cases rs, auto)
  have last: "unat (rb_size ?rb - 1) mod N + 1 = N" using unat_pred [of "rb_size ?rb"] assms(2) wf(2) by simp
  have e1: "unat (?e - 1) mod N + 1 = N"
  proof -
    have "0 < unat ?e" using assms(12) by (simp add: unat_gt_0)
    then show ?thesis using mod_pred_zero [OF _ hold(4) wf(2)] unat_pred [of ?e] by simp
  qed
  have ready: "dump_ready M strf ?lg ?x ?fs (length (concat (map bytes_of ls)) + length (concat (map bytes_of (ls0 @ ls))))"
    using assms(1) by (simp add: sys_ready_def)
  then have "dump_ready M strf ?lg ?x ?fs (length (concat (map bytes_of ls)))" by (simp add: dump_ready_def)
  then obtain lg1 x1 fs1 i1 where d1: "dumpRange M strf stack1 ?lg ?x ?fs ?b (rb_size ?rb - 1) True = Some (Inr (lg1, x1, fs1, i1))"
      "dump_wrote ?lg ?x ?fs (length rs) (concat (map bytes_of ls)) lg1 x1 fs1"
    using dumpRange_records [OF _ assms(3,2) _ _ prints, where ?start0.0 = ?b and ?end0.0 = "rb_size ?rb - 1" and x = ?x and fs = ?fs
        and cof = True] last assms(9,10) hold(1) after_dump_core
    by (auto simp: records_at_append dump_wrote_def)
  note after = dump_wrote_stream [OF ready d1(2), of x1]
  obtain lg2 x2 fs2 i2 where d2: "dumpRange M strf stack2 (lg1\<lparr>lg_stream := x1\<rparr>) x1 fs1 0 (?e - 1) True = Some (Inr (lg2, x2, fs2, i2))"
      "dump_wrote (lg1\<lparr>lg_stream := x1\<rparr>) x1 fs1 (length (rs0 @ rs)) (concat (map bytes_of (ls0 @ ls))) lg2 x2 fs2"
    using dumpRange_records [OF after(1) assms(4) _ _ _ hold(3), of N 0 "?e - 1" True] after(2) assms(2,10) e1 hold(1) after_dump_core
    by (auto simp: dump_wrote_def)
  have lt: "unat ?e mod N < unat ?b mod N" using hold(4) assms(9) pos(1) by simp
  show ?thesis
    using collect_wrapped [OF wf(1) assms(2) refl refl lt d1 d2] sys_wrote_fields(6) by fastforce
qed

text \<open>The example: a long record and a short one that fill the ring of 4096 bytes together.\<close>

definition long_line :: string where
  "long_line = replicate 3967 (CHR ''x'')"

definition repeat_mem :: cmem where
  "repeat_mem = demo_mem(4 \<mapsto> ''%s'', 5 \<mapsto> long_line)"

definition long_call :: call where
  "long_call = plain_call\<lparr>ca_format := 4, ca_args := [CPtr 5]\<rparr>"

definition repeat_system :: "log \<Rightarrow> system" where
  "repeat_system lg = \<lparr>sy_collect = demo_collect\<lparr>cl_collectorBookmark := 4032\<rparr>,
     sy_log = lg\<lparr>lg_stream := demo_stream\<rparr>, sy_files = [3 \<mapsto> empty_file 10000]\<rparr>"

lemma repeat_mem_ok: "cmem_ok repeat_mem"
  using demo_mem_ok by (auto simp: cmem_ok_def c_string_def repeat_mem_def long_line_def ran_def)

lemma long_call_run:
  "call_ok repeat_mem long_call" "call_size repeat_mem long_call = 4032" "call_line repeat_mem strf i long_call = Inr long_line"
proof -
  have m: "repeat_mem 4 = Some ''%s''" "repeat_mem 5 = Some long_line" by (simp_all add: repeat_mem_def)
  have p: "c_printf repeat_mem ''%s'' [CPtr 5] = Inr long_line"
    by (simp add: c_printf.simps directive_length_def isdigit_simps c_format_def parse_directive_s pad_def deref_string_def m)
  have img: "arg_bytes repeat_mem ''%s'' [CPtr 5] = bytes_of long_line @ [0]"
    by (simp add: format_eval conv_image_def m)
  show size: "call_size repeat_mem long_call = 4032"
    by (simp add: call_size_def call_image_def long_call_def m img) (simp add: long_line_def)
  show "call_ok repeat_mem long_call" using size
    by (simp add: call_ok_def long_call_def m p plain_call_def) (simp add: format_eval)
  show "call_line repeat_mem strf i long_call = Inr long_line"
    by (simp add: call_line_def stamp_text_def call_header_def long_call_def plain_call_def deref_string_def m p)
qed

lemma plain_call_run:
  assumes "M 3 = Some ''bye''"
  shows "call_ok M plain_call" "call_size M plain_call = 64" "call_line M strf i plain_call = Inr ''bye''"
proof -
  show size: "call_size M plain_call = 64"
    by (simp add: call_size_def call_image_def plain_call_def assms format_eval)
  show "call_ok M plain_call" using size by (simp add: call_ok_def plain_call_def assms c_printf_simps format_eval)
  show "call_line M strf i plain_call = Inr ''bye''"
    by (simp add: call_line_def stamp_text_def call_header_def plain_call_def deref_string_def assms c_printf_simps)
qed

theorem collect_repeats_full_ring_witness:
  "\<exists>lg s' i. trace_all repeat_mem demo_log [long_call, plain_call] = Inr lg \<and>
    Collect_collect repeat_mem demo_strf (replicate 8192 0) (replicate 8192 0) (repeat_system lg) = Some (Inr (s', i)) \<and>
    sys_contents s' = bytes_of (''bye'' @ long_line @ ''bye'')"
proof -
  have bye: "repeat_mem 3 = Some ''bye''" by (simp add: repeat_mem_def demo_mem_def)
  note plain = plain_call_run [where M = repeat_mem, OF bye]
  have start: "log_holds repeat_mem demo_strf demo_log 0 [] []" using demo_log_fresh by (simp add: log_holds_def)
  obtain lg1 rs0 where t1: "trace_all repeat_mem demo_log [long_call] = Inr lg1" "log_holds repeat_mem demo_strf lg1 0 rs0 [long_line]"
      "records_size rs0 = 4032" "rb_size (lg_ringBuffer lg1) = rb_size (lg_ringBuffer demo_log)"
    using trace_all_holds [OF start repeat_mem_ok, of "[long_call]" "[long_line]"] long_call_run demo_log_fresh(4)
    by (auto simp: calls_size_def long_line_def)
  obtain lg rs where t2: "trace_all repeat_mem lg1 [plain_call] = Inr lg"
      "log_holds repeat_mem demo_strf lg 0 (rs0 @ rs) ([long_line] @ [''bye''])" "records_size rs = 64"
      "rb_size (lg_ringBuffer lg) = rb_size (lg_ringBuffer lg1)"
    using trace_all_holds [OF t1(2) repeat_mem_ok, of "[plain_call]" "[''bye'']"] plain t1(3,4) demo_log_fresh(4)
    by (auto simp: calls_size_def)
  have t: "trace_all repeat_mem demo_log [long_call, plain_call] = Inr lg"
    using t1(1) t2(1) by (auto simp: bindE_eq_Inr_iff)
  have idx: "unat (rb_currentIndex (lg_ringBuffer lg)) = 4096" "lg_bufLastWrittenIndex lg = rb_currentIndex (lg_ringBuffer lg)"
    using trace_all_index [OF demo_log_fresh(1) repeat_mem_ok _ _ t] long_call_run plain demo_log_fresh(2) by (auto simp: calls_size_def)
  let ?s = "repeat_system lg"
  have hold: "log_holds repeat_mem demo_strf (sy_log ?s) 0 (rs0 @ rs) ([long_line] @ [''bye''])"
    using t2(2) by (simp add: log_holds_def repeat_system_def log_ok_def)
  have size: "unat (rb_size (lg_ringBuffer (sy_log ?s))) = 4096" using t1(4) t2(4) demo_log_fresh(4) by (simp add: repeat_system_def)
  have "stream_ok demo_stream [3 \<mapsto> empty_file 10000]" "stream_room demo_stream [3 \<mapsto> empty_file 10000] = 10000"
    by (simp_all add: demo_stream_def stream_ok_def file_ok_def stream_room_def file_room_def empty_file_def)
  then have ready: "sys_ready repeat_mem demo_strf ?s (length (concat [''bye'']) + length (concat ([long_line] @ [''bye''])))"
    using repeat_mem_ok demo_strf_ok demo_stream_ok(2) hold
    by (simp add: sys_ready_def dump_ready_def repeat_system_def log_holds_def long_line_def)
  have len: "length rs0 = length [long_line]" using t1(2) by (auto simp: log_holds_def dest: list_all2_lengthD)
  have ne: "rs0 \<noteq> []" "rs \<noteq> []" using t1(3) t2(3) by auto
  have fields: "lg_bufLastWrittenIndex (sy_log ?s) \<noteq> 0" "sys_contents ?s = []"
    "unat (cl_collectorBookmark (sy_collect ?s)) = 4032" "lg_bufLastWrittenIndex (sy_log ?s) = rb_currentIndex (lg_ringBuffer (sy_log ?s))"
    using idx by (auto simp: repeat_system_def demo_collect_def sys_contents_def demo_stream_def stream_contents_def file_data_def
        empty_file_def)
  have "\<exists>s' i. Collect_collect repeat_mem demo_strf (replicate 8192 0) (replicate 8192 0) ?s = Some (Inr (s', i)) \<and>
      sys_contents s' = sys_contents ?s @ bytes_of (concat [''bye''] @ concat [long_line] @ concat [''bye''])"
    by (rule collect_repeats_full_ring [OF ready refl _ _ hold len ne])
      (use t1(3) t2(3) size fields in simp_all)
  then show ?thesis using t fields(2) by auto
qed

end
