(* ===== verification/Log_Lifecycle.thy ===== *)
theory Log_Lifecycle
  imports Collector_Correct
begin

text \<open>
  The log from construction to destruction: what every operation keeps, what the state dumps need, the dump of an
  empty log, and the order in which the destructor closes the file and flushes the stream.
\<close>

section \<open>Destruction\<close>

lemma Stream_destroy_closed:
  assumes "st_fileHandle st \<noteq> 0" and "fs (st_fileHandle st) = None"
  shows "Stream_destroy (PlainStream st) fs = Inl NullDeref"
  using assms by (simp add: Stream_cleanup_def Stream_flush_def fflush_def)

text \<open>
  C22. Destroying a log flushes a file that is already closed. When \<^verbatim>\<open>setEnable(false)\<close> has returned and the log's
  stream writes to the log's file, the body of \<^verbatim>\<open>~Log\<close> flushes and closes that file, and the destruction of the
  members that follows runs \<^verbatim>\<open>fflush\<close> on the same \<^verbatim>\<open>FILE\<close> pointer: a use after close, on every log whose file
  could be opened.
\<close>

theorem Log_destroy_flushes_closed_file:
  assumes "Collect_setEnable M strf stack1 stack2 None join False s = Some (Inr s1)"
    and "lg_stream (sy_log s1) = PlainStream st" and "st_fileHandle st = lg_fileHandle (sy_log s1)"
    and "lg_fileHandle (sy_log s1) \<noteq> 0" and "sy_files s1 (lg_fileHandle (sy_log s1)) = Some f"
  shows "\<exists>s2. Log_close M strf stack1 stack2 join s = Some (Inr s2) \<and> sy_files s2 (lg_fileHandle (sy_log s1)) = None \<and>
    Log_destroy M strf stack1 stack2 join s = Some (Inl NullDeref)"
proof -
  let ?p = "lg_fileHandle (sy_log s1)"
  let ?fs = "(sy_files s1)(?p \<mapsto> cf_drain f (cf_pending f), ?p := None)"
  let ?s2 = "s1\<lparr>sy_log := (sy_log s1)\<lparr>lg_fileHandle := 0\<rparr>, sy_files := ?fs\<rparr>"
  have close: "Log_close M strf stack1 stack2 join s = Some (Inr ?s2)"
    using assms(1,4,5) by (simp add: Log_close_def fflush_def fclose_def Let_def)
  have "Stream_destroy (PlainStream st) ?fs = Inl NullDeref" using assms(3,4) by (intro Stream_destroy_closed) simp_all
  then have "Log_destroy M strf stack1 stack2 join s = Some (Inl NullDeref)"
    using close assms(2) by (simp add: Log_destroy_def)
  then show ?thesis using close by auto
qed

text \<open>The surroundings of the example: cleared memory, a file that opens, collection off.\<close>

definition demo_surroundings :: surroundings where
  "demo_surroundings = \<lparr>sr_log = zero_log, sr_ring = zeroed_ring, sr_stats = zero_stats,
     sr_collect = demo_collect\<lparr>cl_enable := False\<rparr>, sr_stdout = 1, sr_stderr = 2, sr_fopen = Some (3, empty_file 1000),
     sr_reopen_out = None, sr_reopen_err = None, sr_files = [1 \<mapsto> empty_file 1000, 2 \<mapsto> empty_file 1000]\<rparr>"

definition new_log :: "system result option" where
  "new_log = Log_new demo_mem demo_strf [] [] None (\<lambda>s. Some (Inr s)) demo_surroundings ''rxtrace.txt'' 4096 False False"

lemma new_log_built: "\<exists>s. new_log = Some (Inr s) \<and> \<not> cl_enable (sy_collect s) \<and> lg_fileHandle (sy_log s) = 3 \<and>
  lg_stream (sy_log s) = PlainStream \<lparr>st_stats = zero_stats, st_fileHandle = 3\<rparr> \<and> sy_files s 3 = Some (empty_file 1000) \<and>
  lg_ringBuffer (sy_log s) = RingBuffer_new zeroed_ring 4096 True"
  by (simp add: new_log_def Log_new_def Collect_new_def Collect_setEnable_def demo_surroundings_def createTracefile_def
      open_file_def Stream_create_def Stream_setFile_def Stream_new_def)

theorem Log_destroy_flushes_closed_file_witness:
  "\<exists>s. new_log = Some (Inr s) \<and> Log_destroy demo_mem demo_strf [] [] (\<lambda>s. Some (Inr s)) s = Some (Inl NullDeref)"
proof -
  obtain s where s: "new_log = Some (Inr s)" "\<not> cl_enable (sy_collect s)" "lg_fileHandle (sy_log s) = 3"
      "lg_stream (sy_log s) = PlainStream \<lparr>st_stats = zero_stats, st_fileHandle = 3\<rparr>" "sy_files s 3 = Some (empty_file 1000)"
    using new_log_built by blast
  have "Collect_setEnable demo_mem demo_strf [] [] None (\<lambda>s. Some (Inr s)) False s = Some (Inr s)"
    using s(2) by (simp add: Collect_setEnable_def)
  from Log_destroy_flushes_closed_file [OF this s(4)] show ?thesis using s by auto
qed

section \<open>State dumps into arrays of 1000 bytes\<close>

lemma sprintf_lines_overflow:
  "ss \<noteq> [] \<Longrightarrow> length b \<le> pos + length (concat ss) \<Longrightarrow> sprintf_lines b pos ss = Inl OutOfBounds"
proof (induction ss arbitrary: b pos)
  case (Cons s ss)
  show ?case
  proof (cases "pos + length s < length b")
    case False
    then show ?thesis by (simp add: mem_write_out)
  next
    case True
    then have "ss \<noteq> []" using Cons.prems(2) by auto
    then show ?thesis using Cons.IH True Cons.prems(2) by (simp add: add.assoc)
  qed
qed simp

lemma sprintf_lines_fits:
  "length (concat ss) < length b \<Longrightarrow> \<exists>b' n. sprintf_lines b 0 ss = Inr (b', n) \<and> length b' = length b \<and>
     take (length (concat ss)) b' = bytes_of (concat ss)"
  using sprintf_lines_wrote [of 0 ss b] by (auto simp: wrote_def)

lemma text_nonempty: "u_text w \<noteq> []" "d_text w \<noteq> []" "ld_text v \<noteq> []"
  by (simp_all add: u_text_def d_text_def ld_text_def dec_int_def dec_def digits_of_nonempty)

text \<open>The counters of a log take between 402 and 594 characters besides the file name.\<close>

lemma state_lines_bounds:
  "length (concat (state_lines lg name)) \<le> 594 + length name" "402 + length name \<le> length (concat (state_lines lg name))"
proof -
  define u where "u = (\<lambda>w. length (u_text w))"
  define d where "d = (\<lambda>w. length (d_text w))"
  define l where "l = (\<lambda>w. length (ld_text w))"
  have b: "u w \<le> 10" "d w \<le> 11" "l v \<le> 20" "0 < u w" "0 < d w" "0 < l v" for w v
    by (simp_all add: u_def d_def l_def u_text_length d_text_length ld_text_length text_nonempty)
  let ?rb = "lg_ringBuffer lg"
  have len: "length (concat (state_lines lg name)) = 383 + length name + u (rb_size ?rb) + u (RingBuffer_getCurrentIndex ?rb) +
      u (lg_globalId lg) + u (lg_glideCount lg) + l (lg_collectCount lg) + u (lg_fwriteFailCount lg) +
      u (lg_fwriteEwouldblockCount lg) + u (lg_fwriteEintrCount lg) + u (lg_fwriteZeroCount lg) + d (lg_fwriteErrno lg) +
      l (lg_lostCollectCount lg) + u (RingBuffer_getStats ?rb) + u (lg_printFallCount lg) + u (lg_hdrPatErr lg) +
      u (lg_hdrLenErr lg) + u (lg_hdrTailErr lg) + u (lg_fullBufLenErr lg) + u (lg_getNextHeaderFailCount lg) +
      u (lg_getStringCorruptedCount lg)"
    by (simp add: state_lines_def u_def d_def l_def)
  note us = b(1) [of "rb_size ?rb"] b(1) [of "RingBuffer_getCurrentIndex ?rb"] b(1) [of "lg_globalId lg"] b(1) [of "lg_glideCount lg"]
    b(1) [of "lg_fwriteFailCount lg"] b(1) [of "lg_fwriteEwouldblockCount lg"] b(1) [of "lg_fwriteEintrCount lg"]
    b(1) [of "lg_fwriteZeroCount lg"] b(1) [of "RingBuffer_getStats ?rb"] b(1) [of "lg_printFallCount lg"] b(1) [of "lg_hdrPatErr lg"]
    b(1) [of "lg_hdrLenErr lg"] b(1) [of "lg_hdrTailErr lg"] b(1) [of "lg_fullBufLenErr lg"] b(1) [of "lg_getNextHeaderFailCount lg"]
    b(1) [of "lg_getStringCorruptedCount lg"]
  note ls = b(4) [of "rb_size ?rb"] b(4) [of "RingBuffer_getCurrentIndex ?rb"] b(4) [of "lg_globalId lg"] b(4) [of "lg_glideCount lg"]
    b(4) [of "lg_fwriteFailCount lg"] b(4) [of "lg_fwriteEwouldblockCount lg"] b(4) [of "lg_fwriteEintrCount lg"]
    b(4) [of "lg_fwriteZeroCount lg"] b(4) [of "RingBuffer_getStats ?rb"] b(4) [of "lg_printFallCount lg"] b(4) [of "lg_hdrPatErr lg"]
    b(4) [of "lg_hdrLenErr lg"] b(4) [of "lg_hdrTailErr lg"] b(4) [of "lg_fullBufLenErr lg"] b(4) [of "lg_getNextHeaderFailCount lg"]
    b(4) [of "lg_getStringCorruptedCount lg"]
  show "length (concat (state_lines lg name)) \<le> 594 + length name"
    using us b(2) [of "lg_fwriteErrno lg"] b(3) [of "lg_collectCount lg"] b(3) [of "lg_lostCollectCount lg"] unfolding len by linarith
  show "402 + length name \<le> length (concat (state_lines lg name))"
    using ls b(5) [of "lg_fwriteErrno lg"] b(6) [of "lg_collectCount lg"] b(6) [of "lg_lostCollectCount lg"] unfolding len by linarith
qed

lemma Stream_dumpState_fits:
  assumes "length b = 1000"
  shows "\<exists>b'. Stream_dumpState st b n = Inr b' \<and> length b' = 1000"
proof -
  let ?s = "st_stats st"
  note b = u_text_length [of "ss_zlibError ?s"] d_text_length [of "ss_zlibErrorNo ?s"] u_text_length [of "ss_zlibDeflateInitError ?s"]
    u_text_length [of "ss_zlibDeflateError ?s"] u_text_length [of "ss_ioErrorNo ?s"] u_text_length [of "ss_ioError ?s"]
    u_text_length [of "ss_ioWriteError ?s"] u_text_length [of "ss_ioReadError ?s"] u_text_length [of "ss_ioSeekError ?s"]
    u_text_length [of "ss_compressError ?s"] u_text_length [of "ss_flushWriteCount ?s"]
  have "length (concat (stream_lines ?s)) < length b" using assms b by (simp add: stream_lines_def)
  then show ?thesis using sprintf_lines_fits [of "stream_lines ?s" b] assms by (auto simp: Stream_dumpState_def)
qed

lemma Collect_dumpState_fits:
  assumes "length b = 1000"
  shows "\<exists>b'. Collect_dumpState c b n = Inr b' \<and> length b' = 1000"
proof -
  note b = u_text_length [of "cl_collectorBookmark c"] u_text_length [of "cl_bufferThresholdPct c"]
    u_text_length [of "if cl_enable c then 1 else 0"] u_text_length [of "cl_prevCollectRangeStart c"]
    u_text_length [of "cl_prevCollectRangeEnd c"]
  have "length (concat (collect_lines c)) < length b"
    using assms b by (simp add: collect_lines_def del: if_split)
  then show ?thesis using sprintf_lines_fits [of "collect_lines c" b] assms by (auto simp: Collect_dumpState_def)
qed

text \<open>
  C40. What the state dumps need. The length they are passed plays no part. The dump of a log of which the text has
  \<open>n\<close> characters writes exactly that text when the buffer has more than \<open>n\<close> bytes, and writes behind the buffer when it
  has not; \<open>n\<close> is 402 to 594 more than the file name has, so the arrays of 1000 bytes that \<^verbatim>\<open>dump\<close> and \<^verbatim>\<open>printState\<close>
  pass are safe for names of up to 405 characters and overflow for names of 598 and more. The dumps of stream and
  collector always fit them.
\<close>

theorem dumpState_bounds:
  assumes "filename_text (getTraceFilename lg) = Inr name" and "text_length = length (concat (state_lines lg name))"
  shows "(if text_length < length b
      then \<exists>b'. Log_dumpState lg b bufferLen = Inr b' \<and> length b' = length b \<and>
        take text_length b' = bytes_of (concat (state_lines lg name))
      else Log_dumpState lg b bufferLen = Inl OutOfBounds) \<and>
    402 + length name \<le> text_length \<and> text_length \<le> 594 + length name \<and>
    (length b = 1000 \<longrightarrow> (\<exists>b'. Stream_dumpState st b bufferLen = Inr b' \<and> length b' = 1000) \<and>
      (\<exists>b'. Collect_dumpState c b bufferLen = Inr b' \<and> length b' = 1000))"
proof -
  have "if text_length < length b
      then \<exists>b'. Log_dumpState lg b bufferLen = Inr b' \<and> length b' = length b \<and>
        take text_length b' = bytes_of (concat (state_lines lg name))
      else Log_dumpState lg b bufferLen = Inl OutOfBounds"
  proof (cases "text_length < length b")
    case True
    then show ?thesis using sprintf_lines_fits [of "state_lines lg name" b] assms by (auto simp: Log_dumpState_def)
  next
    case False
    have "state_lines lg name \<noteq> []" by (simp add: state_lines_def)
    then have "sprintf_lines b 0 (state_lines lg name) = Inl OutOfBounds"
      using False assms(2) by (intro sprintf_lines_overflow) simp_all
    then show ?thesis using False assms(1) by (simp add: Log_dumpState_def)
  qed
  then show ?thesis using state_lines_bounds [where lg = lg and name = name] Stream_dumpState_fits Collect_dumpState_fits assms(2) by blast
qed

theorem dumpState_bounds_witness:
  "Log_dumpState (zero_log\<lparr>lg_filename := c_strncpy 1000 (replicate 700 (CHR ''x''))\<rparr>) (replicate 1000 0) 1000 = Inl OutOfBounds"
proof -
  let ?lg = "zero_log\<lparr>lg_filename := c_strncpy 1000 (replicate 700 (CHR ''x''))\<rparr>"
  have "takeWhile (\<lambda>c. c \<noteq> 0) (replicate 700 (byte_of (CHR ''x'')) @ replicate 300 0) = replicate 700 (byte_of (CHR ''x''))"
    by (simp add: takeWhile_append takeWhile_replicate)
  then have "filename_text (getTraceFilename ?lg) = Inr (replicate 700 (CHR ''x''))"
    by (simp add: filename_text_def c_strlen_def getTraceFilename_def c_strncpy_def bytes_of_def Let_def)
  note b = dumpState_bounds [OF this refl, where b = "replicate 1000 0" and bufferLen = 1000 and st = "Stream_new zero_stats"
    and c = demo_collect]
  have "\<not> length (concat (state_lines ?lg (replicate 700 (CHR ''x'')))) < length (replicate 1000 (0 :: u8))"
    using b [THEN conjunct2, THEN conjunct1] unfolding length_replicate by linarith
  then show ?thesis using b [THEN conjunct1] by (simp only: if_False)
qed

section \<open>The empty log\<close>

lemma empty_ring_invalid:
  assumes "rb_buffer (lg_ringBuffer lg) = replicate n 0" and "0 < n"
  shows "\<not> valid_at lg i"
proof
  assume "valid_at lg i"
  then have "circ (rb_buffer (lg_ringBuffer lg)) i 4 = u32_bytes START_PATTERN" by (rule valid_at_pattern)
  then have "replicate 4 0 = u32_bytes START_PATTERN" using assms by (simp add: circ_replicate)
  moreover have "u32_bytes START_PATTERN = [206, 250, 237, 190]" by (simp add: u32_bytes_def START_PATTERN_def le_bytes_numeral)
  moreover have "replicate 4 (0 :: u8) = [0, 0, 0, 0]" by (simp add: numeral_eq_Suc)
  ultimately show False by simp
qed

lemma dump_step_stops:
  assumes "log_ok (dp_log st)" and "length (dp_buf st) = 8192" and "stream_ok (dp_stream st) (dp_files st)"
    and "4096 \<le> stream_chunk (dp_stream st)" and "512 \<le> stream_room (dp_stream st) (dp_files st)"
    and "unat (dp_i st) < unat (rb_size (lg_ringBuffer (dp_log st)))" and "\<not> valid_at (dp_log st) (unat (dp_i st))"
  shows "\<exists>st' (h :: header) msg. dump_step M strf e False retry st = Inr (True, st') \<and>
    appended (dp_stream st) (dp_files st) (bytes_of (discard_prefix @ u_text (hd_id h) @ msg)) (dp_stream st') (dp_files st') \<and>
    lg_core (dp_log st') = lg_core (dp_log st)"
proof -
  obtain lg1 dst where p: "printAtIndex M strf (dp_log st) (dp_i st) (dp_buf st) retry (Some (dp_header st)) =
      Inr \<lparr>pr_err = - 1, pr_log = lg1, pr_dst = dst, pr_next = dp_i st, pr_header = Some (dp_header st), pr_length = 0\<rparr>"
      "lg_core lg1 = lg_core (dp_log st)" "length dst = 8192"
    using printAtIndex_fails [OF assms(1,2,7)] by blast
  let ?st1 = "st\<lparr>dp_log := lg1, dp_buf := dst, dp_header := dp_header st\<rparr>"
  have ok: "log_ok lg1" "lg_ringBuffer lg1 = lg_ringBuffer (dp_log st)"
    using lg_core_log_ok [OF p(2)] lg_core_ring [OF p(2)] assms(1) by simp_all
  obtain lg' j tb st2 t where d: "dump_discard ?st1 = Inr (j, st2)" "lg_core (dp_log st2) = lg_core lg1"
      "t = discard_text lg' (header_of (take 56 tb)) j (dp_header st)"
      "appended (dp_stream st) (dp_files st) (bytes_of t) (dp_stream st2) (dp_files st2)"
    using dump_discard_spec [of ?st1] ok p(3) assms(3-6) by auto
  obtain msg where "t = discard_prefix @ u_text (hd_id (header_of (take 56 tb))) @ msg"
    using discard_text_shape d(3) by blast
  then have "appended (dp_stream st) (dp_files st) (bytes_of (discard_prefix @ u_text (hd_id (header_of (take 56 tb))) @ msg))
      (dp_stream st2) (dp_files st2)" using d(4) by simp
  moreover have "dump_step M strf e False retry st = Inr (True, st2\<lparr>dp_i := j\<rparr>)" using p(1) d(1) by (simp add: dump_step_def)
  ultimately show ?thesis using p(2) d(2)
    by (intro exI [of _ "st2\<lparr>dp_i := j\<rparr>"] exI [of _ "header_of (take 56 tb)"] exI [of _ msg]) simp
qed

text \<open>
  Dumping a log to which nothing was written reports a loss. The range from line 0 to the line before 0 is not
  empty for \<^verbatim>\<open>dumpRange\<close>, so it looks for a record at position 0, waits in vain and prints that logs were discarded.
\<close>

theorem dump_empty_log:
  assumes "log_ok lg" and "rb_buffer (lg_ringBuffer lg) = replicate (unat (rb_size (lg_ringBuffer lg))) 0"
    and "rb_currentIndex (lg_ringBuffer lg) = 0" and "rb_indexWrapAroundCount (lg_ringBuffer lg) = 0"
    and "stream_ok x fs" and "4096 \<le> stream_chunk x" and "512 \<le> stream_room x fs" and "length stack = 8192"
  shows "\<exists>lg' x' fs' msg. Log_dump M strf junk so buf0 stack lg out (Some x) fs False = Some (Inr (lg', out, x', fs')) \<and>
    file_data fs' (obj_fileHandle x) =
      stream_contents x fs @ bytes_of (''<<<< Logs are discarded. Index is realigned to id: '' @ msg) \<and>
    lg_ringBuffer lg' = lg_ringBuffer lg"
proof -
  let ?rb = "lg_ringBuffer lg" and ?N = "unat (rb_size (lg_ringBuffer lg))"
  have wf: "rb_wf ?rb" "0 < ?N" using assms(1) unat_rb_cap [of ?rb] by (simp_all add: log_ok_def)
  have first: "firstLine lg = Inr (lg, 0)"
    using assms(3,4) wf(2) by (simp add: firstLine_def RingBuffer_getCurrentIndex_def RingBuffer_hasWrappedAround_def unat_gt_0)
  have le: "unat (0 :: u32) mod ?N \<le> unat (- 1 :: u32) mod ?N + 1" by simp
  obtain start e where se: "unat start = unat (0 :: u32) mod ?N" "unat e = unat (- 1 :: u32) mod ?N + 1"
      "dumpRange M strf stack lg x fs 0 (- 1) False =
        bindT (dumpRange_loop M strf e False (\<not> False) (dump_start start lg x fs stack))
          (\<lambda>st. Some (Inr (dp_log st, dp_stream st, dp_files st, dp_i st)))"
    by (rule dumpRange_eq [OF assms(1) refl le])
  let ?st = "dump_start start lg x fs stack"
  have st: "dp_log ?st = lg" "dp_i ?st = 0" "dp_stream ?st = x" "dp_files ?st = fs" "dp_buf ?st = stack"
    using se(1) by (simp_all add: dump_start_def word_unat_eq_iff)
  obtain st' and h :: header and msg where step: "dump_step M strf e False True ?st = Inr (True, st')" "lg_core (dp_log st') = lg_core lg"
      "appended x fs (bytes_of (discard_prefix @ u_text (hd_id h) @ msg)) (dp_stream st') (dp_files st')"
    using dump_step_stops [of ?st M strf e True] st assms(1,5-8) wf(2) empty_ring_invalid [OF assms(2) wf(2)] by auto
  have "dp_i ?st < e" using se(2) st(2) by (simp add: word_less_nat_alt)
  then have "dumpRange_loop M strf e False True ?st = Some (Inr st')" using step(1) by (subst dumpRange_loop.simps) simp
  then have run: "dumpRange M strf stack lg x fs 0 (- 1) False = Some (Inr (dp_log st', dp_stream st', dp_files st', dp_i st'))"
    using se(3) by simp
  have ap: "stream_ok (dp_stream st') (dp_files st')" "obj_fileHandle (dp_stream st') = obj_fileHandle x"
    "stream_contents (dp_stream st') (dp_files st') = stream_contents x fs @ bytes_of (discard_prefix @ u_text (hd_id h) @ msg)"
    using step(3) by (simp_all add: appended_def)
  obtain x2 fs2 where f: "stream_flush (dp_stream st') (dp_files st') = Inr (x2, fs2, 0)" "obj_fileHandle x2 = obj_fileHandle (dp_stream st')"
      "stream_contents x2 fs2 = stream_contents (dp_stream st') (dp_files st')"
    using sink.flush_law [OF ap(1)] by blast
  have "file_data fs2 (obj_fileHandle x) = stream_contents x2 fs2"
    using stream_flush_flushed [OF ap(1) f(1)] f(2) ap(2) by (simp add: stream_contents_def flushed_def)
  then have "file_data fs2 (obj_fileHandle x) =
      stream_contents x fs @ bytes_of (''<<<< Logs are discarded. Index is realigned to id: '' @ u_text (hd_id h) @ msg)"
    using f(3) ap(3) by (simp add: discard_prefix_def)
  moreover have "Log_dump M strf junk so buf0 stack lg out (Some x) fs False = Some (Inr (dp_log st', out, x2, fs2))"
    using first run f(1) wf(1) assms(3) by (simp add: Log_dump_def RingBuffer_getCurrentIndex_def)
  ultimately show ?thesis using lg_core_ring [OF step(2)] by blast
qed

theorem dump_empty_log_witness:
  "\<exists>lg' x' fs' msg. Log_dump demo_mem demo_strf zero_stats 1 [] (replicate 8192 0) demo_log None (Some demo_stream) demo_files False =
      Some (Inr (lg', None, x', fs')) \<and>
    file_data fs' 3 = bytes_of (''<<<< Logs are discarded. Index is realigned to id: '' @ msg)"
proof -
  have "rb_buffer (lg_ringBuffer demo_log) = replicate (unat (rb_size (lg_ringBuffer demo_log))) 0" by (simp add: demo_log_def)
  then show ?thesis
    using dump_empty_log [OF demo_log_fresh(1) _ demo_log_fresh(2,3) demo_stream_ok(1,2), of "replicate 8192 0" demo_mem demo_strf zero_stats 1 "[]" None]
      demo_stream_ok by fastforce
qed

section \<open>What every operation keeps\<close>

text \<open>Reading, printing and dumping change neither the ring nor the indices, whatever the ring holds.\<close>

definition lg_frame :: "log \<Rightarrow> ringbuffer \<times> u32 \<times> u32 \<times> stream_obj \<times> u64" where
  "lg_frame lg = (lg_ringBuffer lg, lg_globalId lg, lg_bufLastWrittenIndex lg, lg_stream lg, lg_fileHandle lg)"

lemma lg_core_frame: "lg_core lg' = lg_core lg \<Longrightarrow> lg_frame lg' = lg_frame lg"
  by (simp add: lg_core_def lg_frame_def)

lemma bindE_rest: "bindE r f = Inr y \<Longrightarrow> \<exists>x. f x = Inr y"
  by (auto simp: bindE_eq_Inr_iff)

lemma print_spin_frame: "print_spin lg i b retry n = Inr (ok, lg', b') \<Longrightarrow> lg_frame lg' = lg_frame lg"
proof (induction lg i b retry n rule: print_spin.induct)
  case (2 lg i b retry n)
  obtain s lg1 b1 where g: "getLog lg i b = Inr (s, lg1, b1)" using 2(2) by (auto simp: bindE_eq_Inr_iff)
  have f: "lg_frame lg1 = lg_frame lg" using getLog_core [OF g] lg_core_frame by blast
  show ?case
  proof (cases "s \<or> \<not> retry \<or> n = 0")
    case True
    then show ?thesis using 2(2) g f by (auto split: if_splits)
  next
    case False
    then show ?thesis using 2(1) [OF g refl refl] 2(2) g f by auto
  qed
qed simp

lemma printAtIndex_frame:
  assumes "printAtIndex M strf lg i dst retry ph = Inr pr"
  shows "lg_frame (pr_log pr) = lg_frame lg"
proof -
  obtain dst0 ok lg1 sc where s: "mem_write dst 0 [0] = Inr dst0" "print_spin lg i scratch_block retry SPINS = Inr (ok, lg1, sc)"
    using assms by (auto simp: printAtIndex_def bindE_eq_Inr_iff simp del: mem_write_in)
  have f: "lg_frame lg1 = lg_frame lg" by (rule print_spin_frame [OF s(2)])
  show ?thesis
  proof (cases ok)
    case False
    then show ?thesis using assms s f by (auto simp: printAtIndex_def lg_frame_def)
  next
    case True
    have "lg_frame (pr_log pr) = lg_frame lg1"
      using assms unfolding printAtIndex_def s(1) bindE_simps s(2) prod.case Let_def
      by (simp only: True not_True_eq_False if_False)
        ((erule bindE_eq_InrE | clarsimp simp: lg_frame_def simp del: mem_read_in)+)
    then show ?thesis using f by simp
  qed
qed

lemma dump_discard_frame:
  assumes "dump_discard st = Inr (i, st')"
  shows "lg_frame (dp_log st') = lg_frame (dp_log st)"
proof -
  have f: "lg_frame lg1 = lg_frame (dp_log st)" if "getNextHeader (dp_log st) (dp_i st) (Some (dp_buf st)) = Inr (lg1, j, b)" for lg1 j b
    using getNextHeader_loop_core [THEN conjunct1, THEN lg_core_frame] that unfolding getNextHeader_def by blast
  obtain lg1 j b where n: "getNextHeader (dp_log st) (dp_i st) (Some (dp_buf st)) = Inr (lg1, j, b)"
    using assms unfolding dump_discard_def by (elim bindE_eq_InrE) (auto split: prod.splits)
  have "dp_log st' = lg1"
    using assms unfolding dump_discard_def Let_def n bindE_simps prod.case
    by - ((erule bindE_eq_InrE | clarsimp simp del: mem_read_in mem_write_in)+)
  then show ?thesis using f [OF n] by simp
qed

lemma dump_step_frame:
  assumes "dump_step M strf e cof retry st = Inr (d, st')"
  shows "lg_frame (dp_log st') = lg_frame (dp_log st)"
proof -
  obtain pr where p: "printAtIndex M strf (dp_log st) (dp_i st) (dp_buf st) retry (Some (dp_header st)) = Inr pr"
    using assms by (auto simp: dump_step_def bindE_eq_Inr_iff)
  have f: "lg_frame (pr_log pr) = lg_frame (dp_log st)" by (rule printAtIndex_frame [OF p])
  show ?thesis
    using assms p f by (auto simp: dump_step_def bindE_eq_Inr_iff Let_def lg_frame_def dest!: dump_discard_frame split: if_splits)
qed

lemma dumpRange_loop_frame:
  assumes "dumpRange_loop M strf e cof retry st = Some (Inr st')"
  shows "lg_frame (dp_log st') = lg_frame (dp_log st)"
proof -
  have "\<forall>st'. r = Inr st' \<longrightarrow> lg_frame (dp_log st') = lg_frame (dp_log st)"
    if "dumpRange_loop M strf e cof retry st = Some r" for r
    by (rule dumpRange_loop.raw_induct [OF _ that, where ?P = "\<lambda>M strf e cof retry st r. \<forall>st'. r = Inr st' \<longrightarrow> lg_frame (dp_log st') = lg_frame (dp_log st)"])
      (auto split: if_splits sum.splits prod.splits dest: dump_step_frame)
  then show ?thesis using assms by blast
qed

lemma dumpRange_frame:
  assumes "dumpRange M strf stack lg x fs a b cof = Some (Inr (lg', x', fs', i))"
  shows "lg_frame lg' = lg_frame lg"
  using assms
  by (auto simp: dumpRange_def bindT_def Let_def split: sum.splits option.splits prod.splits dest: dumpRange_loop_frame)

lemma firstLine_frame: "firstLine lg = Inr (lg', i) \<Longrightarrow> lg_frame lg' = lg_frame lg"
  unfolding firstLine_def getNextHeaderIndex_def getNextHeader_def Let_def
  by (auto simp: bindE_eq_Inr_iff split: if_splits dest: getNextHeader_loop_core [THEN conjunct1, THEN lg_core_frame])

lemma bindT_eq_SomeD: "bindT r f = Some (Inr y) \<Longrightarrow> \<exists>v. r = Some (Inr v) \<and> f v = Some (Inr y)"
  by (auto simp: bindT_def split: option.splits sum.splits)

lemma Log_dump_frame:
  assumes "Log_dump M strf junk so buf0 stack lg out x fs detail = Some (Inr (lg', out', x', fs'))"
  shows "lg_frame lg' = lg_frame lg"
  using assms unfolding Log_dump_def
  by - ((drule bindT_eq_SomeD | elim exE conjE | clarsimp simp: bindE_eq_Inr_iff simp del: mem_read_in mem_write_in
    dest!: firstLine_frame dumpRange_frame)+)

lemma RingBuffer_set_frame:
  "RingBuffer_set rb i src n = Inr rb' \<Longrightarrow> \<exists>b. rb' = rb\<lparr>rb_buffer := b\<rparr> \<and> length b = length (rb_buffer rb)"
  unfolding RingBuffer_set_def Let_def
  by (auto simp: bindE_eq_Inr_iff simp del: mem_read_in mem_write_in split: if_splits dest!: mem_write_length)

lemma lg_frame_fields:
  "lg_frame lg' = lg_frame lg \<longleftrightarrow> lg_ringBuffer lg' = lg_ringBuffer lg \<and> lg_globalId lg' = lg_globalId lg \<and>
    lg_bufLastWrittenIndex lg' = lg_bufLastWrittenIndex lg \<and> lg_stream lg' = lg_stream lg \<and> lg_fileHandle lg' = lg_fileHandle lg"
  by (auto simp: lg_frame_def)

text \<open>
  The ring is well formed and large enough for every record, the last index written is the ring's current one, and
  the next id is neither of the two patterns.
\<close>

definition system_ok :: "system \<Rightarrow> bool" where
  "system_ok s \<longleftrightarrow> log_ok (sy_log s) \<and> getLastWrittenIndex (sy_log s) = RingBuffer_getCurrentIndex (lg_ringBuffer (sy_log s)) \<and>
     lg_globalId (sy_log s) \<noteq> START_PATTERN \<and> lg_globalId (sy_log s) \<noteq> END_PATTERN"

text \<open>
  One operation on a log and its collector, each run to its end, with any arguments: a call of \<^verbatim>\<open>traceVargs\<close>, of the
  collector's operations, or of \<^verbatim>\<open>dump\<close> on a stream of the caller or on the log's own.
\<close>

inductive log_step :: "cmem \<Rightarrow> (u64 \<Rightarrow> string) \<Rightarrow> system \<Rightarrow> system \<Rightarrow> bool" for M strf where
  step_trace: "traceVargs M stack now (sy_log s) withTs fn line tag fmt args = Inr lg \<Longrightarrow> log_step M strf s (s\<lparr>sy_log := lg\<rparr>)"
| step_collect: "Collect_collect M strf stack1 stack2 s = Some (Inr (s', i)) \<Longrightarrow> log_step M strf s s'"
| step_idle: "Collect_idle s = Inr s' \<Longrightarrow> log_step M strf s s'"
| step_flush: "Collect_flush M strf stack1 stack2 s = Some (Inr s') \<Longrightarrow> log_step M strf s s'"
| step_threshold: "log_step M strf s (Collect_setBufferThresholdPct v s)"
| step_enable: "Collect_setEnable M strf stack1 stack2 created (\<lambda>s. Some (Inr s)) enabled s = Some (Inr s') \<Longrightarrow> log_step M strf s s'"
| step_dump: "Log_dump M strf junk so buf0 stack (sy_log s) out x (sy_files s) detail = Some (Inr (lg, out', x', fs)) \<Longrightarrow>
    log_step M strf s (s\<lparr>sy_log := lg, sy_files := fs\<rparr>)"
| step_dump_own: "Log_dump M strf junk so buf0 stack (sy_log s) out (Some (log_getStream s)) (sy_files s) detail =
      Some (Inr (lg, out', x', fs)) \<Longrightarrow> log_step M strf s (s\<lparr>sy_log := lg\<lparr>lg_stream := x'\<rparr>, sy_files := fs\<rparr>)"

definition rest_frame :: "system \<Rightarrow> ringbuffer \<times> u32 \<times> u32 \<times> u64" where
  "rest_frame s = (lg_ringBuffer (sy_log s), lg_globalId (sy_log s), lg_bufLastWrittenIndex (sy_log s), lg_fileHandle (sy_log s))"

lemma upd_collect_frame [simp]: "rest_frame (upd_collect f s) = rest_frame s" "sy_log (upd_collect f s) = sy_log s"
  by (simp_all add: rest_frame_def upd_collect_def)

lemma flush_log_stream_frame: "flush_log_stream s = Inr s' \<Longrightarrow> rest_frame s' = rest_frame s"
  by (auto simp: flush_log_stream_def bindE_eq_Inr_iff rest_frame_def)

lemma Collect_idle_frame: "Collect_idle s = Inr s' \<Longrightarrow> rest_frame s' = rest_frame s"
  by (auto simp: Collect_idle_def bindE_eq_Inr_iff Let_def dest!: flush_log_stream_frame split: if_splits)

lemma collect_range_frame:
  assumes "collect_range M strf stack a b c d s = Some (Inr (s', i))"
  shows "rest_frame s' = rest_frame s"
  using assms unfolding collect_range_def Let_def
  by - (drule bindT_eq_SomeD, auto simp: rest_frame_def lg_frame_fields upd_collect_def dest!: dumpRange_frame)

lemma Collect_collect_frame:
  assumes "Collect_collect M strf stack1 stack2 s = Some (Inr (s', i))"
  shows "rest_frame s' = rest_frame s"
  using assms unfolding Collect_collect_def collect_pass_def collect_store_def Let_def
  by - ((drule bindT_eq_SomeD | elim exE conjE | clarsimp simp: bindE_eq_Inr_iff dest!: collect_range_frame split: if_splits)+)

lemma Collect_flush_frame: "Collect_flush M strf stack1 stack2 s = Some (Inr s') \<Longrightarrow> rest_frame s' = rest_frame s"
  by (auto simp: Collect_flush_def dest!: bindT_eq_SomeD Collect_collect_frame flush_log_stream_frame)

lemma Collect_setEnable_frame:
  "Collect_setEnable M strf stack1 stack2 created (\<lambda>s. Some (Inr s)) enabled s = Some (Inr s') \<Longrightarrow> rest_frame s' = rest_frame s"
  by (auto simp: Collect_setEnable_def Collect_resetBookmark_def Let_def dest!: bindT_eq_SomeD Collect_flush_frame
      split: if_splits option.splits)

lemma allocateId_fields: "lg_globalId (fst (allocateId lg)) = next_id (lg_globalId lg)" "lg_ringBuffer (fst (allocateId lg)) = lg_ringBuffer lg"
  by (simp_all add: allocateId_def next_id_def Let_def)

lemma traceVargs_shape:
  assumes "traceVargs M stack now lg withTs fn line tag fmt args = Inr lg'" and "rb_wf (lg_ringBuffer lg)"
  shows "\<exists>len b. lg_ringBuffer lg' = (alloc_after (lg_ringBuffer lg) len)\<lparr>rb_buffer := b\<rparr> \<and> length b = length (rb_buffer (lg_ringBuffer lg)) \<and>
    lg_globalId lg' = next_id (lg_globalId lg) \<and> lg_bufLastWrittenIndex lg' = RingBuffer_getCurrentIndex (lg_ringBuffer lg')"
proof -
  obtain lg1 ident where id: "allocateId lg = (lg1, ident)" by force
  then have f: "lg_globalId lg1 = next_id (lg_globalId lg)" "lg_ringBuffer lg1 = lg_ringBuffer lg"
    using allocateId_fields [of lg] by simp_all
  show ?thesis
    using assms(1) unfolding traceVargs_def Let_def id prod.case
    by - ((erule bindE_eq_InrE | clarsimp simp: RingBuffer_allocate_eq assms(2) f setLastWrittenIndex_def RingBuffer_getCurrentIndex_def
      simp del: mem_read_in mem_write_in dest!: RingBuffer_set_frame)+, blast?)
qed

lemma rb_ok_buffer: "length b = length (rb_buffer rb) \<Longrightarrow> rb_ok (rb\<lparr>rb_buffer := b\<rparr>) = rb_ok rb"
  by (simp add: rb_ok_def rb_wf_def)

lemma log_step_keeps:
  assumes "log_step M strf s s'" and "system_ok s"
  shows "system_ok s' \<and> rb_size (lg_ringBuffer (sy_log s')) = rb_size (lg_ringBuffer (sy_log s))"
proof -
  have frame: ?thesis if "rest_frame s' = rest_frame s"
    using assms(2) that by (simp add: system_ok_def rest_frame_def log_ok_def getLastWrittenIndex_def)
  have dump: "rest_frame s' = rest_frame s" if "lg_frame lg = lg_frame (sy_log s)" "s' = s\<lparr>sy_log := lg\<lparr>lg_stream := x\<rparr>, sy_files := fs\<rparr>" for lg x fs
    using that by (simp add: rest_frame_def lg_frame_fields)
  show ?thesis
    using assms(1)
  proof cases
    case (step_trace stack now withTs fn line tag fmt args lg)
    have ok: "rb_ok (lg_ringBuffer (sy_log s))" "4096 \<le> unat (rb_size (lg_ringBuffer (sy_log s)))"
      using assms(2) by (simp_all add: system_ok_def log_ok_def)
    obtain len b where "lg_ringBuffer lg = (alloc_after (lg_ringBuffer (sy_log s)) len)\<lparr>rb_buffer := b\<rparr>"
        "length b = length (rb_buffer (lg_ringBuffer (sy_log s)))" "lg_globalId lg = next_id (lg_globalId (sy_log s))"
        "lg_bufLastWrittenIndex lg = RingBuffer_getCurrentIndex (lg_ringBuffer lg)"
      using traceVargs_shape [OF step_trace(2)] ok(1) by (auto simp: rb_ok_def)
    then show ?thesis
      using ok next_id_pattern_free [of "lg_globalId (sy_log s)"] step_trace(1)
      by (simp add: system_ok_def log_ok_def rb_ok_buffer getLastWrittenIndex_def pattern_free_def)
  next
    case step_threshold
    then have "rest_frame s' = rest_frame s" by (simp add: Collect_setBufferThresholdPct_def)
    then show ?thesis by (rule frame)
  next
    case (step_dump junk so buf0 stack out x detail lg out' x' fs)
    have "rest_frame s' = rest_frame s"
      using Log_dump_frame [OF step_dump(2)] step_dump(1) by (simp add: rest_frame_def lg_frame_fields)
    then show ?thesis by (rule frame)
  next
    case (step_dump_own junk so buf0 stack out detail lg out' x' fs)
    then show ?thesis using frame dump Log_dump_frame by blast
  qed (blast intro!: frame dest: Collect_collect_frame Collect_idle_frame Collect_flush_frame Collect_setEnable_frame)+
qed

text \<open>
  C5. The invariant of the whole object. Whatever sequence of operations runs on a log and its collector, with any
  arguments, formats, streams and state of the files, and whether or not the ring still holds records, the ring
  stays well formed and keeps its size, the last index written stays the ring's current index, and the id that the
  next record gets is never one of the two patterns: no operation that returns breaks what the next one relies on.
\<close>

theorem system_ok_reachable:
  assumes "(log_step M strf)\<^sup>*\<^sup>* s s'" and "system_ok s"
  shows "system_ok s' \<and> rb_size (lg_ringBuffer (sy_log s')) = rb_size (lg_ringBuffer (sy_log s))"
  using assms by (induction rule: rtranclp_induct) (auto dest: log_step_keeps)

theorem system_ok_reachable_witness:
  "\<exists>lg s'. trace demo_mem (sy_log demo_system) demo_call = Inr lg \<and>
    s' = Collect_setBufferThresholdPct 80 (demo_system\<lparr>sy_log := lg\<rparr>) \<and> cl_bufferThresholdPct (sy_collect s') = 80 \<and>
    system_ok s' \<and> rb_size (lg_ringBuffer (sy_log s')) = rb_size (lg_ringBuffer demo_log)"
proof -
  have log: "log_ok (sy_log demo_system)" using demo_log_fresh(1) demo_system_fields(9) by (simp add: log_ok_def)
  have ok: "system_ok demo_system"
    using log demo_system_fields(1,3,4)
    by (simp add: system_ok_def getLastWrittenIndex_def RingBuffer_getCurrentIndex_def START_PATTERN_def END_PATTERN_def)
  obtain lg where t: "trace demo_mem (sy_log demo_system) demo_call = Inr lg"
    using trace_eq [OF log demo_mem_ok demo_call_ok(1)] by blast
  let ?s1 = "demo_system\<lparr>sy_log := lg\<rparr>" and ?s2 = "Collect_setBufferThresholdPct 80 (demo_system\<lparr>sy_log := lg\<rparr>)"
  have "log_step demo_mem demo_strf demo_system ?s1" using t unfolding trace_def by (rule step_trace)
  moreover have "log_step demo_mem demo_strf ?s1 ?s2" by (rule step_threshold)
  ultimately have "(log_step demo_mem demo_strf)\<^sup>*\<^sup>* demo_system ?s2" by (blast intro: converse_rtranclp_into_rtranclp)
  then have "system_ok ?s2 \<and> rb_size (lg_ringBuffer (sy_log ?s2)) = rb_size (lg_ringBuffer (sy_log demo_system))"
    using ok by (rule system_ok_reachable)
  moreover have "cl_bufferThresholdPct (sy_collect ?s2) = 80" by (simp add: Collect_setBufferThresholdPct_def upd_collect_def)
  ultimately show ?thesis
    using t unfolding demo_system_fields(9) by (intro exI [of _ lg] exI [of _ ?s2] conjI refl) simp_all
qed

end
