(* ===== verification/Collector_Limits.thy ===== *)
theory Collector_Limits
  imports Log_Lifecycle
begin

text \<open>
  Two limits of the collector: the threshold that is meant to delay it is compared with a quantity that is off by
  most of the ring, and a pass over a ring without a complete record never ends.
\<close>

section \<open>The threshold\<close>

lemma threshold_bound: "unat (Collect_getBufferThreshold s) \<le> 42949672"
proof -
  have "unat (x div 100 :: u32) \<le> 4294967295 div 100" for x
    using unat_u32_bound [of x] by (simp add: unat_div div_le_mono)
  then show ?thesis by (simp add: Collect_getBufferThreshold_def)
qed

text \<open>Bytes behind the bookmark within one round: the quantity the threshold is documented to be about.\<close>

lemma shall_distances:
  fixes t w b top :: u32
  assumes "unat t \<le> 42949672" and "N \<le> 2 ^ 31" and "unat w < N" and "unat b < N" and "unat top < N" and "w \<noteq> b"
  shows "(w - b > t \<or> (top - b) + w > t) \<longleftrightarrow> unat w < unat b \<or> unat t < unat top + (unat w - unat b)"
proof (cases "unat w < unat b")
  case True
  then have "unat (w - b) = 2 ^ 32 - (unat b - unat w)"
    by (subst unat_sub_if') auto
  then have "w - b > t" using assms(1-4) by (simp add: word_less_nat_alt)
  then show ?thesis using True by simp
next
  case False
  then have w: "unat b \<le> unat w" by simp
  then have d: "unat (w - b) = unat w - unat b" by (subst unat_sub) (simp_all add: word_le_nat_alt)
  have e: "(top - b) + w = top + (w - b)" by simp
  have "unat top + unat (w - b) < 2 ^ 32" unfolding d using assms(2,3,5) by (intro less_le_trans [OF add_strict_mono [of "unat top" N _ N]]) (simp_all, linarith?)
  then have s: "unat ((top - b) + w) = unat top + (unat w - unat b)"
    unfolding e d [symmetric] by (intro unat_add_lem [THEN iffD1]) simp
  show ?thesis using False d s unfolding word_less_nat_alt by linarith
qed

text \<open>
  C17. What \<^verbatim>\<open>shallCollect\<close> decides, exactly: with \<open>w\<close> and \<open>b\<close> the ring positions of the last written index and of the
  bookmark, it collects when they differ and either the writer is behind the bookmark or the bytes pending, plus
  the position of index \<^verbatim>\<open>0xffffffff\<close>, exceed the threshold. The test for logs that wrapped around is made for the
  others too, and adds that position to the pending bytes: on the default ring of 20 MiB it is 80 percent of the
  size, so that thresholds up to 79 percent delay nothing.
\<close>

theorem shallCollect_closed_form:
  assumes "rb_ok (lg_ringBuffer (sy_log s))" and "N = unat (rb_size (lg_ringBuffer (sy_log s)))"
    and "w = unat (getLastWrittenIndex (sy_log s)) mod N" and "b = unat (cl_collectorBookmark (sy_collect s)) mod N"
  shows "Collect_shallCollect s =
    Inr (w \<noteq> b \<and> (w < b \<or> unat (Collect_getBufferThreshold s) < 4294967295 mod N + (w - b)))"
proof -
  let ?rb = "lg_ringBuffer (sy_log s)"
  let ?w = "getLastWrittenIndex (sy_log s) mod rb_size ?rb" and ?b = "cl_collectorBookmark (sy_collect s) mod rb_size ?rb"
  let ?t = "Collect_getBufferThreshold s" and ?top = "0xffffffff mod rb_size ?rb"
  have N: "0 < N" "N \<le> 2 ^ 31" "rb_size ?rb \<noteq> 0" using assms(1,2) by (auto simp: rb_ok_def rb_wf_def)
  have u: "unat ?w = w" "unat ?b = b" "unat ?top = 4294967295 mod N"
    using assms(2-4) by (simp_all add: unat_mod)
  have bound: "unat ?w < N" "unat ?b < N" "unat ?top < N" using u assms(3,4) N(1) by simp_all
  have norm: "RingBuffer_normalize ?rb i = Inr (i mod rb_size ?rb)" for i using N(3) by (simp add: RingBuffer_normalize_def)
  have "?w = ?b \<longleftrightarrow> w = b" using u by (simp add: word_unat_eq_iff)
  moreover have "(?w - ?b > ?t \<or> (?top - ?b) + ?w > ?t) \<longleftrightarrow> w < b \<or> unat ?t < 4294967295 mod N + (w - b)" if "?w \<noteq> ?b"
    using shall_distances [OF threshold_bound N(2) bound that] u by simp
  ultimately show ?thesis by (auto simp: Collect_shallCollect_def norm Let_def)
qed

text \<open>The default ring, a threshold of 79 percent, and one byte pending.\<close>

definition default_system :: system where
  "default_system = demo_system\<lparr>sy_log := (sy_log demo_system)\<lparr>lg_ringBuffer := RingBuffer_new zeroed_ring DEFAULT_BUFFER_SIZE True,
     lg_bufLastWrittenIndex := 1001\<rparr>, sy_collect := demo_collect\<lparr>cl_bufferThresholdPct := 79, cl_collectorBookmark := 1000\<rparr>\<rparr>"

theorem shallCollect_closed_form_witness:
  "Collect_shallCollect default_system = Inr True \<and> unat (Collect_getBufferThreshold default_system) = 16567500"
proof -
  have ok: "rb_ok (lg_ringBuffer (sy_log default_system))"
    by (simp add: default_system_def DEFAULT_BUFFER_SIZE_def RingBuffer_new_ok)
  have size: "unat (rb_size (lg_ringBuffer (sy_log default_system))) = 20971520"
    by (simp add: default_system_def DEFAULT_BUFFER_SIZE_def RingBuffer_new_def)
  have t: "unat (Collect_getBufferThreshold default_system) = 16567500"
    by (simp add: default_system_def DEFAULT_BUFFER_SIZE_def RingBuffer_new_def Collect_getBufferThreshold_def)
  have i: "unat (getLastWrittenIndex (sy_log default_system)) = 1001"
    "unat (cl_collectorBookmark (sy_collect default_system)) = 1000"
    by (simp_all add: default_system_def getLastWrittenIndex_def)
  show ?thesis
    using shallCollect_closed_form [OF ok size [symmetric] refl refl] t i by simp
qed

section \<open>A ring without records\<close>

lemma plain_write:
  assumes "fs (st_fileHandle st) \<noteq> None" and "unat len \<le> length xs"
  shows "\<exists>st' fs'. stream_write (PlainStream st) fs xs len = Inr (PlainStream st', fs') \<and> st_fileHandle st' = st_fileHandle st \<and>
    fs' (st_fileHandle st) \<noteq> None"
proof -
  obtain f where "fs (st_fileHandle st) = Some f" using assms(1) by blast
  then show ?thesis using assms(2) by (simp add: Stream_write_def fwrite_def Let_def)
qed

text \<open>What holds at the head of the loop: no record anywhere, a stream whose file is open.\<close>

definition hopeless :: "dumper \<Rightarrow> bool" where
  "hopeless st \<longleftrightarrow> log_ok (dp_log st) \<and> (\<forall>k. \<not> valid_at (dp_log st) k) \<and> length (dp_buf st) = 8192 \<and>
     unat (dp_i st) < unat (rb_size (lg_ringBuffer (dp_log st))) \<and>
     (\<exists>st0. dp_stream st = PlainStream st0 \<and> dp_files st (st_fileHandle st0) \<noteq> None)"

lemma dump_step_hopeless:
  assumes "hopeless st"
  shows "\<exists>st'. dump_step M strf e True retry st = Inr (False, st') \<and> dp_i st' = 0 \<and> hopeless st'"
proof -
  let ?N = "unat (rb_size (lg_ringBuffer (dp_log st)))"
  have h: "log_ok (dp_log st)" "\<forall>k. \<not> valid_at (dp_log st) k" "length (dp_buf st) = 8192" "unat (dp_i st) < ?N"
    using assms by (simp_all add: hopeless_def)
  obtain st0 where st0: "dp_stream st = PlainStream st0" "dp_files st (st_fileHandle st0) \<noteq> None"
    using assms by (auto simp: hopeless_def)
  obtain lg1 dst where p: "printAtIndex M strf (dp_log st) (dp_i st) (dp_buf st) retry (Some (dp_header st)) =
      Inr \<lparr>pr_err = - 1, pr_log = lg1, pr_dst = dst, pr_next = dp_i st, pr_header = Some (dp_header st), pr_length = 0\<rparr>"
      "lg_core lg1 = lg_core (dp_log st)" "length dst = 8192"
    using printAtIndex_fails [OF h(1,3)] h(2) by blast
  have ok: "log_ok lg1" "lg_ringBuffer lg1 = lg_ringBuffer (dp_log st)"
    using lg_core_log_ok [OF p(2)] lg_core_ring [OF p(2)] h(1) by simp_all
  then have none: "\<not> valid_at lg1 k" for k using h(2) by (simp add: valid_at_def)
  have N: "?N \<le> 2147483648" using h(1) by (simp add: log_ok_def rb_ok_def)
  have "buf_ok (Some dst)" "unat (dp_i st) + (?N - 0) < 2 ^ 32" "?N = unat (rb_size (lg_ringBuffer lg1))"
    using p(3) h(4) N ok(2) by (simp_all add: buf_ok_def)
  note scan = getNextHeader_loop_spec [OF ok(1) this(1) le0 this(2,3)]
  obtain lg2 tb where n: "getNextHeader lg1 (dp_i st) (Some dst) = Inr (lg2, 0, tb)"
    using scan none unfolding getNextHeader_def by blast
  have core: "lg_core lg2 = lg_core lg1" "map_option length tb = Some 8192"
    using getNextHeader_loop_core [of lg1 "dp_i st" "Some dst" 0 lg2 0 tb] n p(3) by (simp_all add: getNextHeader_def)
  then obtain b where b: "tb = Some b" "length b = 8192" by auto
  let ?t = "discard_text lg2 (header_of (take 56 b)) 0 (dp_header st)"
  let ?b = "bytes_of ?t @ [0] @ drop (length ?t + 1) b"
  have len: "length ?t \<le> 512" by (rule discard_text_length)
  have s: "sprintf_at b 0 ?t = Inr (?b, length ?t)" "length ?b = 8192" using len b(2) by (simp_all add: sprintf_at_def)
  have "unat (word_of_nat (length ?t) :: u32) \<le> length ?b" using len s(2) by (simp add: unat_of_nat)
  then obtain st1 fs where w: "stream_write (PlainStream st0) (dp_files st) ?b (word_of_nat (length ?t)) = Inr (PlainStream st1, fs)"
      "st_fileHandle st1 = st_fileHandle st0" "fs (st_fileHandle st0) \<noteq> None"
    using plain_write st0(2) by blast
  let ?st' = "st\<lparr>dp_log := lg2, dp_buf := ?b, dp_header := dp_header st, dp_stream := PlainStream st1, dp_files := fs, dp_i := 0\<rparr>"
  have "dump_step M strf e True retry st = Inr (False, ?st')"
    using p(1) n b s w(1) st0(1) by (simp add: dump_step_def dump_discard_def del: bytes_of_append)
  moreover have "hopeless ?st'"
    using ok none w(2,3) s(2) lg_core_log_ok [OF core(1)] lg_core_ring [OF core(1)] h(4)
    by (simp add: hopeless_def valid_at_def)
  ultimately show ?thesis by (intro exI [of _ ?st']) simp
qed

lemma dumpRange_loop_hopeless:
  assumes "hopeless st" and "dp_i st < e"
  shows "dumpRange_loop M strf e True retry st = None"
proof (rule ccontr)
  assume "dumpRange_loop M strf e True retry st \<noteq> None"
  then obtain r where "dumpRange_loop M strf e True retry st = Some r" by blast
  then have "True \<longrightarrow> hopeless st \<and> dp_i st < e \<longrightarrow> False"
  proof (rule dumpRange_loop.raw_induct [rotated, where ?P = "\<lambda>M strf e cof retry st r. cof \<longrightarrow> hopeless st \<and> dp_i st < e \<longrightarrow> False"])
    fix loop :: "cmem \<Rightarrow> (u64 \<Rightarrow> string) \<Rightarrow> u32 \<Rightarrow> bool \<Rightarrow> bool \<Rightarrow> dumper \<Rightarrow> dumper result option" and M strf e cof retry st r
    assume IH: "\<And>M strf e cof retry st r. loop M strf e cof retry st = Some r \<Longrightarrow> cof \<longrightarrow> hopeless st \<and> dp_i st < e \<longrightarrow> False"
      and run: "(if \<not> dp_i st < e then Some (Inr st)
        else case dump_step M strf e cof retry st of Inl f \<Rightarrow> Some (Inl f)
          | Inr (done, st') \<Rightarrow> if done then Some (Inr st') else loop M strf e cof retry st') = Some r"
    show "cof \<longrightarrow> hopeless st \<and> dp_i st < e \<longrightarrow> False"
    proof (intro impI)
      assume cof and st: "hopeless st \<and> dp_i st < e"
      then obtain st' where st': "dump_step M strf e cof retry st = Inr (False, st')" "dp_i st' = 0" "hopeless st'"
        using dump_step_hopeless [of st M strf e retry] by auto
      then have loop: "loop M strf e cof retry st' = Some r" using run st by simp
      have "(0 :: u32) < e" using st word_gt_0 by fastforce
      then show False using IH [OF loop] st'(2,3) \<open>cof\<close> by simp
    qed
  qed
  then show False using assms by simp
qed

text \<open>
  C18. A pass of the collector over a ring without a complete record never returns. After every failed print the
  scan finds no header and answers 0, the loop takes 0 for a position within the range and starts again, writing
  the loss message each time; nothing bounds the rounds, and the device filling up does not stop it. Only a
  record completed by another thread lets the collector go on.
\<close>

theorem collect_without_records_diverges:
  assumes "log_ok (sy_log s)" and "\<forall>k. \<not> valid_at (sy_log s) k"
    and "lg_stream (sy_log s) = PlainStream st" and "sy_files s (st_fileHandle st) \<noteq> None" and "length stack1 = 8192"
    and "N = unat (rb_size (lg_ringBuffer (sy_log s)))"
    and "unat (cl_collectorBookmark (sy_collect s)) mod N < unat (getLastWrittenIndex (sy_log s)) mod N"
  shows "Collect_collect M strf stack1 stack2 s = None"
proof -
  let ?rb = "lg_ringBuffer (sy_log s)" and ?b = "cl_collectorBookmark (sy_collect s)" and ?e = "getLastWrittenIndex (sy_log s)"
  let ?s1 = "upd_collect (\<lambda>c. c\<lparr>cl_prevCollectRangeStart := ?b, cl_prevCollectRangeEnd := ?e\<rparr>) s"
  have N: "0 < N" "rb_size ?rb \<noteq> 0" using assms(1,6) by (auto simp: log_ok_def rb_ok_def rb_wf_def)
  have norm: "RingBuffer_normalize ?rb i = Inr (i mod rb_size ?rb)" for i using N(2) by (simp add: RingBuffer_normalize_def)
  have pos: "0 < unat ?e mod N" using assms(7) by linarith
  then have "0 < unat ?e" by (metis mod_0 less_numeral_extra(3) neq0_conv)
  then have e1: "unat (?e - 1) = unat ?e - 1" by (rule unat_pred)
  have "(unat ?e - 1) mod N + 1 = unat ?e mod N" by (rule mod_pred [OF pos N(1)])
  then have le: "unat ?b mod N \<le> unat (?e - 1) mod N + 1" "unat ?b mod N < unat (?e - 1) mod N + 1" using e1 assms(7) by simp_all
  obtain start e where se: "unat start = unat ?b mod N" "unat e = unat (?e - 1) mod N + 1"
      "dumpRange M strf stack1 (sy_log s) (lg_stream (sy_log s)) (sy_files s) ?b (?e - 1) True =
        bindT (dumpRange_loop M strf e True (\<not> True) (dump_start start (sy_log s) (lg_stream (sy_log s)) (sy_files s) stack1))
          (\<lambda>st. Some (Inr (dp_log st, dp_stream st, dp_files st, dp_i st)))"
    by (rule dumpRange_eq [OF assms(1,6) le(1)])
  let ?d = "dump_start start (sy_log s) (lg_stream (sy_log s)) (sy_files s) stack1"
  have "unat start < N" using se(1) N(1) by simp
  then have "hopeless ?d" using assms(1-6) by (simp add: hopeless_def dump_start_def)
  moreover have "dp_i ?d < e" using se(1,2) le(2) by (simp add: dump_start_def word_less_nat_alt)
  ultimately have "dumpRange_loop M strf e True False ?d = None" by (rule dumpRange_loop_hopeless)
  then have "dumpRange M strf stack1 (sy_log s) (lg_stream (sy_log s)) (sy_files s) ?b (?e - 1) True = None" using se(3) by simp
  then have "collect_range M strf stack1 ?b ?e ?b (?e - 1) s = None"
    by (simp add: collect_range_def log_getStream_def upd_collect_def)
  moreover have "?b mod rb_size ?rb < ?e mod rb_size ?rb"
    using assms(6,7) by (simp add: word_less_nat_alt unat_mod)
  moreover from this have "?b mod rb_size ?rb \<noteq> ?e mod rb_size ?rb" by simp
  ultimately show ?thesis by (simp add: Collect_collect_def collect_pass_def norm Let_def)
qed

theorem collect_without_records_diverges_witness:
  "Collect_collect demo_mem demo_strf (replicate 8192 0) [] (demo_system\<lparr>sy_log := (sy_log demo_system)\<lparr>lg_bufLastWrittenIndex := 100\<rparr>\<rparr>) = None"
proof -
  let ?lg = "(sy_log demo_system)\<lparr>lg_bufLastWrittenIndex := 100\<rparr>"
  have ring: "lg_ringBuffer ?lg = lg_ringBuffer demo_log" using demo_system_fields(9) by simp
  then have ok: "log_ok ?lg" using demo_log_fresh(1) by (simp add: log_ok_def)
  have "rb_buffer (lg_ringBuffer ?lg) = replicate 4096 0" unfolding ring by (simp add: demo_log_def RingBuffer_new_def)
  then have none: "\<forall>k. \<not> valid_at ?lg k" by (simp add: empty_ring_invalid [where n = 4096])
  have "lg_stream ?lg = PlainStream \<lparr>st_stats = zero_stats, st_fileHandle = 3\<rparr>" by (simp add: demo_system_def demo_stream_def)
  moreover have "sy_files demo_system 3 \<noteq> None" by (simp add: demo_system_def demo_files_def)
  moreover have "unat (rb_size (lg_ringBuffer ?lg)) = 4096" using demo_system_fields(2) by simp
  ultimately show ?thesis
    using collect_without_records_diverges [of "demo_system\<lparr>sy_log := ?lg\<rparr>" "\<lparr>st_stats = zero_stats, st_fileHandle = 3\<rparr>"
        "replicate 8192 0" 4096 demo_mem demo_strf "[]"] ok none demo_system_fields(7)
    by (simp add: getLastWrittenIndex_def)
qed

end
