(* ===== verification/Spec2Isabelle.thy ===== *)
theory Spec2Isabelle
  imports Prelude Atomic_Model Ring_Buffer Ring_Concurrent C_Format String_Format String_Roundtrip Out_Stream
    Log_State Log_Read Log_Dump Log_Print Log_Discard Log_Trace Collector Collector_Correct Log_Lifecycle Collector_Limits
begin

text \<open>
  Asynclog, an in-memory log: producers write records into a ring buffer without system calls, a collector thread
  or an explicit dump formats them later and writes them to a file. This development models the library under
  \<^verbatim>\<open>src/src/lib\<close> and proves what makes it correct, and where it is not.

  The program.

  \<^item> A call of \<^verbatim>\<open>Log::traceVargs\<close> stores the raw arguments of a printf call, not its text:
    \<^verbatim>\<open>StringFormat::encodeToArgsBuffer\<close> copies them into a buffer on the stack behind a header, a trailer follows, and
    \<^verbatim>\<open>RingBuffer::allocate\<close> and \<^verbatim>\<open>set\<close> move the record into the ring.
  \<^item> \<^verbatim>\<open>Log::dump\<close> and \<^verbatim>\<open>Log::Collect::collect\<close> walk over the records with \<^verbatim>\<open>dumpRange\<close>: \<^verbatim>\<open>getLog\<close> copies and validates one,
    \<^verbatim>\<open>StringFormat::decodeFromArgsBuffer\<close> turns it into a line, a \<^verbatim>\<open>Stream\<close> takes the line.
  \<^item> Where no valid record is found, \<^verbatim>\<open>getNextHeader\<close> searches the next one and a message about the loss is written.
  \<^item> \<^verbatim>\<open>Log::Collect\<close> runs a worker thread that collects when \<^verbatim>\<open>shallCollect\<close> says so and flushes the file now and then.

  Theories, in the order of the calls from below, and the sources they model.

  \<^item> \<^theory_text>\<open>Prelude\<close>: machine integers as words, the faults a C++ run can end in (a sum type), bounds-checked blocks of
    memory, little-endian images of integers (locales \<open>codec\<close> and \<open>full_codec\<close>, interpreted for every width).
  \<^item> \<^theory_text>\<open>Atomic_Model\<close> (atomic.h, atomic.cpp): the counters, as functions and as step relations of many threads.
  \<^item> \<^theory_text>\<open>Ring_Buffer\<close> (ringbuffer.h, ringbuffer.cpp): every operation of \<^verbatim>\<open>RingBuffer\<close>; the locale \<open>circular_store\<close> is
    its interface. \<^theory_text>\<open>Ring_Concurrent\<close>: \<^verbatim>\<open>allocate\<close> run by many threads, one atomic access per step.
  \<^item> \<^theory_text>\<open>C_Format\<close>: what the sources use of printf and of C strings. \<^theory_text>\<open>String_Format\<close> (stringformat.h, stringformat.cpp):
    encoder and decoder. \<^theory_text>\<open>String_Roundtrip\<close>: their agreement.
  \<^item> \<^theory_text>\<open>Out_Stream\<close> (stream.h, stream.cpp): files with the buffer of the C library in front of their device, \<open>fwrite\<close> and
    \<open>fflush\<close> on them, the three stream classes, the virtual calls; the locale \<open>byte_sink\<close> is what the log relies on.
  \<^item> \<^theory_text>\<open>Log_State\<close> (log.h, first half of log.cpp): the record \<open>log\<close> with the members of \<^verbatim>\<open>Log\<close> under their names, the memory
    layout of \<^verbatim>\<open>Header\<close> and \<^verbatim>\<open>Trailer\<close>, identifiers, \<^verbatim>\<open>traceVargs\<close>, \<^verbatim>\<open>createTracefile\<close>. \<^theory_text>\<open>Log_Read\<close>: \<^verbatim>\<open>getLog\<close>,
    \<^verbatim>\<open>isEntryValid\<close>, \<^verbatim>\<open>getNextHeader\<close>, \<^verbatim>\<open>cmpHeader\<close>, \<^verbatim>\<open>firstLine\<close>. \<^theory_text>\<open>Log_Dump\<close>: \<^verbatim>\<open>getTime\<close>, \<^verbatim>\<open>printAtIndex\<close>,
    \<^verbatim>\<open>dumpRange\<close>, \<^verbatim>\<open>dumpState\<close>, \<^verbatim>\<open>dump\<close>.
  \<^item> \<^theory_text>\<open>Log_Print\<close>, \<^theory_text>\<open>Log_Discard\<close>, \<^theory_text>\<open>Log_Trace\<close>: lemmas on printing records, on discarding and realigning, and on the
    way from calls to lines.
  \<^item> \<^theory_text>\<open>Collector\<close> (collector.cpp, and the constructor, the destructor and \<^verbatim>\<open>printState\<close> of log.cpp): the record \<open>collect\<close> with the
    members of \<^verbatim>\<open>Log::Collect\<close>, the record \<open>system\<close> of a collector, its log and the open files. \<^theory_text>\<open>Collector_Correct\<close>,
    \<^theory_text>\<open>Log_Lifecycle\<close> and \<^theory_text>\<open>Collector_Limits\<close>: what it prints, what every operation keeps, and its limits.

  What is shown.

  \<^item> End to end: one or more supported calls on a fresh log whose records together are smaller than the ring, dumped
    (\<open>trace_then_dump\<close>), or supported calls whose records end before the end of the ring, collected by the worker
    thread (\<open>worker_prints_everything\<close>), give the file exactly the lines that printf would have printed, stamped, once
    and in order, when the lines have at most 4096 characters and the stream is a plain one whose device has the room.
    Outside these bounds it is different: a dump of an empty log prints a loss message, a dump of a ring that went
    round stops at its end, and the theorems on errors say what the collector does there. They rest on the round trip of encoder and decoder, on the blocks of the ring being
    read back, on \<^verbatim>\<open>getLog\<close> being exact, and on streams delivering what they are given.
  \<^item> Invariants: \<open>system_ok_reachable\<close> for every sequence of operations on a log; the type invariants of ring and
    stream for their operations; ids are unique.
  \<^item> Concurrency: the counters lose no addition, concurrent \<^verbatim>\<open>allocate\<close> calls get consecutive disjoint blocks and refine
    the sequential operation as long as the number of threads times the largest request is within the slack of the
    rollover test. For a record that is overwritten while \<^verbatim>\<open>getLog\<close> copies it, header, length, identifier and trailer
    of what is accepted agree; its payload is not protected and can be a mixture (\<open>getLog_race\<close>).
  \<^item> Termination and bounds: scans go round the ring at most once, the compare-and-swap loops are lock free, copies
    stay inside their buffers.
  \<^item> Errors, each with the exact condition: the overflow of the 32-bit index and of ranges above 2 GiB, directives the
    decoder misreads, buffered streams that cannot be used, the record at the end of the ring that the collector
    drops or prints twice, two overlapping passes that print twice, a pass without records that never ends, the
    threshold without effect, the flush that hides a full device, the closed file that the destructor flushes.

  Faults, loops and bounds. Every function returns a value of \<open>'a result\<close>, whose left side names the fault:
  memory accessed out of bounds, a null pointer, a division by zero, a failed \<^verbatim>\<open>assert\<close>, an exception, a variadic
  argument of the wrong kind. A theorem that a call returns \<open>Inr\<close> therefore says that it is free of these. Loops are
  structural recursion, or \<open>function\<close> with a measure (\<^verbatim>\<open>getNextHeader\<close> runs at most one round more than the ring has
  bytes); the wait for a producer in \<^verbatim>\<open>printAtIndex\<close> counts its \<^verbatim>\<open>SPINS\<close>, 10, as the code does. \<^verbatim>\<open>dumpRange\<close> and
  the worker thread can run for ever: they are partial functions into \<open>option\<close> whose \<open>None\<close> is a call that does not
  return, so the theorems that they return say so explicitly. The compare-and-swap loop
  of a single caller of \<^verbatim>\<open>allocate\<close> succeeds in its first round and is a function with a measure.

  Parameters. The 20 characters of the date that \<^verbatim>\<open>strftime\<close> makes of the seconds, and the seconds themselves; what
  \<^verbatim>\<open>clock_gettime\<close>, \<^verbatim>\<open>fopen\<close>, \<^verbatim>\<open>freopen\<close> and \<^verbatim>\<open>pthread_create\<close> deliver; what other threads do until \<^verbatim>\<open>pthread_join\<close>
  returns and between the steps of the worker; the contents of memory that the code does not initialise (stack
  arrays, members without initialiser), which the theorems leave arbitrary unless they say otherwise; the strings that
  pointers denote. A file is the bytes on its device, the bytes in the buffer of the C library, the room left on the
  device and its error flag; how many bytes the library keeps in its buffer is an arbitrary function of the file, so
  unbuffered, line-buffered and fully buffered files are instances. \<open>fwrite\<close> and \<open>fflush\<close> report a device that is full
  when they come to write to it.

  Not modelled. A dump is one step: other threads act between operations, and inside an operation only where a theory
  says so (\<^verbatim>\<open>allocate\<close>, the counters, the two copies of \<^verbatim>\<open>getLog\<close> byte by byte, and \<^verbatim>\<open>collect\<close> between its pass over the
  records and the store of the bookmark); torn accesses to unsynchronised members (\<^verbatim>\<open>globalId_\<close>,
  \<^verbatim>\<open>bufLastWrittenIndex_\<close>) are not. \<^verbatim>\<open>usleep\<close> and speed are outside the model. The macro \<^verbatim>\<open>info\<close> is a call of \<^verbatim>\<open>traceVargs\<close>
  with a time stamp and the tag I. The program \<^verbatim>\<open>test/main.cpp\<close> is an example without logic of its own.
\<close>

end
